(* ===== verification/Prelude.thy ===== *)
theory Prelude
  imports Main "HOL-Library.Word"
begin

text \<open>
  Shared material of the development: the machine types of the C sources, byte-addressed
  memory with little-endian 64-bit loads and stores, \<open>memset\<close> and \<open>memcpy\<close>, address
  regions, and the power-of-two rounding on \<open>size_t\<close> that every allocator of the program uses.
  The collection \<open>mem_simps\<close> holds the facts that reduce a read of updated memory to
  arithmetic on offsets; \<open>round_simps\<close> those that turn rounding into \<open>div\<close> and \<open>mod\<close>.
\<close>

unbundle bit_operations_syntax

named_theorems mem_simps
named_theorems round_simps

section \<open>Machine types\<close>

type_synonym u8 = "8 word"
type_synonym u16 = "16 word"
type_synonym u32 = "32 word"
type_synonym u64 = "64 word"
type_synonym ptr = u64
type_synonym size_t = u64
type_synonym mem = "ptr \<Rightarrow> u8"

abbreviation SIZE_MAX :: size_t where
  "SIZE_MAX \<equiv> 0xFFFFFFFFFFFFFFFF"

section \<open>Faults\<close>

text \<open>
  A C function of the sources returns, stops the process at an \<open>assert\<close> or \<open>abort\<close>, runs a loop
  forever, or follows a pointer to a structure that was freed. Functions that can do one of these return a value of type \<open>'a res\<close>.
\<close>

datatype fault = AssertFailed | Aborted | LoopsForever | BadPointer

type_synonym 'a res = "fault + 'a"

definition res_bind :: "'a res \<Rightarrow> ('a \<Rightarrow> 'b res) \<Rightarrow> 'b res" where
  "res_bind r f = (case r of Inl e \<Rightarrow> Inl e | Inr x \<Rightarrow> f x)"

definition returns :: "'a option \<Rightarrow> 'a res" where
  "returns r = (case r of None \<Rightarrow> Inl LoopsForever | Some x \<Rightarrow> Inr x)"

section \<open>Memory\<close>

fun load_le :: "mem \<Rightarrow> ptr \<Rightarrow> nat \<Rightarrow> u64" where
  "load_le m p 0 = 0"
| "load_le m p (Suc n) = ucast (m p) OR push_bit 8 (load_le m (p + 1) n)"

definition store_le :: "mem \<Rightarrow> ptr \<Rightarrow> nat \<Rightarrow> u64 \<Rightarrow> mem" where
  "store_le m p n v =
     (\<lambda>a. if unat (a - p) < n then ucast (drop_bit (8 * unat (a - p)) v) else m a)"

abbreviation load64 :: "mem \<Rightarrow> ptr \<Rightarrow> u64" where
  "load64 m p \<equiv> load_le m p 8"

abbreviation store64 :: "mem \<Rightarrow> ptr \<Rightarrow> u64 \<Rightarrow> mem" where
  "store64 m p v \<equiv> store_le m p 8 v"

definition memset :: "mem \<Rightarrow> ptr \<Rightarrow> u8 \<Rightarrow> nat \<Rightarrow> mem" where
  "memset m p c n = (\<lambda>a. if unat (a - p) < n then c else m a)"

definition memcpy :: "mem \<Rightarrow> ptr \<Rightarrow> ptr \<Rightarrow> nat \<Rightarrow> mem" where
  "memcpy m d s n = (\<lambda>a. if unat (a - d) < n then m (s + (a - d)) else m a)"

text \<open>
  The addresses of a block of \<open>n\<close> bytes at \<open>p\<close>. For a block that does not run past the end of
  the address space this is the interval of the two pointer comparisons of the C sources.
\<close>

definition region :: "ptr \<Rightarrow> nat \<Rightarrow> ptr set" where
  "region p n = {a. unat (a - p) < n}"

definition no_wrap :: "ptr \<Rightarrow> nat \<Rightarrow> bool" where
  "no_wrap p n \<longleftrightarrow> unat p + n \<le> 2 ^ 64"

definition round_up :: "nat \<Rightarrow> size_t \<Rightarrow> size_t" where
  "round_up k sz = (sz + (2 ^ k - 1)) AND NOT (2 ^ k - 1)"

section \<open>Facts on faults\<close>

lemma res_bind_simps [simp]:
  "res_bind (Inr x) f = f x"
  "res_bind (Inl e) f = Inl e"
  by (simp_all add: res_bind_def)

lemma res_bind_Inr: "res_bind r f = Inr y \<longleftrightarrow> (\<exists>x. r = Inr x \<and> f x = Inr y)"
  by (cases r) auto

lemma returns_simps [simp]: "returns (Some x) = Inr x" "returns None = Inl LoopsForever"
  by (simp_all add: returns_def)

lemma returns_Inr: "returns r = Inr x \<longleftrightarrow> r = Some x"
  by (cases r) auto

section \<open>Facts on words and rounding\<close>

lemma unat_add_no_wrap: "unat (a :: u64) + unat b < 2 ^ 64 \<Longrightarrow> unat (a + b) = unat a + unat b"
  using unat_add_lem [of a b] by simp

lemma unat_sub_le: "(b :: u64) \<le> a \<Longrightarrow> unat (a - b) = unat a - unat b"
  by (simp add: unat_sub)

lemma u64_less_iff: "(a :: u64) < b \<longleftrightarrow> unat a < unat b"
  by (rule word_less_nat_alt)

lemma u64_le_iff: "(a :: u64) \<le> b \<longleftrightarrow> unat a \<le> unat b"
  by (rule word_le_nat_alt)

lemma unat_u64_less [simp]: "unat (a :: u64) < 18446744073709551616"
  using unsigned_less [of a] by simp

lemma unat_of_nat_u64: "n < 18446744073709551616 \<Longrightarrow> unat (of_nat n :: u64) = n"
  by (simp add: unat_of_nat)

lemma and_not_low_bits: "(a :: u64) AND NOT (2 ^ k - 1) = a - take_bit k a"
proof -
  have "a AND NOT (2 ^ k - 1) = a AND NOT (take_bit k a)"
    by (rule bit_word_eqI)
      (auto simp: mask_eq_exp_minus_1 [symmetric] bit_and_iff bit_not_iff bit_take_bit_iff bit_mask_iff)
  also have "\<dots> = a - take_bit k a"
    by (rule disjunctive_diff_eq_and_not [symmetric])
      (rule bit_word_eqI, auto simp: bit_and_iff bit_not_iff bit_take_bit_iff)
  finally show ?thesis .
qed

lemma unat_and_not_low_bits: "unat ((a :: u64) AND NOT (2 ^ k - 1)) = unat a div 2 ^ k * 2 ^ k"
proof -
  have t: "unat (take_bit k a) = unat a mod 2 ^ k"
    by (subst unsigned_take_bit_eq) (simp add: take_bit_eq_mod)
  have "take_bit k a \<le> a"
    by (simp add: u64_le_iff t)
  then have "unat (a - take_bit k a) = unat a - unat a mod 2 ^ k"
    by (simp add: unat_sub_le t)
  then show ?thesis
    by (simp add: and_not_low_bits minus_mod_eq_div_mult)
qed

lemma unat_exp_minus_1: "k < 64 \<Longrightarrow> unat (2 ^ k - 1 :: u64) = 2 ^ k - 1"
proof -
  assume "k < 64"
  then have "(2 :: nat) ^ k < 2 ^ 64"
    by (intro power_strict_increasing) simp_all
  then have "unat (2 ^ k :: u64) = 2 ^ k"
    using unat_of_nat [of "2 ^ k", where 'a = 64] by simp
  moreover have "(1 :: u64) \<le> 2 ^ k"
    using calculation by (simp add: u64_le_iff)
  ultimately show ?thesis
    by (simp add: unat_sub_le)
qed

lemma unat_round_up:
  assumes "k < 64" "unat sz + (2 ^ k - 1) < 2 ^ 64"
  shows "unat (round_up k sz) = (unat sz + (2 ^ k - 1)) div 2 ^ k * 2 ^ k"
proof -
  have "unat (sz + (2 ^ k - 1)) = unat sz + (2 ^ k - 1)"
    using assms by (subst unat_add_no_wrap) (simp_all add: unat_exp_minus_1)
  then show ?thesis
    by (simp add: round_up_def unat_and_not_low_bits)
qed

lemma round_up_div_bounds:
  assumes "0 < (d :: nat)"
  shows "n \<le> (n + (d - 1)) div d * d" "(n + (d - 1)) div d * d < n + d"
proof -
  have e: "(n + (d - 1)) div d * d + (n + (d - 1)) mod d = n + (d - 1)"
    by simp
  have "(n + (d - 1)) mod d < d"
    using assms by simp
  with e assms show "n \<le> (n + (d - 1)) div d * d" by linarith
  from e assms show "(n + (d - 1)) div d * d < n + d" by linarith
qed

lemma round_up_bounds:
  assumes "k < 64" "unat sz + (2 ^ k - 1) < 2 ^ 64"
  shows "unat sz \<le> unat (round_up k sz)" "unat (round_up k sz) < unat sz + 2 ^ k"
    "unat (round_up k sz) mod 2 ^ k = 0"
  using assms round_up_div_bounds [of "2 ^ k" "unat sz"]
  by (simp_all add: unat_round_up)

section \<open>Facts on memory\<close>

lemma bit_ucast_u8_beyond: "8 \<le> i \<Longrightarrow> \<not> bit (ucast (b :: u8) :: u64) i"
  by (auto simp: bit_ucast_iff dest: bit_imp_le_length)

lemma bit_load_le:
  "i < 64 \<Longrightarrow> bit (load_le m p n) i \<longleftrightarrow> i div 8 < n \<and> bit (m (p + of_nat (i div 8))) (i mod 8)"
proof (induction n arbitrary: p i)
  case 0
  then show ?case by simp
next
  case (Suc n)
  show ?case
  proof (cases "i < 8")
    case True
    then show ?thesis by (simp add: bit_or_iff bit_push_bit_iff bit_ucast_iff)
  next
    case False
    then obtain j where j: "i = j + 8" by (metis add.commute le_Suc_ex linorder_not_less)
    then have d: "(j + 8) div 8 = Suc (j div 8)" by simp
    from j show ?thesis
      using Suc.IH [of j "p + 1"] Suc.prems bit_ucast_u8_beyond [of i "m p"]
      by (simp add: bit_or_iff bit_push_bit_iff add.assoc d)
  qed
qed

lemma load_store_same [mem_simps, simp]: "load64 (store64 m p v) p = v"
proof (rule bit_word_eqI)
  fix i assume "i < LENGTH(64)"
  then have i: "i < 64" by simp
  then have k: "i div 8 < 8" by simp
  then have u: "unat (of_nat (i div 8) :: u64) = i div 8" by (simp add: unat_of_nat)
  have "8 * (i div 8) + i mod 8 = i" by simp
  then show "bit (load64 (store64 m p v) p) i = bit v i"
    using i k by (simp add: bit_load_le store_le_def u bit_ucast_iff bit_drop_bit_eq
        del: load_le.simps)
qed

lemma load_le_cong:
  "(\<And>k. k < n \<Longrightarrow> m (p + of_nat k) = m' (p + of_nat k)) \<Longrightarrow> load_le m p n = load_le m' p n"
proof (induction n arbitrary: p)
  case 0
  then show ?case by simp
next
  case (Suc n)
  have "m p = m' p" using Suc.prems [of 0] by simp
  moreover have "load_le m (p + 1) n = load_le m' (p + 1) n"
  proof (rule Suc.IH)
    fix k assume "k < n"
    then show "m (p + 1 + of_nat k) = m' (p + 1 + of_nat k)"
      using Suc.prems [of "Suc k"] by (simp add: add.assoc)
  qed
  ultimately show ?case by simp
qed

lemma region_no_wrap:
  assumes "no_wrap p n"
  shows "a \<in> region p n \<longleftrightarrow> unat p \<le> unat a \<and> unat a < unat p + n"
proof (cases "p \<le> a")
  case True
  then show ?thesis
    using unat_sub_le [OF True] u64_le_iff [of p a] by (auto simp: region_def)
next
  case False
  then have "unat (a - p) = 2 ^ 64 + unat a - unat p"
    using unat_sub_if_size [of a p] by (simp add: word_size u64_le_iff)
  with False assms show ?thesis
    by (simp add: region_def no_wrap_def u64_le_iff)
qed

lemma region_mono: "n \<le> k \<Longrightarrow> region p n \<subseteq> region p k"
  by (auto simp: region_def)

lemma region_sub:
  assumes "unat off + n \<le> k"
  shows "region (p + off) n \<subseteq> region p k"
proof
  fix a assume "a \<in> region (p + off) n"
  then have n: "unat (a - (p + off)) < n" by (simp add: region_def)
  have "a - p = (a - (p + off)) + off" by simp
  then have "unat (a - p) \<le> unat (a - (p + off)) + unat off"
    using unat_plus_if' [of "a - (p + off)" off] by simp
  with n assms show "a \<in> region p k" by (simp add: region_def)
qed

lemma load_le_outside:
  assumes "\<And>a. a \<in> region p n \<Longrightarrow> m a = m' a" "n \<le> 2 ^ 63"
  shows "load_le m p n = load_le m' p n"
proof (rule load_le_cong)
  fix k assume "k < n"
  with assms(2) have "unat (of_nat k :: u64) = k" by (simp add: unat_of_nat)
  with \<open>k < n\<close> show "m (p + of_nat k) = m' (p + of_nat k)"
    by (intro assms(1)) (simp add: region_def)
qed

lemma store_le_outside [mem_simps]: "a \<notin> region p n \<Longrightarrow> store_le m p n v a = m a"
  by (simp add: store_le_def region_def)

lemma memset_outside [mem_simps]: "a \<notin> region p n \<Longrightarrow> memset m p c n a = m a"
  by (simp add: memset_def region_def)

lemma memset_inside [mem_simps]: "a \<in> region p n \<Longrightarrow> memset m p c n a = c"
  by (simp add: memset_def region_def)

lemma memcpy_outside [mem_simps]: "a \<notin> region d n \<Longrightarrow> memcpy m d s n a = m a"
  by (simp add: memcpy_def region_def)

lemma memcpy_at: "k < n \<Longrightarrow> n \<le> 2 ^ 63 \<Longrightarrow> memcpy m d s n (d + of_nat k) = m (s + of_nat k)"
  by (simp add: memcpy_def unat_of_nat)

end
