(* ===== verification/Probing.thy ===== *)
theory Probing
  imports Prelude
begin

text \<open>
  Open-addressing hash tables with linear probing, the data structure behind the request chunk set
  of \<open>qjs-arena.c\<close> and the object and closure-cell shadow tables of \<open>quickjs.c\<close>. A table is an
  array whose length is a power of two, the probe loop walks \<open>i = (i + 1) & mask\<close> until its stop
  test holds. The loop can run forever on a full table, so the model counts its steps and answers
  \<open>None\<close> after one whole turn. The locale \<open>probing\<close> states what the tables of the program
  share (where the key is kept, which key marks an empty slot, a hash below the mask) and proves
  once that probing agrees with a search of the whole array.
\<close>

section \<open>The probe loop and the invariant of a table\<close>

text \<open>Steps from slot \<open>a\<close> forward to slot \<open>b\<close> on a cycle of \<open>n\<close> slots.\<close>

definition cdist :: "nat \<Rightarrow> nat \<Rightarrow> nat \<Rightarrow> nat" where
  "cdist n a b = (if a \<le> b then b - a else b + n - a)"

fun probe :: "('e \<Rightarrow> bool) \<Rightarrow> nat \<Rightarrow> 'e list \<Rightarrow> nat \<Rightarrow> nat \<Rightarrow> nat option" where
  "probe stop 0 tab msk i = None"
| "probe stop (Suc f) tab msk i =
     (if stop (tab ! i) then Some i else probe stop f tab msk ((i + 1) AND msk))"

definition tab_size :: "nat \<Rightarrow> 'e list \<Rightarrow> bool" where
  "tab_size msk tab \<longleftrightarrow> (\<exists>k. msk + 1 = 2 ^ k) \<and> length tab = msk + 1"

text \<open>
  A slot \<open>p\<close> is reachable when every slot on the way from the home slot of its key to \<open>p\<close> is
  occupied: a probe for the key does not stop before \<open>p\<close>.
\<close>

definition reachable_slot :: "('e \<Rightarrow> 'k) \<Rightarrow> 'k \<Rightarrow> ('k \<Rightarrow> nat \<Rightarrow> nat) \<Rightarrow> nat \<Rightarrow> 'e list \<Rightarrow> nat \<Rightarrow> bool" where
  "reachable_slot keyof nul home msk tab p \<longleftrightarrow>
     (\<forall>q \<le> msk. cdist (msk + 1) (home (keyof (tab ! p)) msk) q
                   < cdist (msk + 1) (home (keyof (tab ! p)) msk) p
                 \<longrightarrow> keyof (tab ! q) \<noteq> nul)"

definition probe_inv :: "('e \<Rightarrow> 'k) \<Rightarrow> 'k \<Rightarrow> ('k \<Rightarrow> nat \<Rightarrow> nat) \<Rightarrow> nat \<Rightarrow> 'e list \<Rightarrow> bool" where
  "probe_inv keyof nul home msk tab \<longleftrightarrow>
     tab_size msk tab \<and>
     (\<forall>p \<le> msk. \<forall>q \<le> msk. keyof (tab ! p) = keyof (tab ! q) \<and> keyof (tab ! p) \<noteq> nul \<longrightarrow> p = q) \<and>
     (\<forall>p \<le> msk. keyof (tab ! p) \<noteq> nul \<longrightarrow> reachable_slot keyof nul home msk tab p)"

definition occupied :: "('e \<Rightarrow> 'k) \<Rightarrow> 'k \<Rightarrow> 'e list \<Rightarrow> nat" where
  "occupied keyof nul tab = length (filter (\<lambda>e. keyof e \<noteq> nul) tab)"

text \<open>The reference semantics of a table: a search of the whole array.\<close>

definition tab_find :: "('e \<Rightarrow> 'k) \<Rightarrow> 'e list \<Rightarrow> 'k \<Rightarrow> 'e option" where
  "tab_find keyof tab k = find (\<lambda>e. keyof e = k) tab"

section \<open>Cyclic distances\<close>

lemma and_le_right_nat: "(a :: nat) AND b \<le> b"
proof -
  have "int (a AND b) \<le> int b"
    by (simp add: of_nat_and_eq)
  then show ?thesis by simp
qed

lemma and_mask_eq_mod: "msk + 1 = 2 ^ k \<Longrightarrow> (i :: nat) AND msk = i mod (msk + 1)"
proof -
  assume a: "msk + 1 = 2 ^ k"
  then have "msk = mask k"
    by (simp add: mask_eq_exp_minus_1)
  with a show ?thesis
    by (simp add: take_bit_eq_mask [symmetric] take_bit_eq_mod)
qed

lemma tab_size_step: "tab_size msk tab \<Longrightarrow> (i + 1) AND msk = (i + 1) mod (msk + 1)"
  by (auto simp: tab_size_def and_mask_eq_mod)

lemma step_mod: "i \<le> msk \<Longrightarrow> Suc i mod Suc msk = (if i = msk then 0 else Suc i)"
  by auto

lemma cdist_self [simp]: "cdist n a a = 0"
  by (simp add: cdist_def)

lemma cdist_less: "a < n \<Longrightarrow> b < n \<Longrightarrow> cdist n a b < n"
  by (auto simp: cdist_def)

lemma cdist_inj: "a < n \<Longrightarrow> b < n \<Longrightarrow> c < n \<Longrightarrow> cdist n a b = cdist n a c \<Longrightarrow> b = c"
  by (auto simp: cdist_def split: if_splits)

lemma cdist_0: "a < n \<Longrightarrow> b < n \<Longrightarrow> cdist n a b = 0 \<longleftrightarrow> a = b"
  by (auto simp: cdist_def)

lemma cdist_step:
  "a \<le> msk \<Longrightarrow> b \<le> msk \<Longrightarrow> a \<noteq> b \<Longrightarrow>
     Suc (cdist (msk + 1) ((a + 1) mod (msk + 1)) b) = cdist (msk + 1) a b"
  by (auto simp: cdist_def step_mod)

section \<open>The probe loop finds the first stop\<close>

lemma probe_first:
  assumes "tab_size msk tab" "i \<le> msk" "t \<le> msk" "stop (tab ! t)"
    and "\<And>q. q \<le> msk \<Longrightarrow> cdist (msk + 1) i q < cdist (msk + 1) i t \<Longrightarrow> \<not> stop (tab ! q)"
    and "cdist (msk + 1) i t < fuel"
  shows "probe stop fuel tab msk i = Some t"
  using assms(2,5,6)
proof (induction fuel arbitrary: i)
  case 0
  then show ?case by simp
next
  case (Suc fuel)
  show ?case
  proof (cases "i = t")
    case True
    with assms(4) show ?thesis by simp
  next
    case False
    let ?i = "(i + 1) mod (msk + 1)"
    have i: "?i \<le> msk" by (simp add: Suc_leI less_Suc_eq_le)
    have d: "Suc (cdist (msk + 1) ?i q) = cdist (msk + 1) i q" if "q \<le> msk" "q \<noteq> i" for q
      using cdist_step [OF Suc.prems(1) that(1)] that(2) by simp
    have n: "\<not> stop (tab ! i)"
      using Suc.prems(2) [OF Suc.prems(1)] False cdist_0 [of i "msk + 1" t] Suc.prems(1) assms(3) by simp
    have "probe stop fuel tab msk ?i = Some t"
    proof (rule Suc.IH [OF i])
      fix q assume q: "q \<le> msk" "cdist (msk + 1) ?i q < cdist (msk + 1) ?i t"
      show "\<not> stop (tab ! q)"
      proof (cases "q = i")
        case True
        then show ?thesis using n by simp
      next
        case False
        then show ?thesis
          using q d [of q] d [of t] assms(3) \<open>i \<noteq> t\<close> Suc.prems(2) [of q] by simp
      qed
    next
      show "cdist (msk + 1) ?i t < fuel"
        using d [of t] assms(3) False Suc.prems(3) by simp
    qed
    with n show ?thesis
      by (simp add: tab_size_step [OF assms(1), simplified])
  qed
qed

lemma first_stop_exists:
  assumes "t \<le> (msk :: nat)" "P t"
  obtains s where "s \<le> msk" "P s" "\<And>q. q \<le> msk \<Longrightarrow> cdist (msk + 1) i q < cdist (msk + 1) i s \<Longrightarrow> \<not> P q"
proof -
  obtain s where "s \<le> msk \<and> P s" "\<forall>q. q \<le> msk \<and> P q \<longrightarrow> cdist (msk + 1) i s \<le> cdist (msk + 1) i q"
    using ex_has_least_nat [of "\<lambda>q. q \<le> msk \<and> P q" t "cdist (msk + 1) i"] assms by blast
  then show thesis
    using that [of s] by (meson linorder_not_less)
qed

lemma probe_finds:
  assumes "tab_size msk tab" "i \<le> msk" "t \<le> msk" "stop (tab ! t)"
  obtains s where "probe stop (msk + 1) tab msk i = Some s" "s \<le> msk" "stop (tab ! s)"
    "\<And>q. q \<le> msk \<Longrightarrow> cdist (msk + 1) i q < cdist (msk + 1) i s \<Longrightarrow> \<not> stop (tab ! q)"
proof -
  obtain s where s: "s \<le> msk" "stop (tab ! s)"
    "\<And>q. q \<le> msk \<Longrightarrow> cdist (msk + 1) i q < cdist (msk + 1) i s \<Longrightarrow> \<not> stop (tab ! q)"
    using first_stop_exists [OF assms(3), of "\<lambda>q. stop (tab ! q)" i] assms(4) by blast
  have "probe stop (msk + 1) tab msk i = Some s"
    using s cdist_less [of i "msk + 1" s] assms(2)
    by (intro probe_first [OF assms(1)]) simp_all
  with s show thesis using that by blast
qed

section \<open>Occupancy\<close>

lemma room_iff: "occupied keyof nul tab < length tab \<longleftrightarrow> (\<exists>i < length tab. keyof (tab ! i) = nul)"
proof
  assume "occupied keyof nul tab < length tab"
  then have "filter (\<lambda>e. keyof e \<noteq> nul) tab \<noteq> tab"
    unfolding occupied_def by (metis less_irrefl)
  then obtain e where "e \<in> set tab" "keyof e = nul"
    using filter_True [of tab "\<lambda>e. keyof e \<noteq> nul"] by blast
  then show "\<exists>i < length tab. keyof (tab ! i) = nul"
    by (metis in_set_conv_nth)
next
  assume "\<exists>i < length tab. keyof (tab ! i) = nul"
  then obtain e where "e \<in> set tab" "keyof e = nul"
    using nth_mem by blast
  then show "occupied keyof nul tab < length tab"
    by (simp add: occupied_def length_filter_less)
qed

lemma occupied_update:
  assumes "i < length tab"
  shows "occupied keyof nul (tab[i := e]) + (if keyof (tab ! i) = nul then 0 else 1)
       = occupied keyof nul tab + (if keyof e = nul then 0 else 1)"
  using assms
proof (induction tab arbitrary: i)
  case Nil
  then show ?case by simp
next
  case (Cons x xs)
  show ?case
  proof (cases i)
    case 0
    then show ?thesis by (simp add: occupied_def)
  next
    case (Suc j)
    then show ?thesis
      using Cons.IH [of j] Cons.prems by (simp add: occupied_def split: if_splits)
  qed
qed

lemma find_eq_Some_nth:
  assumes "p < length tab" "P (tab ! p)" "\<And>q. q < length tab \<Longrightarrow> P (tab ! q) \<Longrightarrow> q = p"
  shows "find P tab = Some (tab ! p)"
proof -
  have "find P tab \<noteq> None"
    using assms(1,2) by (metis find_None_iff nth_mem)
  then obtain x where x: "find P tab = Some x" by blast
  then obtain i where "i < length tab" "P (tab ! i)" "x = tab ! i"
    by (auto simp: find_Some_iff)
  with x assms(3) show ?thesis by metis
qed

section \<open>Probing tables\<close>

locale probing =
  fixes keyof :: "'e \<Rightarrow> 'k"
    and nul :: 'k
    and home :: "'k \<Rightarrow> nat \<Rightarrow> nat"
  assumes home_le: "home k msk \<le> msk"
begin

lemma inv_size: "probe_inv keyof nul home msk tab \<Longrightarrow> length tab = msk + 1"
  by (simp add: probe_inv_def tab_size_def)

lemma inv_distinct:
  "probe_inv keyof nul home msk tab \<Longrightarrow> p \<le> msk \<Longrightarrow> q \<le> msk \<Longrightarrow>
     keyof (tab ! p) = keyof (tab ! q) \<Longrightarrow> keyof (tab ! p) \<noteq> nul \<Longrightarrow> p = q"
  by (simp add: probe_inv_def)

lemma find_at:
  assumes "probe_inv keyof nul home msk tab" "p \<le> msk" "keyof (tab ! p) \<noteq> nul"
  shows "tab_find keyof tab (keyof (tab ! p)) = Some (tab ! p)"
  unfolding tab_find_def
  using assms inv_size [OF assms(1)] inv_distinct [OF assms(1)]
  by (intro find_eq_Some_nth) (simp_all add: less_Suc_eq_le)

text \<open>
  A probe for a key from its home slot returns within one turn, at the slot of the key if the table
  holds it and at an empty slot otherwise, and every slot passed on the way is occupied.
\<close>

lemma probe_key:
  assumes inv: "probe_inv keyof nul home msk tab" and room: "occupied keyof nul tab < length tab"
    and k: "k \<noteq> nul"
  obtains s where "probe (\<lambda>e. keyof e = nul \<or> keyof e = k) (msk + 1) tab msk (home k msk) = Some s"
    "s \<le> msk" "keyof (tab ! s) = k \<or> keyof (tab ! s) = nul \<and> k \<notin> keyof ` set tab"
    "\<And>q. q \<le> msk \<Longrightarrow> cdist (msk + 1) (home k msk) q < cdist (msk + 1) (home k msk) s
        \<Longrightarrow> keyof (tab ! q) \<noteq> nul"
proof -
  let ?stop = "\<lambda>e. keyof e = nul \<or> keyof e = k"
  have len: "length tab = msk + 1" by (rule inv_size [OF inv])
  obtain t where t: "t < length tab" "keyof (tab ! t) = nul"
    using room room_iff [of keyof nul tab] by blast
  have "tab_size msk tab" using inv by (simp add: probe_inv_def)
  then obtain s where s: "probe ?stop (msk + 1) tab msk (home k msk) = Some s" "s \<le> msk"
      "?stop (tab ! s)"
      "\<And>q. q \<le> msk \<Longrightarrow> cdist (msk + 1) (home k msk) q < cdist (msk + 1) (home k msk) s
        \<Longrightarrow> \<not> ?stop (tab ! q)"
    using probe_finds [of msk tab "home k msk" t ?stop] home_le [of k msk] t len by auto
  have "k \<notin> keyof ` set tab" if e: "keyof (tab ! s) = nul"
  proof
    assume "k \<in> keyof ` set tab"
    then obtain p where p: "p \<le> msk" "keyof (tab ! p) = k"
      using len by (auto simp: in_set_conv_nth less_Suc_eq_le)
    have np: "p \<noteq> s" using p e k by auto
    have "cdist (msk + 1) (home k msk) p \<noteq> cdist (msk + 1) (home k msk) s"
      using cdist_inj [of "home k msk" "msk + 1" p s] np p(1) s(2) home_le [of k msk] by auto
    moreover have "\<not> cdist (msk + 1) (home k msk) p < cdist (msk + 1) (home k msk) s"
      using s(4) [OF p(1)] p(2) by blast
    ultimately have "cdist (msk + 1) (home k msk) s < cdist (msk + 1) (home k msk) p" by simp
    moreover have "reachable_slot keyof nul home msk tab p"
      using inv p k by (simp add: probe_inv_def)
    ultimately show False
      using s(2) e p(2) by (auto simp: reachable_slot_def)
  qed
  with s show thesis
    using that [of s] by blast
qed

lemma lookup_probe:
  assumes "probe_inv keyof nul home msk tab" "occupied keyof nul tab < length tab" "k \<noteq> nul"
  shows "(case probe (\<lambda>e. keyof e = nul \<or> keyof e = k) (msk + 1) tab msk (home k msk) of
            None \<Rightarrow> None
          | Some i \<Rightarrow> if keyof (tab ! i) = nul then Some None else Some (Some (tab ! i)))
        = Some (tab_find keyof tab k)"
proof -
  obtain s where s: "probe (\<lambda>e. keyof e = nul \<or> keyof e = k) (msk + 1) tab msk (home k msk) = Some s"
    "s \<le> msk" "keyof (tab ! s) = k \<or> keyof (tab ! s) = nul \<and> k \<notin> keyof ` set tab"
    using probe_key [OF assms] by metis
  show ?thesis
  proof (cases "keyof (tab ! s) = k")
    case True
    then show ?thesis
      using s find_at [OF assms(1) s(2)] assms(3) by auto
  next
    case False
    with s have n: "keyof (tab ! s) = nul" "k \<notin> keyof ` set tab" by auto
    then have "tab_find keyof tab k = None"
      by (auto simp: tab_find_def find_None_iff)
    with s n show ?thesis by simp
  qed
qed

text \<open>Writing an entry at the slot a probe returned keeps the invariant and sets one key.\<close>

lemma put_inv:
  assumes inv: "probe_inv keyof nul home msk tab" and s: "s \<le> msk"
    and key: "keyof e = k" "k \<noteq> nul"
    and at: "keyof (tab ! s) = k \<or> keyof (tab ! s) = nul \<and> k \<notin> keyof ` set tab"
    and way: "\<And>q. q \<le> msk \<Longrightarrow> cdist (msk + 1) (home k msk) q < cdist (msk + 1) (home k msk) s
        \<Longrightarrow> keyof (tab ! q) \<noteq> nul"
  shows "probe_inv keyof nul home msk (tab[s := e])"
proof -
  have len: "length tab = msk + 1" by (rule inv_size [OF inv])
  have nth: "keyof (tab[s := e] ! q) = (if q = s then k else keyof (tab ! q))" if "q \<le> msk" for q
    using that len key by (simp add: nth_list_update)
  have only: "keyof (tab ! q) \<noteq> k" if "q \<le> msk" "q \<noteq> s" for q
    using at inv_distinct [OF inv that(1) s] that len key(2)
    by (metis image_eqI less_Suc_eq_le nth_mem Suc_eq_plus1)
  have "p = q" if "p \<le> msk" "q \<le> msk" "keyof (tab[s := e] ! p) = keyof (tab[s := e] ! q)"
    "keyof (tab[s := e] ! p) \<noteq> nul" for p q
    using that only [of p] only [of q] inv_distinct [OF inv that(1,2)] by (auto simp: nth split: if_splits)
  moreover have "reachable_slot keyof nul home msk (tab[s := e]) p"
    if p: "p \<le> msk" "keyof (tab[s := e] ! p) \<noteq> nul" for p
  proof (cases "p = s")
    case True
    then show ?thesis
      using way key(2) s by (simp add: reachable_slot_def nth)
  next
    case False
    then have "reachable_slot keyof nul home msk tab p"
      using inv p by (simp add: probe_inv_def nth)
    then show ?thesis
      using False p key(2) by (simp add: reachable_slot_def nth)
  qed
  moreover have "tab_size msk (tab[s := e])"
    using inv by (simp add: probe_inv_def tab_size_def)
  ultimately show ?thesis
    by (auto simp: probe_inv_def)
qed

lemma put_find:
  assumes inv: "probe_inv keyof nul home msk tab" and s: "s \<le> msk"
    and key: "keyof e = k" "k \<noteq> nul"
    and at: "keyof (tab ! s) = k \<or> keyof (tab ! s) = nul \<and> k \<notin> keyof ` set tab"
    and inv': "probe_inv keyof nul home msk (tab[s := e])" and k': "k' \<noteq> nul"
  shows "tab_find keyof (tab[s := e]) k' = (if k' = k then Some e else tab_find keyof tab k')"
proof (cases "k' = k")
  case True
  then show ?thesis
    using find_at [OF inv' s] key s inv_size [OF inv] by simp
next
  case False
  have len: "length tab = msk + 1" by (rule inv_size [OF inv])
  show ?thesis
  proof (cases "\<exists>p \<le> msk. keyof (tab ! p) = k'")
    case True
    then obtain p where p: "p \<le> msk" "keyof (tab ! p) = k'" by blast
    have "p \<noteq> s" using p at False k' by auto
    then have "tab[s := e] ! p = tab ! p" by simp
    then show ?thesis
      using find_at [OF inv' p(1)] find_at [OF inv p(1)] p(2) k' False by simp
  next
    case None: False
    then have "tab_find keyof tab k' = None"
      using len by (auto simp: tab_find_def find_None_iff in_set_conv_nth less_Suc_eq_le)
    moreover have "tab_find keyof (tab[s := e]) k' = None"
      using calculation False key set_update_subset_insert [of tab s e]
      by (auto simp: tab_find_def find_None_iff)
    ultimately show ?thesis using False by simp
  qed
qed

end

end
