(* ===== verification/ChunkTable.thy ===== *)
theory ChunkTable
  imports Probing
begin

text \<open>
  The per-thread set of request chunks (\<open>qjs-arena.h\<close>: \<open>js_arena_chunk_hash\<close>,
  \<open>js_arena_ptr_request_owner\<close>; \<open>qjs-arena.c\<close>: \<open>chunk_tab_put\<close> to
  \<open>js_arena_unregister_request\<close>). It maps every 4 KiB chunk of request memory to the request arena
  that owns it. The state is the table (\<open>None\<close> for the NULL table), its mask and its count; owners
  are identities of \<open>JSRequestArena\<close> structures. \<open>calloc\<close> may fail, which is the boolean argument of
  the operations that allocate. The theorems show that the operations refine a finite map from chunk
  keys to owners, also through the backward-shift deletion and the failed-rebuild path, and that the
  probe loops return.
\<close>

section \<open>State\<close>

record js_arena_chunk =
  key :: u64
  owner :: "nat option"

record chunk_set =
  js_arena_chunk_tab :: "js_arena_chunk list option"
  js_arena_chunk_mask :: nat
  js_arena_chunk_count :: nat

definition empty_chunk :: js_arena_chunk where
  "empty_chunk = \<lparr>key = 0, owner = None\<rparr>"

definition no_chunks :: chunk_set where
  "no_chunks = \<lparr>js_arena_chunk_tab = None, js_arena_chunk_mask = 0, js_arena_chunk_count = 0\<rparr>"

abbreviation JS_ARENA_CHUNK_SHIFT :: nat where
  "JS_ARENA_CHUNK_SHIFT \<equiv> 12"

abbreviation JS_ARENA_CHUNK_SIZE :: u64 where
  "JS_ARENA_CHUNK_SIZE \<equiv> 0x1000"

abbreviation JS_ARENA_CHUNK_TAB_INITIAL :: nat where
  "JS_ARENA_CHUNK_TAB_INITIAL \<equiv> 64"

section \<open>Operations\<close>

definition js_arena_chunk_hash :: "u64 \<Rightarrow> nat \<Rightarrow> nat" where
  "js_arena_chunk_hash k msk = unat (ucast (drop_bit 32 (k * 0x9E3779B97F4A7C15)) :: u32) AND msk"

definition chunk_key :: "ptr \<Rightarrow> u64" where
  "chunk_key p = drop_bit JS_ARENA_CHUNK_SHIFT p + 1"

definition probe_chunk :: "js_arena_chunk list \<Rightarrow> nat \<Rightarrow> u64 \<Rightarrow> nat option" where
  "probe_chunk tab msk k =
     probe (\<lambda>e. key e = 0 \<or> key e = k) (msk + 1) tab msk (js_arena_chunk_hash k msk)"

definition js_arena_ptr_request_owner :: "chunk_set \<Rightarrow> ptr \<Rightarrow> nat option res" where
  "js_arena_ptr_request_owner cs p =
     (case js_arena_chunk_tab cs of
        None \<Rightarrow> Inr None
      | Some tab \<Rightarrow>
          (case probe_chunk tab (js_arena_chunk_mask cs) (chunk_key p) of
             None \<Rightarrow> Inl LoopsForever
           | Some i \<Rightarrow> Inr (if key (tab ! i) = 0 then None else owner (tab ! i))))"

definition js_arena_ptr_is_request :: "chunk_set \<Rightarrow> ptr \<Rightarrow> bool res" where
  "js_arena_ptr_is_request cs p =
     res_bind (js_arena_ptr_request_owner cs p) (\<lambda>r. Inr (r \<noteq> None))"

definition chunk_tab_put :: "js_arena_chunk list \<Rightarrow> nat \<Rightarrow> u64 \<Rightarrow> nat option \<Rightarrow> js_arena_chunk list option" where
  "chunk_tab_put tab msk k own =
     map_option (\<lambda>i. tab[i := \<lparr>key = k, owner = own\<rparr>]) (probe_chunk tab msk k)"

fun rebuild_loop :: "js_arena_chunk list \<Rightarrow> js_arena_chunk list \<Rightarrow> nat \<Rightarrow> nat option \<Rightarrow> nat
    \<Rightarrow> (js_arena_chunk list \<times> nat) option" where
  "rebuild_loop [] nt nmask drp kept = Some (nt, kept)"
| "rebuild_loop (e # es) nt nmask drp kept =
     (if key e \<noteq> 0 \<and> owner e \<noteq> None \<and> owner e \<noteq> drp
      then (case chunk_tab_put nt nmask (key e) (owner e) of
              None \<Rightarrow> None
            | Some nt' \<Rightarrow> rebuild_loop es nt' nmask drp (kept + 1))
      else rebuild_loop es nt nmask drp kept)"

definition chunk_tab_rebuild :: "bool \<Rightarrow> chunk_set \<Rightarrow> nat \<Rightarrow> nat option \<Rightarrow> (chunk_set \<times> bool) res" where
  "chunk_tab_rebuild calloc_ok cs new_size drp =
     (if \<not> calloc_ok then Inr (cs, False)
      else
        (case rebuild_loop
                (case js_arena_chunk_tab cs of
                   None \<Rightarrow> [] | Some tab \<Rightarrow> take (js_arena_chunk_mask cs + 1) tab)
                (replicate new_size empty_chunk) (new_size - 1) drp 0 of
           None \<Rightarrow> Inl LoopsForever
         | Some (nt, kept) \<Rightarrow>
             Inr (\<lparr>js_arena_chunk_tab = Some nt, js_arena_chunk_mask = new_size - 1,
                   js_arena_chunk_count = kept\<rparr>, True)))"

text \<open>The doubling loop on a \<open>uint32_t\<close>: it wraps to 0 after 32 doublings and then never ends.\<close>

fun grow_size :: "nat \<Rightarrow> nat \<Rightarrow> nat \<Rightarrow> nat option" where
  "grow_size fuel sz need2 =
     (if sz < need2 then (case fuel of 0 \<Rightarrow> None | Suc f \<Rightarrow> grow_size f ((sz * 2) mod 2 ^ 32) need2)
      else Some sz)"

fun put_range :: "js_arena_chunk list \<Rightarrow> nat \<Rightarrow> u64 \<Rightarrow> nat \<Rightarrow> nat option \<Rightarrow> js_arena_chunk list option" where
  "put_range tab msk k 0 own = Some tab"
| "put_range tab msk k (Suc n) own =
     (case chunk_tab_put tab msk k own of
        None \<Rightarrow> None
      | Some tab' \<Rightarrow> put_range tab' msk (k + 1) n own)"

definition js_arena_register_request :: "bool \<Rightarrow> chunk_set \<Rightarrow> ptr \<Rightarrow> ptr \<Rightarrow> nat option
    \<Rightarrow> (chunk_set \<times> bool) res" where
  "js_arena_register_request calloc_ok cs lo hi own =
     (if lo AND (JS_ARENA_CHUNK_SIZE - 1) \<noteq> 0 \<or> hi AND (JS_ARENA_CHUNK_SIZE - 1) \<noteq> 0
      then Inl AssertFailed
      else
        let first = drop_bit JS_ARENA_CHUNK_SHIFT lo;
            n = drop_bit JS_ARENA_CHUNK_SHIFT hi - first;
            need = js_arena_chunk_count cs + unat n;
            sz0 = (if js_arena_chunk_mask cs \<noteq> 0 then js_arena_chunk_mask cs + 1
                   else JS_ARENA_CHUNK_TAB_INITIAL)
        in res_bind (returns (grow_size 32 sz0 (need * 2))) (\<lambda>sz.
           res_bind (if sz \<noteq> js_arena_chunk_mask cs + 1
                     then chunk_tab_rebuild calloc_ok cs sz None else Inr (cs, True)) (\<lambda>(cs1, ok).
           if \<not> ok then Inr (cs1, False)
           else
             res_bind (returns (put_range (the (js_arena_chunk_tab cs1)) (js_arena_chunk_mask cs1)
                                  (first + 1) (unat n) own)) (\<lambda>tab.
             Inr (cs1\<lparr>js_arena_chunk_tab := Some tab,
                      js_arena_chunk_count :=
                        (js_arena_chunk_count cs1 + unat n mod 2 ^ 32) mod 2 ^ 32\<rparr>, True)))))"

definition stays :: "nat \<Rightarrow> nat \<Rightarrow> nat \<Rightarrow> bool" where
  "stays i j h = (if i \<le> j then h > i \<and> h \<le> j else h > i \<or> h \<le> j)"

fun del_loop :: "nat \<Rightarrow> js_arena_chunk list \<Rightarrow> nat \<Rightarrow> nat \<Rightarrow> nat \<Rightarrow> js_arena_chunk list option" where
  "del_loop 0 tab msk i j = None"
| "del_loop (Suc f) tab msk i j =
     (let j' = (j + 1) AND msk in
      if key (tab ! j') = 0 then Some (tab[i := empty_chunk])
      else if stays i j' (js_arena_chunk_hash (key (tab ! j')) msk)
      then del_loop f tab msk i j'
      else del_loop f (tab[i := tab ! j']) msk j' j')"

definition chunk_tab_del :: "js_arena_chunk list \<Rightarrow> nat \<Rightarrow> nat \<Rightarrow> js_arena_chunk list option" where
  "chunk_tab_del tab msk i = del_loop (msk + 1) tab msk i i"

fun unregister_loop :: "js_arena_chunk list \<Rightarrow> nat \<Rightarrow> u64 \<Rightarrow> nat \<Rightarrow> nat
    \<Rightarrow> (js_arena_chunk list \<times> nat) option" where
  "unregister_loop tab msk k 0 cnt = Some (tab, cnt)"
| "unregister_loop tab msk k (Suc n) cnt =
     (case probe_chunk tab msk k of
        None \<Rightarrow> None
      | Some i \<Rightarrow>
          if key (tab ! i) = 0 then unregister_loop tab msk (k + 1) n cnt
          else (case chunk_tab_del tab msk i of
                  None \<Rightarrow> None
                | Some tab' \<Rightarrow> unregister_loop tab' msk (k + 1) n ((cnt + (2 ^ 32 - 1)) mod 2 ^ 32)))"

definition js_arena_unregister_request_range :: "chunk_set \<Rightarrow> ptr \<Rightarrow> ptr \<Rightarrow> chunk_set res" where
  "js_arena_unregister_request_range cs lo hi =
     (case js_arena_chunk_tab cs of
        None \<Rightarrow> Inr cs
      | Some tab \<Rightarrow>
          let first = drop_bit JS_ARENA_CHUNK_SHIFT lo;
              n = drop_bit JS_ARENA_CHUNK_SHIFT hi - first
          in res_bind (returns (unregister_loop tab (js_arena_chunk_mask cs) (first + 1) (unat n)
                                  (js_arena_chunk_count cs))) (\<lambda>(tab', cnt).
             Inr (if cnt = 0
                  then cs\<lparr>js_arena_chunk_tab := None, js_arena_chunk_mask := 0, js_arena_chunk_count := 0\<rparr>
                  else cs\<lparr>js_arena_chunk_tab := Some tab', js_arena_chunk_count := cnt\<rparr>)))"

definition js_arena_unregister_request :: "bool \<Rightarrow> chunk_set \<Rightarrow> nat \<Rightarrow> chunk_set res" where
  "js_arena_unregister_request calloc_ok cs own =
     (case js_arena_chunk_tab cs of
        None \<Rightarrow> Inr cs
      | Some tab \<Rightarrow>
          let live = length (filter (\<lambda>e. key e \<noteq> 0 \<and> owner e \<noteq> None \<and> owner e \<noteq> Some own)
                              (take (js_arena_chunk_mask cs + 1) tab))
          in if live = 0 then Inr no_chunks
             else res_bind (chunk_tab_rebuild calloc_ok cs (js_arena_chunk_mask cs + 1) (Some own))
               (\<lambda>(cs1, ok).
                 if ok then Inr cs1
                 else Inr (cs1\<lparr>js_arena_chunk_tab :=
                        Some (map (\<lambda>e. if owner e = Some own then e\<lparr>owner := None\<rparr> else e) tab)\<rparr>)))"

section \<open>Invariant and abstraction\<close>

abbreviation chunk_probe_inv :: "nat \<Rightarrow> js_arena_chunk list \<Rightarrow> bool" where
  "chunk_probe_inv \<equiv> probe_inv key 0 js_arena_chunk_hash"

abbreviation chunks_used :: "js_arena_chunk list \<Rightarrow> nat" where
  "chunks_used \<equiv> occupied key 0"

definition chunk_inv :: "chunk_set \<Rightarrow> bool" where
  "chunk_inv cs =
     (case js_arena_chunk_tab cs of
        None \<Rightarrow> js_arena_chunk_mask cs = 0 \<and> js_arena_chunk_count cs = 0
      | Some tab \<Rightarrow>
          chunk_probe_inv (js_arena_chunk_mask cs) tab \<and>
          63 \<le> js_arena_chunk_mask cs \<and> js_arena_chunk_mask cs < 2 ^ 31 \<and>
          chunks_used tab \<le> js_arena_chunk_count cs \<and>
          2 * js_arena_chunk_count cs \<le> js_arena_chunk_mask cs + 1)"

definition tab_owner :: "js_arena_chunk list \<Rightarrow> u64 \<Rightarrow> nat option" where
  "tab_owner tab k = Option.bind (tab_find key tab k) owner"

definition chunk_owner :: "chunk_set \<Rightarrow> u64 \<Rightarrow> nat option" where
  "chunk_owner cs k =
     (case js_arena_chunk_tab cs of None \<Rightarrow> None | Some tab \<Rightarrow> tab_owner tab k)"

interpretation chunk: probing key 0 js_arena_chunk_hash
proof unfold_locales
  fix k msk
  show "js_arena_chunk_hash k msk \<le> msk"
    unfolding js_arena_chunk_hash_def by (rule and_le_right_nat)
qed

section \<open>Insertion\<close>

lemma probe_chunk_spec:
  assumes "chunk_probe_inv msk tab" "chunks_used tab < length tab" "k \<noteq> 0"
  obtains s where "probe_chunk tab msk k = Some s" "s \<le> msk"
    "key (tab ! s) = k \<or> key (tab ! s) = 0 \<and> k \<notin> key ` set tab"
    "\<And>q. q \<le> msk \<Longrightarrow> cdist (msk + 1) (js_arena_chunk_hash k msk) q
        < cdist (msk + 1) (js_arena_chunk_hash k msk) s \<Longrightarrow> key (tab ! q) \<noteq> 0"
  using chunk.probe_key [OF assms] unfolding probe_chunk_def by blast

lemma chunk_tab_put_spec:
  assumes inv: "chunk_probe_inv msk tab" and room: "chunks_used tab < length tab" and k: "k \<noteq> 0"
  obtains tab' where "chunk_tab_put tab msk k own = Some tab'" "chunk_probe_inv msk tab'"
    "\<And>k'. k' \<noteq> 0 \<Longrightarrow> tab_find key tab' k' = (if k' = k then Some \<lparr>key = k, owner = own\<rparr> else tab_find key tab k')"
    "chunks_used tab' = chunks_used tab + (if k \<in> key ` set tab then 0 else 1)"
    "length tab' = length tab"
proof -
  obtain s where s: "probe_chunk tab msk k = Some s" "s \<le> msk"
    "key (tab ! s) = k \<or> key (tab ! s) = 0 \<and> k \<notin> key ` set tab"
    "\<And>q. q \<le> msk \<Longrightarrow> cdist (msk + 1) (js_arena_chunk_hash k msk) q
        < cdist (msk + 1) (js_arena_chunk_hash k msk) s \<Longrightarrow> key (tab ! q) \<noteq> 0"
    using probe_chunk_spec [OF assms] by metis
  let ?e = "\<lparr>key = k, owner = own\<rparr>"
  have len: "length tab = msk + 1" by (rule chunk.inv_size [OF inv])
  have inv': "chunk_probe_inv msk (tab[s := ?e])"
    using s k by (intro chunk.put_inv [OF inv s(2), where k = k]) simp_all
  have "tab_find key (tab[s := ?e]) k' = (if k' = k then Some ?e else tab_find key tab k')"
    if "k' \<noteq> 0" for k'
    using s(3) k that inv' by (intro chunk.put_find [OF inv s(2)]) simp_all
  moreover have "chunks_used (tab[s := ?e]) = chunks_used tab + (if k \<in> key ` set tab then 0 else 1)"
    using occupied_update [of s tab key 0 ?e] s(2,3) k len nth_mem [of s tab]
    by (auto split: if_splits)
  ultimately show thesis
    using that [of "tab[s := ?e]"] s(1) inv' by (simp add: chunk_tab_put_def)
qed

lemma range_Suc:
  "(\<exists>c < Suc n. k' = k + of_nat c) \<longleftrightarrow> k' = k \<or> (\<exists>c < n. k' = k + 1 + of_nat c)" for k' :: u64
proof -
  have "(\<exists>c < Suc n. k' = k + of_nat c) \<longleftrightarrow> k' = k + of_nat 0 \<or> (\<exists>c < n. k' = k + of_nat (Suc c))"
    unfolding less_Suc_eq_0_disj by auto
  then show ?thesis by (simp add: add.assoc)
qed

lemma put_range_spec:
  assumes "chunk_probe_inv msk tab" "chunks_used tab + n < length tab"
    and "\<And>c. c < n \<Longrightarrow> k + of_nat c \<noteq> 0"
  shows "\<exists>tab'. put_range tab msk k n own = Some tab' \<and> chunk_probe_inv msk tab' \<and>
     chunks_used tab' \<le> chunks_used tab + n \<and> length tab' = length tab \<and>
     (\<forall>k'. k' \<noteq> 0 \<longrightarrow> tab_owner tab' k' = (if \<exists>c < n. k' = k + of_nat c then own else tab_owner tab k'))"
  using assms
proof (induction n arbitrary: tab k)
  case 0
  then show ?case by simp
next
  case (Suc n)
  have "k \<noteq> 0" using Suc.prems(3) [of 0] by simp
  then obtain t1 where t1: "chunk_tab_put tab msk k own = Some t1" "chunk_probe_inv msk t1"
    "\<And>k'. k' \<noteq> 0 \<Longrightarrow> tab_find key t1 k' = (if k' = k then Some \<lparr>key = k, owner = own\<rparr> else tab_find key tab k')"
    "chunks_used t1 = chunks_used tab + (if k \<in> key ` set tab then 0 else 1)" "length t1 = length tab"
    using chunk_tab_put_spec [OF Suc.prems(1), of k own] Suc.prems(2) by auto
  have nz: "k + 1 + of_nat c \<noteq> 0" if "c < n" for c
    using Suc.prems(3) [of "Suc c"] that by (simp add: add.assoc)
  have "chunks_used t1 + n < length t1" using t1(4,5) Suc.prems(2) by (simp split: if_splits)
  from Suc.IH [OF t1(2) this nz] obtain t2 where t2: "put_range t1 msk (k + 1) n own = Some t2"
    "chunk_probe_inv msk t2" "chunks_used t2 \<le> chunks_used t1 + n" "length t2 = length t1"
    "\<And>k'. k' \<noteq> 0 \<Longrightarrow> tab_owner t2 k' = (if \<exists>c < n. k' = k + 1 + of_nat c then own else tab_owner t1 k')"
    by blast
  have "tab_owner t2 k' = (if \<exists>c < Suc n. k' = k + of_nat c then own else tab_owner tab k')"
    if "k' \<noteq> 0" for k'
  proof -
    have "tab_owner t1 k' = (if k' = k then own else tab_owner tab k')"
      using t1(3) [OF that] by (simp add: tab_owner_def)
    then show ?thesis
      unfolding range_Suc t2(5) [OF that] by auto
  qed
  moreover have "chunks_used t2 \<le> chunks_used tab + Suc n"
    using t2(3) t1(4) by (simp split: if_splits)
  ultimately show ?case
    using t1(1,5) t2 by simp
qed

section \<open>Rebuilding\<close>

lemma distinct_keys:
  assumes "\<And>p q. p < length xs \<Longrightarrow> q < length xs \<Longrightarrow> f (xs ! p) = f (xs ! q) \<Longrightarrow> f (xs ! p) \<noteq> z \<Longrightarrow> p = q"
  shows "distinct (map f (filter (\<lambda>e. f e \<noteq> z) xs))"
  using assms
proof (induction xs)
  case Nil
  then show ?case by simp
next
  case (Cons x xs)
  have "distinct (map f (filter (\<lambda>e. f e \<noteq> z) xs))"
  proof (rule Cons.IH)
    fix p q assume "p < length xs" "q < length xs" "f (xs ! p) = f (xs ! q)" "f (xs ! p) \<noteq> z"
    then show "p = q" using Cons.prems [of "Suc p" "Suc q"] by simp
  qed
  moreover have "f x \<notin> f ` {e \<in> set xs. f e \<noteq> z}" if "f x \<noteq> z"
  proof
    assume "f x \<in> f ` {e \<in> set xs. f e \<noteq> z}"
    then obtain q where "q < length xs" "f x = f (xs ! q)" by (auto simp: in_set_conv_nth)
    with that show False using Cons.prems [of 0 "Suc q"] by simp
  qed
  ultimately show ?case by auto
qed

lemma tab_find_Cons: "tab_find f (e # es) k = (if f e = k then Some e else tab_find f es k)"
  by (simp add: tab_find_def)

lemma tab_find_None_iff: "tab_find f tab k = None \<longleftrightarrow> k \<notin> f ` set tab"
  by (auto simp: tab_find_def find_None_iff)

lemma rebuild_loop_spec:
  assumes "chunk_probe_inv nmask nt" "chunks_used nt + length (filter (\<lambda>e. key e \<noteq> 0) es) < length nt"
    and "distinct (map key (filter (\<lambda>e. key e \<noteq> 0) es))"
    and "\<And>k. k \<in> key ` set es \<Longrightarrow> k \<noteq> 0 \<Longrightarrow> k \<notin> key ` set nt"
  shows "\<exists>nt' kept'. rebuild_loop es nt nmask drp kept = Some (nt', kept') \<and> chunk_probe_inv nmask nt' \<and>
     length nt' = length nt \<and> kept' + chunks_used nt = kept + chunks_used nt' \<and>
     kept' \<le> kept + length (filter (\<lambda>e. key e \<noteq> 0) es) \<and>
     (\<forall>k. k \<noteq> 0 \<longrightarrow> tab_owner nt' k =
        (case tab_find key es k of
           Some e \<Rightarrow> if owner e = drp then None else owner e
         | None \<Rightarrow> tab_owner nt k))"
  using assms
proof (induction es arbitrary: nt kept)
  case Nil
  then show ?case by (simp add: tab_find_def)
next
  case (Cons e es)
  have none: "tab_owner nt (key e) = None" if "key e \<noteq> 0"
    using Cons.prems(4) [of "key e"] that tab_find_None_iff [of key nt "key e"] by (simp add: tab_owner_def)
  have fresh: "tab_find key es (key e) = None" if "key e \<noteq> 0"
    using Cons.prems(3) that by (auto simp: tab_find_None_iff)
  show ?case
  proof (cases "key e \<noteq> 0 \<and> owner e \<noteq> None \<and> owner e \<noteq> drp")
    case True
    then have nk: "key e \<notin> key ` set nt" using Cons.prems(4) [of "key e"] by simp
    obtain n1 where n1: "chunk_tab_put nt nmask (key e) (owner e) = Some n1" "chunk_probe_inv nmask n1"
      "\<And>k'. k' \<noteq> 0 \<Longrightarrow> tab_find key n1 k' = (if k' = key e then Some \<lparr>key = key e, owner = owner e\<rparr> else tab_find key nt k')"
      "chunks_used n1 = chunks_used nt + (if key e \<in> key ` set nt then 0 else 1)" "length n1 = length nt"
      using chunk_tab_put_spec [OF Cons.prems(1), of "key e" "owner e"] Cons.prems(2) True by auto
    have "k \<notin> key ` set n1" if "k \<in> key ` set es" "k \<noteq> 0" for k
    proof -
      have "k \<noteq> key e" using fresh that(1) True unfolding tab_find_None_iff by metis
      moreover have "k \<notin> key ` set nt" using Cons.prems(4) [of k] that by auto
      ultimately show ?thesis using n1(3) [OF that(2)] by (metis tab_find_None_iff)
    qed
    from Cons.IH [OF n1(2) _ _ this, of "kept + 1"] Cons.prems(2,3) n1(4,5) nk True
    obtain nt' kept' where r: "rebuild_loop es n1 nmask drp (kept + 1) = Some (nt', kept')"
      "chunk_probe_inv nmask nt'" "length nt' = length n1" "kept' + chunks_used n1 = kept + 1 + chunks_used nt'"
      "kept' \<le> kept + 1 + length (filter (\<lambda>e. key e \<noteq> 0) es)"
      "\<And>k. k \<noteq> 0 \<Longrightarrow> tab_owner nt' k =
        (case tab_find key es k of Some e \<Rightarrow> if owner e = drp then None else owner e | None \<Rightarrow> tab_owner n1 k)"
      by auto
    have "tab_owner nt' k = (case tab_find key (e # es) k of
        Some e \<Rightarrow> if owner e = drp then None else owner e | None \<Rightarrow> tab_owner nt k)" if "k \<noteq> 0" for k
      using r(6) [OF that] n1(3) [OF that] fresh True
      by (auto simp: tab_find_Cons tab_owner_def split: option.splits)
    then show ?thesis
      using r n1(1,4,5) nk True by simp
  next
    case False
    from Cons.IH [OF Cons.prems(1), of kept] Cons.prems(2,3,4)
    obtain nt' kept' where r: "rebuild_loop es nt nmask drp kept = Some (nt', kept')"
      "chunk_probe_inv nmask nt'" "length nt' = length nt" "kept' + chunks_used nt = kept + chunks_used nt'"
      "kept' \<le> kept + length (filter (\<lambda>e. key e \<noteq> 0) es)"
      "\<And>k. k \<noteq> 0 \<Longrightarrow> tab_owner nt' k =
        (case tab_find key es k of Some e \<Rightarrow> if owner e = drp then None else owner e | None \<Rightarrow> tab_owner nt k)"
      by (auto split: if_splits)
    have "tab_owner nt' k = (case tab_find key (e # es) k of
        Some e \<Rightarrow> if owner e = drp then None else owner e | None \<Rightarrow> tab_owner nt k)" if "k \<noteq> 0" for k
      using r(6) [OF that] fresh none False that
      by (auto simp: tab_find_Cons split: option.splits)
    then show ?thesis
      using r False by (auto intro: le_trans)
  qed
qed

section \<open>Backward-shift deletion\<close>

lemma stays_iff:
  "i \<le> msk \<Longrightarrow> j \<le> msk \<Longrightarrow> h \<le> msk \<Longrightarrow> i \<noteq> j \<Longrightarrow>
     stays i j h \<longleftrightarrow> h \<noteq> i \<and> cdist (msk + 1) i h \<le> cdist (msk + 1) i j"
  by (auto simp: stays_def cdist_def)

lemma stays_off_path:
  "i \<le> msk \<Longrightarrow> j \<le> msk \<Longrightarrow> h \<le> msk \<Longrightarrow> i \<noteq> j \<Longrightarrow>
     stays i j h \<longleftrightarrow> \<not> cdist (msk + 1) h i < cdist (msk + 1) h j"
  by (auto simp: stays_def cdist_def)

lemma path_through:
  "i \<le> msk \<Longrightarrow> j \<le> msk \<Longrightarrow> h \<le> msk \<Longrightarrow> p \<le> msk \<Longrightarrow>
     cdist (msk + 1) h i < cdist (msk + 1) h p \<Longrightarrow> cdist (msk + 1) i j < cdist (msk + 1) i p \<Longrightarrow>
     cdist (msk + 1) h j < cdist (msk + 1) h p"
  by (auto simp: cdist_def split: if_splits)

lemma cdist_next:
  "i \<le> msk \<Longrightarrow> j \<le> msk \<Longrightarrow> Suc j mod Suc msk \<noteq> i \<Longrightarrow>
     cdist (msk + 1) i (Suc j mod Suc msk) = Suc (cdist (msk + 1) i j)"
  by (auto simp: cdist_def step_mod split: if_splits)

lemma key_empty [simp]: "key empty_chunk = 0"
  by (simp add: empty_chunk_def)

text \<open>
  The loop invariant of the deletion: slot \<open>i\<close> is the hole, and an entry whose way from its home
  passes the hole lies beyond the slots scanned so far.
\<close>

definition hole_inv :: "js_arena_chunk list \<Rightarrow> nat \<Rightarrow> nat \<Rightarrow> nat \<Rightarrow> bool" where
  "hole_inv tab msk i j \<longleftrightarrow>
     tab_size msk tab \<and> i \<le> msk \<and> j \<le> msk \<and> key (tab ! i) \<noteq> 0 \<and>
     (\<forall>p \<le> msk. \<forall>q \<le> msk. p \<noteq> i \<and> q \<noteq> i \<and> key (tab ! p) = key (tab ! q) \<and> key (tab ! p) \<noteq> 0 \<longrightarrow> p = q) \<and>
     (\<forall>p \<le> msk. p \<noteq> i \<and> key (tab ! p) \<noteq> 0 \<longrightarrow>
        (\<forall>q \<le> msk. cdist (msk + 1) (js_arena_chunk_hash (key (tab ! p)) msk) q
                     < cdist (msk + 1) (js_arena_chunk_hash (key (tab ! p)) msk) p \<longrightarrow>
           (if q = i then cdist (msk + 1) i j < cdist (msk + 1) i p else key (tab ! q) \<noteq> 0)))"


lemma hole_invD:
  assumes "hole_inv tab msk i j"
  shows "tab_size msk tab" "length tab = msk + 1" "i \<le> msk" "j \<le> msk" "key (tab ! i) \<noteq> 0"
    "\<And>p q. p \<le> msk \<Longrightarrow> q \<le> msk \<Longrightarrow> p \<noteq> i \<Longrightarrow> q \<noteq> i \<Longrightarrow> key (tab ! p) = key (tab ! q) \<Longrightarrow>
       key (tab ! p) \<noteq> 0 \<Longrightarrow> p = q"
    "\<And>p q. p \<le> msk \<Longrightarrow> p \<noteq> i \<Longrightarrow> key (tab ! p) \<noteq> 0 \<Longrightarrow> q \<le> msk \<Longrightarrow>
       cdist (msk + 1) (js_arena_chunk_hash (key (tab ! p)) msk) q
         < cdist (msk + 1) (js_arena_chunk_hash (key (tab ! p)) msk) p \<Longrightarrow>
       (if q = i then cdist (msk + 1) i j < cdist (msk + 1) i p else key (tab ! q) \<noteq> 0)"
  using assms unfolding hole_inv_def tab_size_def by blast+

lemma hole_invI:
  assumes "tab_size msk tab" "i \<le> msk" "j \<le> msk" "key (tab ! i) \<noteq> 0"
    "\<And>p q. p \<le> msk \<Longrightarrow> q \<le> msk \<Longrightarrow> p \<noteq> i \<Longrightarrow> q \<noteq> i \<Longrightarrow> key (tab ! p) = key (tab ! q) \<Longrightarrow>
       key (tab ! p) \<noteq> 0 \<Longrightarrow> p = q"
    "\<And>p q. p \<le> msk \<Longrightarrow> p \<noteq> i \<Longrightarrow> key (tab ! p) \<noteq> 0 \<Longrightarrow> q \<le> msk \<Longrightarrow>
       cdist (msk + 1) (js_arena_chunk_hash (key (tab ! p)) msk) q
         < cdist (msk + 1) (js_arena_chunk_hash (key (tab ! p)) msk) p \<Longrightarrow>
       (if q = i then cdist (msk + 1) i j < cdist (msk + 1) i p else key (tab ! q) \<noteq> 0)"
  shows "hole_inv tab msk i j"
  using assms unfolding hole_inv_def by blast

lemma hole_inv_finish:
  assumes H: "hole_inv tab msk i j" and e: "key (tab ! (Suc j mod Suc msk)) = 0"
  shows "chunk_probe_inv msk (tab[i := empty_chunk])"
proof -
  note h = hole_invD [OF H]
  let ?j = "Suc j mod Suc msk" and ?t = "tab[i := empty_chunk]"
  have j: "?j \<le> msk" "?j \<noteq> i" using e h(5) by (auto simp: less_Suc_eq_le [symmetric])
  have d: "cdist (msk + 1) i ?j = Suc (cdist (msk + 1) i j)" by (rule cdist_next [OF h(3,4) j(2)])
  have nth: "?t ! q = (if q = i then empty_chunk else tab ! q)" if "q \<le> msk" for q
    using that h(2) by (simp add: nth_list_update)
  have off: "\<not> cdist (msk + 1) (js_arena_chunk_hash (key (tab ! p)) msk) i
      < cdist (msk + 1) (js_arena_chunk_hash (key (tab ! p)) msk) p"
    if p: "p \<le> msk" "p \<noteq> i" "key (tab ! p) \<noteq> 0" for p
  proof
    let ?h = "js_arena_chunk_hash (key (tab ! p)) msk"
    assume a: "cdist (msk + 1) ?h i < cdist (msk + 1) ?h p"
    have "cdist (msk + 1) i j < cdist (msk + 1) i p" using h(7) [OF p h(3) a] by simp
    moreover have "cdist (msk + 1) i ?j \<noteq> cdist (msk + 1) i p"
      using cdist_inj [of i "msk + 1" ?j p] h(3) j(1) p e by auto
    ultimately have "cdist (msk + 1) i ?j < cdist (msk + 1) i p" using d by simp
    then have "cdist (msk + 1) ?h ?j < cdist (msk + 1) ?h p"
      using path_through [OF h(3) j(1) chunk.home_le p(1) a] by simp
    then show False using h(7) [OF p j(1)] j(2) e by simp
  qed
  have "reachable_slot key 0 js_arena_chunk_hash msk ?t p" if p: "p \<le> msk" "key (?t ! p) \<noteq> 0" for p
  proof -
    have p': "p \<noteq> i" "key (tab ! p) \<noteq> 0" using p h(3) by (auto simp: nth split: if_splits)
    then show ?thesis
      using h(7) [OF p(1) p'] off [OF p(1) p'] p(1) unfolding reachable_slot_def by (auto simp: nth)
  qed
  moreover have "p = q" if "p \<le> msk" "q \<le> msk" "key (?t ! p) = key (?t ! q)" "key (?t ! p) \<noteq> 0" for p q
    using that h(6) [of p q] by (auto simp: nth split: if_splits)
  ultimately show ?thesis
    using h(1) by (auto simp: probe_inv_def tab_size_def)
qed

lemma hole_inv_stay:
  assumes H: "hole_inv tab msk i j" and j: "Suc j mod Suc msk \<noteq> i"
    and k: "key (tab ! (Suc j mod Suc msk)) \<noteq> 0"
    and st: "stays i (Suc j mod Suc msk) (js_arena_chunk_hash (key (tab ! (Suc j mod Suc msk))) msk)"
  shows "hole_inv tab msk i (Suc j mod Suc msk)"
proof -
  note h = hole_invD [OF H]
  let ?j = "Suc j mod Suc msk"
  have jm: "?j \<le> msk" by (simp add: less_Suc_eq_le [symmetric])
  have d: "cdist (msk + 1) i ?j = Suc (cdist (msk + 1) i j)" by (rule cdist_next [OF h(3,4) j])
  have "(if q = i then cdist (msk + 1) i ?j < cdist (msk + 1) i p else key (tab ! q) \<noteq> 0)"
    if p: "p \<le> msk" "p \<noteq> i" "key (tab ! p) \<noteq> 0" "q \<le> msk"
      and a: "cdist (msk + 1) (js_arena_chunk_hash (key (tab ! p)) msk) q
         < cdist (msk + 1) (js_arena_chunk_hash (key (tab ! p)) msk) p" for p q
  proof (cases "q = i")
    case True
    then have "cdist (msk + 1) i j < cdist (msk + 1) i p" using h(7) [OF p a] by simp
    moreover have "p \<noteq> ?j"
      using st stays_off_path [OF h(3) jm chunk.home_le] j a True by auto
    then have "cdist (msk + 1) i p \<noteq> cdist (msk + 1) i ?j"
      using cdist_inj [of i "msk + 1" p ?j] h(3) p(1) jm by auto
    ultimately show ?thesis using d True by simp
  next
    case False
    then show ?thesis using h(7) [OF p a] by simp
  qed
  then show ?thesis
    using h(1-5) jm by (intro hole_invI h(6))
qed

lemma hole_inv_move:
  assumes H: "hole_inv tab msk i j" and j: "Suc j mod Suc msk \<noteq> i"
    and k: "key (tab ! (Suc j mod Suc msk)) \<noteq> 0"
    and st: "\<not> stays i (Suc j mod Suc msk) (js_arena_chunk_hash (key (tab ! (Suc j mod Suc msk))) msk)"
  shows "hole_inv (tab[i := tab ! (Suc j mod Suc msk)]) msk (Suc j mod Suc msk) (Suc j mod Suc msk)"
proof -
  note h = hole_invD [OF H]
  let ?j = "Suc j mod Suc msk"
  let ?t = "tab[i := tab ! ?j]"
  have jm: "?j \<le> msk" by (simp add: less_Suc_eq_le [symmetric])
  have nth: "?t ! q = (if q = i then tab ! ?j else tab ! q)" if "q \<le> msk" for q
    using that h(2) by (simp add: nth_list_update)
  have d: "p = q" if "p \<le> msk" "q \<le> msk" "p \<noteq> ?j" "q \<noteq> ?j" "key (?t ! p) = key (?t ! q)" "key (?t ! p) \<noteq> 0"
    for p q
    using that h(6) [of p q] h(6) [of p ?j] h(6) [of ?j q] jm j by (auto simp: nth split: if_splits)
  have w: "(if q = ?j then cdist (msk + 1) ?j ?j < cdist (msk + 1) ?j p else key (?t ! q) \<noteq> 0)"
    if p: "p \<le> msk" "p \<noteq> ?j" "key (?t ! p) \<noteq> 0" "q \<le> msk"
      and a: "cdist (msk + 1) (js_arena_chunk_hash (key (?t ! p)) msk) q
         < cdist (msk + 1) (js_arena_chunk_hash (key (?t ! p)) msk) p" for p q
  proof (cases "q = ?j")
    case True
    then show ?thesis
      using cdist_0 [of ?j "msk + 1" p] p jm by (auto simp: Suc_le_eq less_Suc_eq_le)
  next
    case False
    show ?thesis
    proof (cases "p = i")
      case True
      let ?h = "js_arena_chunk_hash (key (tab ! ?j)) msk"
      have a': "cdist (msk + 1) ?h q < cdist (msk + 1) ?h i" using a True p(1) by (simp add: nth)
      moreover have "cdist (msk + 1) ?h i < cdist (msk + 1) ?h ?j"
        using st stays_off_path [OF h(3) jm chunk.home_le] j by auto
      ultimately have "key (tab ! q) \<noteq> 0" "q \<noteq> i"
        using h(7) [OF jm j k p(4)] by (auto split: if_splits)
      then show ?thesis using False p(4) by (simp add: nth)
    next
      case pi: False
      then show ?thesis
        using h(7) [of p q] p a k False by (auto simp: nth split: if_splits)
    qed
  qed
  show ?thesis
  proof (rule hole_invI)
    show "tab_size msk ?t" using h(1) by (simp add: tab_size_def)
    show "key (?t ! ?j) \<noteq> 0" using k j by simp
  qed (rule jm d w; assumption)+
qed

definition others :: "js_arena_chunk list \<Rightarrow> nat \<Rightarrow> nat \<Rightarrow> js_arena_chunk set" where
  "others tab msk i = {tab ! p | p. p \<le> msk \<and> p \<noteq> i \<and> key (tab ! p) \<noteq> 0}"

lemma others_move:
  assumes "length tab = msk + 1" "i \<le> msk" "j \<le> msk" "i \<noteq> j" "key (tab ! j) \<noteq> 0"
  shows "others (tab[i := tab ! j]) msk j = others tab msk i"
proof -
  have nth: "tab[i := tab ! j] ! q = (if q = i then tab ! j else tab ! q)" if "q \<le> msk" for q
    using that assms(1) by (simp add: nth_list_update)
  show ?thesis
  proof
    show "others (tab[i := tab ! j]) msk j \<subseteq> others tab msk i"
      using assms unfolding others_def by (auto simp: nth split: if_splits)
    show "others tab msk i \<subseteq> others (tab[i := tab ! j]) msk j"
    proof
      fix x assume "x \<in> others tab msk i"
      then obtain p where p: "p \<le> msk" "p \<noteq> i" "key (tab ! p) \<noteq> 0" "x = tab ! p" by (auto simp: others_def)
      show "x \<in> others (tab[i := tab ! j]) msk j"
      proof (cases "p = j")
        case True
        then show ?thesis using p assms nth [of i] unfolding others_def by (auto intro!: exI [of _ i])
      next
        case False
        then show ?thesis using p nth [of p] unfolding others_def by (auto intro!: exI [of _ p])
      qed
    qed
  qed
qed

lemma others_finish:
  assumes "length tab = msk + 1" "i \<le> msk"
  shows "{e \<in> set (tab[i := empty_chunk]). key e \<noteq> 0} = others tab msk i"
proof -
  have "e \<in> set (tab[i := empty_chunk]) \<longleftrightarrow> (\<exists>p \<le> msk. e = (if p = i then empty_chunk else tab ! p))" for e
    using assms by (auto simp: in_set_conv_nth nth_list_update less_Suc_eq_le)
  then show ?thesis
    unfolding others_def by (auto split: if_splits)
qed

lemma del_loop_spec:
  assumes "hole_inv tab msk i j" "e \<le> msk" "key (tab ! e) = 0" "cdist (msk + 1) i j < cdist (msk + 1) i e"
    and "cdist (msk + 1) j e \<le> fuel"
  shows "\<exists>tab'. del_loop fuel tab msk i j = Some tab' \<and> chunk_probe_inv msk tab' \<and>
     {e \<in> set tab'. key e \<noteq> 0} = others tab msk i \<and> Suc (chunks_used tab') = chunks_used tab"
  using assms
proof (induction fuel arbitrary: tab i j)
  case 0
  then show ?case
    using hole_invD(4) [OF 0(1)] cdist_0 [of j "msk + 1" e] by auto
next
  case (Suc fuel)
  note h = hole_invD [OF Suc.prems(1)]
  let ?j = "Suc j mod Suc msk"
  have jm: "?j \<le> msk" by (simp add: less_Suc_eq_le [symmetric])
  have step: "(j + 1) AND msk = ?j" using tab_size_step [OF h(1), of j] by simp
  have je: "j \<noteq> e" using Suc.prems(4) by auto
  have ji: "?j \<noteq> i"
  proof
    assume "?j = i"
    then have "cdist (msk + 1) i j = msk"
      using h(3,4) by (auto simp: cdist_def step_mod split: if_splits)
    then show False using Suc.prems(4) cdist_less [of i "msk + 1" e] h(3) Suc.prems(2) by simp
  qed
  have d: "cdist (msk + 1) i ?j = Suc (cdist (msk + 1) i j)" by (rule cdist_next [OF h(3,4) ji])
  have fl: "cdist (msk + 1) ?j e \<le> fuel"
    using cdist_step [OF h(4) Suc.prems(2) je] Suc.prems(5) by simp
  show ?case
  proof (cases "key (tab ! ?j) = 0")
    case True
    have "Suc (chunks_used (tab[i := empty_chunk])) = chunks_used tab"
      using occupied_update [of i tab key 0 empty_chunk] h(2,3,5) by (simp add: empty_chunk_def)
    then show ?thesis
      using hole_inv_finish [OF Suc.prems(1) True] others_finish [OF h(2,3)] True
      by (simp add: step [simplified])
  next
    case False
    then have ej: "?j \<noteq> e" using Suc.prems(3) by auto
    show ?thesis
    proof (cases "stays i ?j (js_arena_chunk_hash (key (tab ! ?j)) msk)")
      case True
      have "cdist (msk + 1) i ?j \<noteq> cdist (msk + 1) i e"
        using cdist_inj [of i "msk + 1" ?j e] h(3) jm Suc.prems(2) ej by auto
      then have "cdist (msk + 1) i ?j < cdist (msk + 1) i e" using Suc.prems(4) d by simp
      then show ?thesis
        using Suc.IH [OF hole_inv_stay [OF Suc.prems(1) ji False True] Suc.prems(2,3) _ fl] True False
        by (simp add: step [simplified] Let_def)
    next
      case st: False
      let ?t = "tab[i := tab ! ?j]"
      have e: "key (?t ! e) = 0"
        using Suc.prems(2,3) h(2,5) False by (cases "e = i") (auto simp: nth_list_update)
      have "cdist (msk + 1) ?j ?j < cdist (msk + 1) ?j e"
        using cdist_0 [of ?j "msk + 1" e] jm Suc.prems(2) ej by (auto simp: Suc_le_eq less_Suc_eq_le)
      moreover have "chunks_used ?t = chunks_used tab"
        using occupied_update [of i tab key 0 "tab ! ?j"] h(2,3,5) False by simp
      ultimately show ?thesis
        using Suc.IH [OF hole_inv_move [OF Suc.prems(1) ji False st] Suc.prems(2) e _ fl] st False
          others_move [OF h(2,3) jm] ji by (simp add: step [simplified] Let_def)
    qed
  qed
qed


lemma tab_find_iff:
  assumes "chunk_probe_inv msk tab" "k \<noteq> 0"
  shows "tab_find key tab k = Some e \<longleftrightarrow> e \<in> {e \<in> set tab. key e \<noteq> 0} \<and> key e = k"
proof
  assume "tab_find key tab k = Some e"
  then show "e \<in> {e \<in> set tab. key e \<noteq> 0} \<and> key e = k"
    using assms(2) by (auto simp: tab_find_def find_Some_iff)
next
  assume a: "e \<in> {e \<in> set tab. key e \<noteq> 0} \<and> key e = k"
  then obtain p where "p \<le> msk" "e = tab ! p"
    using chunk.inv_size [OF assms(1)] by (auto simp: in_set_conv_nth less_Suc_eq_le)
  then show "tab_find key tab k = Some e"
    using chunk.find_at [OF assms(1)] a by auto
qed

lemma tab_find_remove:
  assumes inv: "chunk_probe_inv msk tab" "chunk_probe_inv msk tab'" and i: "i \<le> msk"
    and others: "{e \<in> set tab'. key e \<noteq> 0} = others tab msk i" and k: "k \<noteq> 0"
  shows "tab_find key tab' k = (if k = key (tab ! i) then None else tab_find key tab k)"
proof -
  have len: "length tab = msk + 1" by (rule chunk.inv_size [OF inv(1)])
  have mem: "e \<in> others tab msk i \<and> key e = k \<longleftrightarrow>
      k \<noteq> key (tab ! i) \<and> e \<in> {e \<in> set tab. key e \<noteq> 0} \<and> key e = k" for e
    using chunk.inv_distinct [OF inv(1)] i k len unfolding others_def
    by (auto simp: in_set_conv_nth less_Suc_eq_le)
  show ?thesis
  proof (cases "tab_find key tab' k")
    case None
    then have "\<not> (\<exists>e. tab_find key tab' k = Some e)" by simp
    then have "k \<noteq> key (tab ! i) \<longrightarrow> tab_find key tab k = None"
      unfolding tab_find_iff [OF inv(2) k] others mem tab_find_iff [OF inv(1) k, symmetric] by auto
    then show ?thesis using None by simp
  next
    case (Some e)
    then have "k \<noteq> key (tab ! i) \<and> tab_find key tab k = Some e"
      unfolding tab_find_iff [OF inv(2) k] others mem tab_find_iff [OF inv(1) k, symmetric] by auto
    then show ?thesis using Some by simp
  qed
qed

lemma chunk_tab_del_spec:
  assumes inv: "chunk_probe_inv msk tab" and room: "chunks_used tab < length tab"
    and i: "i \<le> msk" "key (tab ! i) \<noteq> 0"
  obtains tab' where "chunk_tab_del tab msk i = Some tab'" "chunk_probe_inv msk tab'"
    "Suc (chunks_used tab') = chunks_used tab"
    "\<And>k. k \<noteq> 0 \<Longrightarrow> tab_find key tab' k = (if k = key (tab ! i) then None else tab_find key tab k)"
proof -
  have len: "length tab = msk + 1" by (rule chunk.inv_size [OF inv])
  obtain e where e: "e \<le> msk" "key (tab ! e) = 0"
    using room room_iff [of key 0 tab] len by (auto simp: less_Suc_eq_le)
  have ei: "cdist (msk + 1) i e \<noteq> 0" using cdist_0 [of i "msk + 1" e] e i by auto
  have "hole_inv tab msk i i"
  proof (rule hole_invI)
    show "tab_size msk tab" using inv by (simp add: probe_inv_def)
    fix p q assume p: "p \<le> msk" "p \<noteq> i" "key (tab ! p) \<noteq> 0" "q \<le> msk"
      and a: "cdist (msk + 1) (js_arena_chunk_hash (key (tab ! p)) msk) q
         < cdist (msk + 1) (js_arena_chunk_hash (key (tab ! p)) msk) p"
    have "key (tab ! q) \<noteq> 0"
      using inv p a unfolding probe_inv_def reachable_slot_def by blast
    moreover have "0 < cdist (msk + 1) i p"
      using cdist_0 [of i "msk + 1" p] i(1) p(1,2) by simp
    ultimately show "if q = i then cdist (msk + 1) i i < cdist (msk + 1) i p else key (tab ! q) \<noteq> 0"
      by simp
  qed (rule i chunk.inv_distinct [OF inv]; assumption)+
  moreover have "cdist (msk + 1) i e \<le> msk + 1" using cdist_less [of i "msk + 1" e] e(1) i(1) by simp
  ultimately obtain tab' where t: "chunk_tab_del tab msk i = Some tab'" "chunk_probe_inv msk tab'"
     "{e \<in> set tab'. key e \<noteq> 0} = others tab msk i" "Suc (chunks_used tab') = chunks_used tab"
    using del_loop_spec [of tab msk i i e "msk + 1"] e ei unfolding chunk_tab_del_def cdist_self by blast
  show thesis
    using that [OF t(1,2,4)] tab_find_remove [OF inv t(2) i(1) t(3)] by blast
qed

lemma unregister_loop_spec:
  assumes "chunk_probe_inv msk tab" "chunks_used tab \<le> cnt" "cnt < length tab" "cnt < 2 ^ 32"
    and "\<And>c. c < n \<Longrightarrow> k + of_nat c \<noteq> 0"
  shows "\<exists>tab' cnt'. unregister_loop tab msk k n cnt = Some (tab', cnt') \<and> chunk_probe_inv msk tab' \<and>
     chunks_used tab' \<le> cnt' \<and> cnt' \<le> cnt \<and>
     (\<forall>k'. k' \<noteq> 0 \<longrightarrow> tab_owner tab' k' = (if \<exists>c < n. k' = k + of_nat c then None else tab_owner tab k'))"
  using assms
proof (induction n arbitrary: tab k cnt)
  case 0
  then show ?case by simp
next
  case (Suc n)
  have k: "k \<noteq> 0" using Suc.prems(5) [of 0] by simp
  have nz: "k + 1 + of_nat c \<noteq> 0" if "c < n" for c
    using Suc.prems(5) [of "Suc c"] that by (simp add: add.assoc)
  have room: "chunks_used tab < length tab" using Suc.prems(2,3) by simp
  obtain s where s: "probe_chunk tab msk k = Some s" "s \<le> msk"
    "key (tab ! s) = k \<or> key (tab ! s) = 0 \<and> k \<notin> key ` set tab"
    using probe_chunk_spec [OF Suc.prems(1) room k] by metis
  show ?case
  proof (cases "key (tab ! s) = 0")
    case True
    then have none: "tab_owner tab k = None"
      using s(3) k tab_find_None_iff [of key tab k] by (auto simp: tab_owner_def)
    obtain t2 c2 where t2: "unregister_loop tab msk (k + 1) n cnt = Some (t2, c2)"
      "chunk_probe_inv msk t2" "chunks_used t2 \<le> c2" "c2 \<le> cnt"
      "\<And>k'. k' \<noteq> 0 \<Longrightarrow> tab_owner t2 k' = (if \<exists>c < n. k' = k + 1 + of_nat c then None else tab_owner tab k')"
      using Suc.IH [OF Suc.prems(1-4) nz] by blast
    have "tab_owner t2 k' = (if \<exists>c < Suc n. k' = k + of_nat c then None else tab_owner tab k')"
      if "k' \<noteq> 0" for k'
      using none t2(5) [OF that] unfolding range_Suc by metis
    moreover have "unregister_loop tab msk k (Suc n) cnt = Some (t2, c2)"
      using s(1) True t2(1) by simp
    ultimately show ?thesis using t2(2-4) by blast
  next
    case False
    then obtain t1 where t1: "chunk_tab_del tab msk s = Some t1" "chunk_probe_inv msk t1"
      "Suc (chunks_used t1) = chunks_used tab"
      "\<And>k'. k' \<noteq> 0 \<Longrightarrow> tab_find key t1 k' = (if k' = k then None else tab_find key tab k')"
      using chunk_tab_del_spec [OF Suc.prems(1) room s(2)] s(3) by metis
    have c: "(cnt + (2 ^ 32 - 1)) mod 2 ^ 32 = cnt - 1"
      using t1(3) Suc.prems(2,4) mod_add_self2 [of "cnt - 1" "2 ^ 32"]
      by (simp add: add.commute)
    have own: "tab_owner t1 k' = (if k' = k then None else tab_owner tab k')" if "k' \<noteq> 0" for k'
      using t1(4) [OF that] by (simp add: tab_owner_def)
    have "length t1 = length tab" using chunk.inv_size Suc.prems(1) t1(2) by metis
    then have "\<exists>tab' cnt'. unregister_loop t1 msk (k + 1) n (cnt - 1) = Some (tab', cnt') \<and>
       chunk_probe_inv msk tab' \<and> chunks_used tab' \<le> cnt' \<and> cnt' \<le> cnt - 1 \<and>
       (\<forall>k'. k' \<noteq> 0 \<longrightarrow> tab_owner tab' k' = (if \<exists>c < n. k' = k + 1 + of_nat c then None else tab_owner t1 k'))"
      using t1(3) Suc.prems(2-4) by (intro Suc.IH [OF t1(2) _ _ _ nz]) simp_all
    then obtain t2 c2 where t2: "unregister_loop t1 msk (k + 1) n (cnt - 1) = Some (t2, c2)"
      "chunk_probe_inv msk t2" "chunks_used t2 \<le> c2" "c2 \<le> cnt - 1"
      "\<And>k'. k' \<noteq> 0 \<Longrightarrow> tab_owner t2 k' = (if \<exists>c < n. k' = k + 1 + of_nat c then None else tab_owner t1 k')"
      by blast
    have "unregister_loop tab msk k (Suc n) cnt = Some (t2, c2)"
      using s(1) False t1(1) c t2(1) by simp
    moreover have "tab_owner t2 k' = (if \<exists>c < Suc n. k' = k + of_nat c then None else tab_owner tab k')"
      if "k' \<noteq> 0" for k'
      using t2(5) [OF that] own [OF that] unfolding range_Suc by metis
    ultimately show ?thesis using t2(2-4) le_trans [OF t2(4) diff_le_self] by blast
  qed
qed

lemma unregister_loop_count:
  assumes "chunk_probe_inv msk tab" "chunks_used tab \<le> cnt" "cnt < length tab" "cnt < 2 ^ 32"
    and "\<And>c. c < n \<Longrightarrow> k + of_nat c \<noteq> 0" "\<And>c. c < n \<Longrightarrow> tab_owner tab (k + of_nat c) \<noteq> None" "n < 2 ^ 63"
    and "unregister_loop tab msk k n cnt = Some (t, c')"
  shows "c' + n = cnt"
  using assms
proof (induction n arbitrary: tab k cnt)
  case (Suc n)
  have k: "k \<noteq> 0" "tab_owner tab k \<noteq> None" using Suc.prems(5) [of 0] Suc.prems(6) [of 0] by simp_all
  have nz: "k + 1 + of_nat c \<noteq> 0" "tab_owner tab (k + 1 + of_nat c) \<noteq> None" "k + 1 + of_nat c \<noteq> k" if "c < n" for c
  proof -
    show "k + 1 + of_nat c \<noteq> 0" "tab_owner tab (k + 1 + of_nat c) \<noteq> None"
      using Suc.prems(5) [of "Suc c"] Suc.prems(6) [of "Suc c"] that by (simp_all add: add.assoc)
    have "unat (of_nat (Suc c) :: u64) = Suc c" using that Suc.prems(7) by (intro unat_of_nat_u64) simp
    then have "of_nat (Suc c) \<noteq> (0 :: u64)" by (metis nat.distinct(1) unat_0)
    then show "k + 1 + of_nat c \<noteq> k" by (simp add: add.assoc)
  qed
  have room: "chunks_used tab < length tab" using Suc.prems(2,3) by simp
  obtain s where s: "probe_chunk tab msk k = Some s" "s \<le> msk"
    "key (tab ! s) = k \<or> key (tab ! s) = 0 \<and> k \<notin> key ` set tab"
    using probe_chunk_spec [OF Suc.prems(1) room k(1)] by metis
  have "key (tab ! s) \<noteq> 0"
    using s(3) k tab_find_None_iff [of key tab k] by (auto simp: tab_owner_def)
  then obtain t1 where t1: "chunk_tab_del tab msk s = Some t1" "chunk_probe_inv msk t1"
    "Suc (chunks_used t1) = chunks_used tab"
    "\<And>k'. k' \<noteq> 0 \<Longrightarrow> tab_find key t1 k' = (if k' = k then None else tab_find key tab k')"
    using chunk_tab_del_spec [OF Suc.prems(1) room s(2)] s(3) by metis
  have c: "(cnt + (2 ^ 32 - 1)) mod 2 ^ 32 = cnt - 1"
    using t1(3) Suc.prems(2,4) mod_add_self2 [of "cnt - 1" "2 ^ 32"] by (simp add: add.commute)
  have "tab_owner t1 (k + 1 + of_nat c) \<noteq> None" if "c < n" for c
    using t1(4) [OF nz(1) [OF that]] nz(2,3) [OF that] by (simp add: tab_owner_def)
  moreover have "unregister_loop t1 msk (k + 1) n (cnt - 1) = Some (t, c')"
    using Suc.prems(8) s(1) \<open>key (tab ! s) \<noteq> 0\<close> t1(1) c by simp
  moreover have "length t1 = length tab" using chunk.inv_size Suc.prems(1) t1(2) by metis
  ultimately have "c' + n = cnt - 1"
    using t1(2,3) Suc.prems(2-4,7) nz(1) by (intro Suc.IH [of t1 "cnt - 1" "k + 1"]) simp_all
  then show ?case using t1(3) Suc.prems(2) by simp
qed simp

end
