(* ===== verification/ChunkSet.thy ===== *)
theory ChunkSet
  imports ChunkTable
begin

text \<open>
  The contract of the request chunk set of \<open>src/qjs-arena.c\<close> and \<open>src/qjs-arena.h\<close>: the table of
  \<open>ChunkTable\<close> read as a map from addresses to the request arena that owns them. A look-up always
  returns, registering a chunk-aligned range sets the owner of exactly the addresses of the range,
  removing a range or an owner clears exactly those, and every operation keeps the invariant
  \<open>chunk_inv\<close>, whose load bound is what makes the probe loops end.
\<close>

section \<open>Growing and rebuilding the table\<close>

lemma grow_size_spec:
  assumes "a \<le> 31" "need2 \<le> 2 ^ 31" "31 - a \<le> fuel"
  shows "\<exists>b. grow_size fuel (2 ^ a) need2 = Some (2 ^ b) \<and> a \<le> b \<and> b \<le> 31 \<and> need2 \<le> 2 ^ b"
  using assms
proof (induction fuel arbitrary: a)
  case 0
  then have "a = 31" by simp
  then show ?case using 0 by (intro exI [of _ 31]) simp
next
  case (Suc fuel)
  show ?case
  proof (cases "2 ^ a < need2")
    case True
    have "a \<noteq> 31" using True Suc.prems(2) by auto
    then have a: "a < 31" using Suc.prems(1) by simp
    then have f: "31 - Suc a \<le> fuel" using Suc.prems(3) by linarith
    have "(2 :: nat) ^ Suc a < 2 ^ 32" using a by (intro power_strict_increasing) simp_all
    then have m: "2 ^ a * 2 mod 2 ^ 32 = (2 :: nat) ^ Suc a" by (simp only: power_Suc mult.commute mod_less)
    obtain b where "grow_size fuel (2 ^ Suc a) need2 = Some (2 ^ b)" "Suc a \<le> b" "b \<le> 31" "need2 \<le> 2 ^ b"
      using Suc.IH [of "Suc a"] a Suc.prems(2) f by (auto simp del: grow_size.simps)
    moreover have "grow_size (Suc fuel) (2 ^ a) need2 = grow_size fuel (2 ^ Suc a) need2"
      using True by (subst grow_size.simps) (simp only: m if_True nat.case)
    ultimately show ?thesis by (auto simp del: grow_size.simps)
  next
    case False
    then show ?thesis using Suc.prems by (intro exI [of _ a]) simp
  qed
qed

lemma empty_table_inv:
  "chunk_probe_inv (2 ^ b - 1) (replicate (2 ^ b) empty_chunk)"
  "chunks_used (replicate (2 ^ b) empty_chunk) = 0"
  "tab_find key (replicate (2 ^ b) empty_chunk) k = (if k = 0 then Some empty_chunk else None)"
proof -
  have "key (replicate (2 ^ b) empty_chunk ! p) = 0" if "p \<le> 2 ^ b - 1" for p
    using that nth_replicate [of p "2 ^ b" empty_chunk] by (simp add: Suc_le_eq [symmetric] le_diff_conv2)
  then show "chunk_probe_inv (2 ^ b - 1) (replicate (2 ^ b) empty_chunk)"
    by (auto simp: probe_inv_def tab_size_def)
  show "chunks_used (replicate (2 ^ b) empty_chunk) = 0" by (simp add: occupied_def)
  show "tab_find key (replicate (2 ^ b) empty_chunk) k = (if k = 0 then Some empty_chunk else None)"
    by (auto simp: tab_find_def find_None_iff find_Some_iff intro!: exI [of _ 0])
qed

lemma chunk_invD:
  assumes "chunk_inv cs" "js_arena_chunk_tab cs = Some tab"
  shows "chunk_probe_inv (js_arena_chunk_mask cs) tab" "length tab = js_arena_chunk_mask cs + 1"
    "63 \<le> js_arena_chunk_mask cs" "js_arena_chunk_mask cs < 2 ^ 31"
    "chunks_used tab \<le> js_arena_chunk_count cs" "2 * js_arena_chunk_count cs \<le> length tab"
    "chunks_used tab < length tab"
  using assms chunk.inv_size [of "js_arena_chunk_mask cs" tab] by (auto simp: chunk_inv_def)

lemma chunk_inv_exp:
  assumes "chunk_inv cs"
  shows "\<exists>a. 6 \<le> a \<and> a \<le> 31 \<and> (if js_arena_chunk_mask cs \<noteq> 0 then js_arena_chunk_mask cs + 1
           else JS_ARENA_CHUNK_TAB_INITIAL) = 2 ^ a"
proof (cases "js_arena_chunk_tab cs")
  case None
  then show ?thesis using assms by (intro exI [of _ 6]) (simp add: chunk_inv_def)
next
  case (Some tab)
  note c = chunk_invD [OF assms Some]
  obtain a where a: "js_arena_chunk_mask cs + 1 = 2 ^ a"
    using c(1) by (auto simp: probe_inv_def tab_size_def)
  have "(2 :: nat) ^ 6 \<le> 2 ^ a" using c(3) unfolding a [symmetric] by simp
  then have "6 \<le> a" by (rule power_le_imp_le_exp [rotated]) simp
  moreover have "(2 :: nat) ^ a \<le> 2 ^ 31" using c(4) unfolding a [symmetric] by simp
  then have "a \<le> 31" by (rule power_le_imp_le_exp [rotated]) simp
  moreover have "js_arena_chunk_mask cs \<noteq> 0" using c(3) by simp
  ultimately show ?thesis using a by (intro exI [of _ a]) simp
qed

lemma tab_keys_distinct:
  "chunk_probe_inv msk tab \<Longrightarrow> distinct (map key (filter (\<lambda>e. key e \<noteq> 0) tab))"
  using chunk.inv_size [of msk tab] chunk.inv_distinct [of msk tab]
  by (intro distinct_keys) (auto simp: less_Suc_eq_le)

lemma chunk_tab_rebuild_spec:
  assumes inv: "chunk_inv cs" and b: "6 \<le> b" "b \<le> 31"
    and room: "2 * js_arena_chunk_count cs \<le> 2 ^ b"
  obtains cs' tab' where "chunk_tab_rebuild True cs (2 ^ b) drp = Inr (cs', True)" "chunk_inv cs'"
    "js_arena_chunk_tab cs' = Some tab'" "js_arena_chunk_mask cs' + 1 = 2 ^ b"
    "js_arena_chunk_count cs' \<le> js_arena_chunk_count cs"
    "\<And>k. k \<noteq> 0 \<Longrightarrow> chunk_owner cs' k = (if chunk_owner cs k = drp then None else chunk_owner cs k)"
proof -
  define es where "es = (case js_arena_chunk_tab cs of
                   None \<Rightarrow> [] | Some tab \<Rightarrow> take (js_arena_chunk_mask cs + 1) tab)"
  let ?nt = "replicate (2 ^ b) empty_chunk"
  have es: "es = (case js_arena_chunk_tab cs of None \<Rightarrow> [] | Some tab \<Rightarrow> tab)"
    using chunk_invD(2) [OF inv] by (auto simp: es_def split: option.splits)
  have used: "length (filter (\<lambda>e. key e \<noteq> 0) es) \<le> js_arena_chunk_count cs"
    using chunk_invD(5) [OF inv] by (auto simp: es occupied_def split: option.splits)
  have dist: "distinct (map key (filter (\<lambda>e. key e \<noteq> 0) es))"
    using chunk_invD(1) [OF inv] tab_keys_distinct by (auto simp: es split: option.splits)
  have big: "(64 :: nat) \<le> 2 ^ b" "(2 :: nat) ^ b \<le> 2 ^ 31"
    using power_increasing [of 6 b "2 :: nat"] power_increasing [of b 31 "2 :: nat"] b by simp_all
  have fresh: "k \<notin> key ` set ?nt" if "k \<noteq> 0" for k using that by auto
  have "length (filter (\<lambda>e. key e \<noteq> 0) es) < 2 ^ b" using used room big by linarith
  then obtain nt kept where r: "rebuild_loop es ?nt (2 ^ b - 1) drp 0 = Some (nt, kept)"
    "chunk_probe_inv (2 ^ b - 1) nt" "length nt = 2 ^ b" "kept = chunks_used nt"
    "kept \<le> length (filter (\<lambda>e. key e \<noteq> 0) es)"
    "\<And>k. k \<noteq> 0 \<Longrightarrow> tab_owner nt k =
        (case tab_find key es k of Some e \<Rightarrow> if owner e = drp then None else owner e | None \<Rightarrow> tab_owner ?nt k)"
    using rebuild_loop_spec [OF empty_table_inv(1), of b es drp 0] dist fresh
    unfolding empty_table_inv(2) length_replicate by auto
  let ?cs = "\<lparr>js_arena_chunk_tab = Some nt, js_arena_chunk_mask = 2 ^ b - 1, js_arena_chunk_count = kept\<rparr>"
  have "chunk_inv ?cs"
    using r(2,3,4,5) used room big by (auto simp: chunk_inv_def)
  moreover have "chunk_owner ?cs k = (if chunk_owner cs k = drp then None else chunk_owner cs k)"
    if "k \<noteq> 0" for k
    using r(6) [OF that] that empty_table_inv(3) [of b k]
    by (auto simp: chunk_owner_def tab_owner_def es tab_find_def split: option.splits bind_splits)
  ultimately show thesis
    using that [of ?cs nt] r(1,5) used by (simp add: chunk_tab_rebuild_def es_def)
qed

section \<open>Addresses and chunk keys\<close>

lemma unat_drop_bit_12: "unat (drop_bit 12 (p :: u64)) = unat p div 4096"
  by (simp add: drop_bit_eq_div unat_div)

lemma chunk_number_less: "unat (p :: u64) div 4096 < 2 ^ 52"
  using unat_u64_less [of p] by (intro less_mult_imp_div_less) simp

lemma chunk_key_nonzero [simp]: "chunk_key p \<noteq> 0"
proof -
  have "unat (drop_bit 12 p) + unat (1 :: u64) < 2 ^ 64"
    using chunk_number_less [of p] by (simp add: unat_drop_bit_12)
  then have "unat (chunk_key p) = unat p div 4096 + 1"
    unfolding chunk_key_def by (simp add: unat_add_no_wrap unat_drop_bit_12)
  then show ?thesis by auto
qed

definition chunk_aligned :: "ptr \<Rightarrow> bool" where
  "chunk_aligned p \<longleftrightarrow> p AND (JS_ARENA_CHUNK_SIZE - 1) = 0"

lemma chunk_aligned_iff: "chunk_aligned p \<longleftrightarrow> unat p mod 4096 = 0"
proof -
  have "p AND (JS_ARENA_CHUNK_SIZE - 1) = take_bit 12 p"
    by (simp add: take_bit_eq_mask mask_eq_exp_minus_1)
  moreover have "take_bit 12 p = 0 \<longleftrightarrow> unat (take_bit 12 p) = 0" by (simp add: unat_eq_0)
  moreover have "unat (take_bit 12 p) = unat p mod 4096"
    by (subst unsigned_take_bit_eq) (simp add: take_bit_eq_mod)
  ultimately show ?thesis unfolding chunk_aligned_def by simp
qed

text \<open>The number of chunks of an aligned range, as the two registration loops count them.\<close>

definition chunks_of :: "ptr \<Rightarrow> ptr \<Rightarrow> nat" where
  "chunks_of lo hi = unat (drop_bit JS_ARENA_CHUNK_SHIFT hi - drop_bit JS_ARENA_CHUNK_SHIFT lo)"

lemma chunks_of_eq: "lo \<le> hi \<Longrightarrow> chunks_of lo hi = unat hi div 4096 - unat lo div 4096"
  unfolding chunks_of_def
  by (subst unat_sub_le) (simp_all add: u64_le_iff unat_drop_bit_12 div_le_mono)

lemma chunk_key_in_range:
  assumes al: "chunk_aligned lo" "chunk_aligned hi" and le: "lo \<le> hi"
  shows "(\<exists>c < chunks_of lo hi. chunk_key p = drop_bit JS_ARENA_CHUNK_SHIFT lo + 1 + of_nat c) \<longleftrightarrow> lo \<le> p \<and> p < hi"
    and "c < chunks_of lo hi \<Longrightarrow> drop_bit JS_ARENA_CHUNK_SHIFT lo + 1 + of_nat c \<noteq> 0"
proof -
  let ?L = "unat lo div 4096" and ?H = "unat hi div 4096" and ?P = "unat p div 4096"
  have lo: "unat lo = ?L * 4096" and hi: "unat hi = ?H * 4096"
    using al div_mult_mod_eq [of "unat lo" 4096] div_mult_mod_eq [of "unat hi" 4096]
    by (simp_all add: chunk_aligned_iff)
  note H = chunk_number_less [of hi]
  have sum: "unat (drop_bit 12 lo + of_nat c) = ?L + c" if "c < chunks_of lo hi" for c
  proof -
    have "?L + c < 2 ^ 52" using that H le by (simp add: chunks_of_eq)
    then show ?thesis
      by (simp add: unat_add_no_wrap unat_drop_bit_12 unat_of_nat_u64)
  qed
  have "(\<exists>c < chunks_of lo hi. chunk_key p = drop_bit 12 lo + 1 + of_nat c)
      \<longleftrightarrow> (\<exists>c < chunks_of lo hi. unat (drop_bit 12 p) = unat (drop_bit 12 lo + of_nat c))"
    by (simp add: chunk_key_def word_unat_eq_iff [symmetric] add.commute add.left_commute)
  also have "\<dots> \<longleftrightarrow> (\<exists>c < ?H - ?L. ?P = ?L + c)"
    using sum le by (auto simp: chunks_of_eq unat_drop_bit_12)
  also have "\<dots> \<longleftrightarrow> ?L \<le> ?P \<and> ?P < ?H"
    by (auto simp: diff_less_mono intro!: exI [of _ "?P - ?L"])
  also have "\<dots> \<longleftrightarrow> ?L * 4096 \<le> unat p \<and> unat p < ?H * 4096"
    by (simp add: less_eq_div_iff_mult_less_eq div_less_iff_less_mult)
  finally show "(\<exists>c < chunks_of lo hi. chunk_key p = drop_bit JS_ARENA_CHUNK_SHIFT lo + 1 + of_nat c)
      \<longleftrightarrow> lo \<le> p \<and> p < hi"
    unfolding u64_le_iff u64_less_iff lo [symmetric] hi [symmetric] .
  assume c: "c < chunks_of lo hi"
  have "unat (drop_bit 12 lo + of_nat c) + unat (1 :: u64) < 2 ^ 64"
    using sum [OF c] c H le by (simp add: chunks_of_eq)
  then have "unat (drop_bit 12 lo + of_nat c + 1) \<noteq> 0"
    using unat_add_no_wrap [of "drop_bit 12 lo + of_nat c" 1] by simp
  then have "drop_bit 12 lo + of_nat c + 1 \<noteq> 0" by (metis unat_0)
  moreover have "drop_bit 12 lo + of_nat c + 1 = drop_bit 12 lo + 1 + of_nat c" by (simp only: ac_simps)
  ultimately show "drop_bit JS_ARENA_CHUNK_SHIFT lo + 1 + of_nat c \<noteq> 0" by (simp only: not_False_eq_True)
qed

section \<open>Look-up, registration and removal\<close>

lemma chunk_lookup:
  assumes "chunk_inv cs"
  shows "js_arena_ptr_request_owner cs p = Inr (chunk_owner cs (chunk_key p))"
proof (cases "js_arena_chunk_tab cs")
  case None
  then show ?thesis by (simp add: js_arena_ptr_request_owner_def chunk_owner_def)
next
  case (Some tab)
  note c = chunk_invD [OF assms Some]
  obtain s where s: "probe_chunk tab (js_arena_chunk_mask cs) (chunk_key p) = Some s"
    "s \<le> js_arena_chunk_mask cs"
    "key (tab ! s) = chunk_key p \<or> key (tab ! s) = 0 \<and> chunk_key p \<notin> key ` set tab"
    using probe_chunk_spec [OF c(1,7) chunk_key_nonzero] by metis
  have "tab_find key tab (chunk_key p) = (if key (tab ! s) = 0 then None else Some (tab ! s))"
    using s(3) chunk.find_at [OF c(1) s(2)] tab_find_None_iff [of key tab "chunk_key p"] by auto
  then show ?thesis
    using s(1) Some by (simp add: js_arena_ptr_request_owner_def chunk_owner_def tab_owner_def)
qed

lemma register_rebuild:
  assumes inv: "chunk_inv cs" and need: "js_arena_chunk_count cs + n \<le> 2 ^ 30"
  obtains cs1 sz tab where
    "grow_size 32 (if js_arena_chunk_mask cs \<noteq> 0 then js_arena_chunk_mask cs + 1
       else JS_ARENA_CHUNK_TAB_INITIAL) ((js_arena_chunk_count cs + n) * 2) = Some sz"
    "(if sz \<noteq> js_arena_chunk_mask cs + 1 then chunk_tab_rebuild True cs sz None else Inr (cs, True))
       = Inr (cs1, True)"
    "chunk_inv cs1" "js_arena_chunk_tab cs1 = Some tab" "js_arena_chunk_count cs1 \<le> js_arena_chunk_count cs"
    "(js_arena_chunk_count cs + n) * 2 \<le> js_arena_chunk_mask cs1 + 1"
    "\<And>k. k \<noteq> 0 \<Longrightarrow> chunk_owner cs1 k = chunk_owner cs k"
proof -
  let ?sz = "if js_arena_chunk_mask cs \<noteq> 0 then js_arena_chunk_mask cs + 1 else JS_ARENA_CHUNK_TAB_INITIAL"
  obtain a where a: "6 \<le> a" "a \<le> 31" "?sz = 2 ^ a" using chunk_inv_exp [OF inv] by blast
  have "(js_arena_chunk_count cs + n) * 2 \<le> 2 ^ 31" using need by simp
  moreover have "31 - a \<le> 32" by linarith
  ultimately obtain b where b: "grow_size 32 (2 ^ a) ((js_arena_chunk_count cs + n) * 2) = Some (2 ^ b)"
    "a \<le> b" "b \<le> 31" "(js_arena_chunk_count cs + n) * 2 \<le> 2 ^ b"
    using grow_size_spec [OF a(2)] by blast
  show thesis
  proof (cases "2 ^ b = js_arena_chunk_mask cs + 1")
    case True
    have "(64 :: nat) \<le> 2 ^ b" using a(1) b(2) power_increasing [of 6 b "2 :: nat"] by simp
    then obtain tab where "js_arena_chunk_tab cs = Some tab"
      using inv True by (auto simp: chunk_inv_def split: option.splits)
    then show thesis
      using that [of "2 ^ b" cs tab] a(3) b True inv by (simp del: grow_size.simps)
  next
    case False
    obtain cs1 tab where c: "chunk_tab_rebuild True cs (2 ^ b) None = Inr (cs1, True)" "chunk_inv cs1"
      "js_arena_chunk_tab cs1 = Some tab" "js_arena_chunk_mask cs1 + 1 = 2 ^ b"
      "js_arena_chunk_count cs1 \<le> js_arena_chunk_count cs"
      "\<And>k. k \<noteq> 0 \<Longrightarrow> chunk_owner cs1 k = (if chunk_owner cs k = None then None else chunk_owner cs k)"
      using chunk_tab_rebuild_spec [OF inv _ b(3), of None] a(1) b(2,4) by auto
    have "chunk_owner cs1 k = chunk_owner cs k" if "k \<noteq> 0" for k using c(6) [OF that] by simp
    then show thesis
      using that [of "2 ^ b" cs1 tab] a(3) b(1,4) c(1-5) False by (simp del: grow_size.simps)
  qed
qed

lemma register_request_owner:
  assumes inv: "chunk_inv cs" and al: "chunk_aligned lo" "chunk_aligned hi" and le: "lo \<le> hi"
    and need: "js_arena_chunk_count cs + chunks_of lo hi \<le> 2 ^ 30"
  obtains cs' where "js_arena_register_request True cs lo hi own = Inr (cs', True)" "chunk_inv cs'"
    "js_arena_chunk_count cs' \<le> js_arena_chunk_count cs + chunks_of lo hi"
    "\<And>p. chunk_owner cs' (chunk_key p) = (if lo \<le> p \<and> p < hi then own else chunk_owner cs (chunk_key p))"
proof -
  let ?n = "chunks_of lo hi" and ?k = "drop_bit JS_ARENA_CHUNK_SHIFT lo + 1"
  obtain cs1 sz tab where r: "grow_size 32 (if js_arena_chunk_mask cs \<noteq> 0 then js_arena_chunk_mask cs + 1
       else JS_ARENA_CHUNK_TAB_INITIAL) ((js_arena_chunk_count cs + ?n) * 2) = Some sz"
    "(if sz \<noteq> js_arena_chunk_mask cs + 1 then chunk_tab_rebuild True cs sz None else Inr (cs, True))
       = Inr (cs1, True)"
    "chunk_inv cs1" "js_arena_chunk_tab cs1 = Some tab" "js_arena_chunk_count cs1 \<le> js_arena_chunk_count cs"
    "(js_arena_chunk_count cs + ?n) * 2 \<le> js_arena_chunk_mask cs1 + 1"
    "\<And>k. k \<noteq> 0 \<Longrightarrow> chunk_owner cs1 k = chunk_owner cs k"
    by (rule register_rebuild [OF inv need]) blast
  note c = chunk_invD [OF r(3,4)]
  have room: "chunks_used tab + ?n < length tab" using c(2,3,5) r(5,6) by simp
  obtain tab' where t: "put_range tab (js_arena_chunk_mask cs1) ?k ?n own = Some tab'"
    "chunk_probe_inv (js_arena_chunk_mask cs1) tab'" "chunks_used tab' \<le> chunks_used tab + ?n"
    "length tab' = length tab"
    "\<And>k. k \<noteq> 0 \<Longrightarrow> tab_owner tab' k = (if \<exists>c < ?n. k = ?k + of_nat c then own else tab_owner tab k)"
    using put_range_spec [OF c(1) room, of ?k own] chunk_key_in_range(2) [OF al le] by blast
  have "?n < 2 ^ 32" "js_arena_chunk_count cs1 + ?n < 2 ^ 32" using need r(5) by simp_all
  then have cnt: "(js_arena_chunk_count cs1 + ?n mod 2 ^ 32) mod 2 ^ 32 = js_arena_chunk_count cs1 + ?n"
    by (simp only: mod_less)
  let ?cs = "cs1\<lparr>js_arena_chunk_tab := Some tab', js_arena_chunk_count := js_arena_chunk_count cs1 + ?n\<rparr>"
  have "js_arena_register_request True cs lo hi own = Inr (?cs, True)"
    using al r(1,2,4) t(1) cnt
    unfolding js_arena_register_request_def chunk_aligned_def Let_def chunks_of_def [symmetric]
    by (simp only: simp_thms if_False returns_simps res_bind_simps option.sel prod.case if_True)
  moreover have "chunk_inv ?cs"
    using r(5,6) c t(2-4) by (simp add: chunk_inv_def)
  moreover have "chunk_owner ?cs (chunk_key p) = (if lo \<le> p \<and> p < hi then own else chunk_owner cs (chunk_key p))"
    for p
    using t(5) [OF chunk_key_nonzero] r(4) r(7) [OF chunk_key_nonzero] chunk_key_in_range(1) [OF al le, of p]
    by (simp add: chunk_owner_def)
  ultimately show thesis using that [of ?cs] r(5) by simp
qed

lemma unregister_range_owner:
  assumes inv: "chunk_inv cs" and al: "chunk_aligned lo" "chunk_aligned hi" and le: "lo \<le> hi"
  obtains cs' where "js_arena_unregister_request_range cs lo hi = Inr cs'" "chunk_inv cs'"
    "js_arena_chunk_count cs' \<le> js_arena_chunk_count cs"
    "\<And>p. chunk_owner cs' (chunk_key p) = (if lo \<le> p \<and> p < hi then None else chunk_owner cs (chunk_key p))"
proof (cases "js_arena_chunk_tab cs")
  case None
  then show thesis
    using that [of cs] inv by (simp add: js_arena_unregister_request_range_def chunk_owner_def)
next
  case (Some tab)
  note c = chunk_invD [OF inv Some]
  let ?n = "chunks_of lo hi" and ?k = "drop_bit JS_ARENA_CHUNK_SHIFT lo + 1"
    and ?m = "js_arena_chunk_mask cs"
  have b: "js_arena_chunk_count cs < length tab" "js_arena_chunk_count cs < 2 ^ 32"
    using c(2,3,4,6) by simp_all
  obtain tab' cnt' where t: "unregister_loop tab ?m ?k ?n (js_arena_chunk_count cs) = Some (tab', cnt')"
    "chunk_probe_inv ?m tab'" "chunks_used tab' \<le> cnt'" "cnt' \<le> js_arena_chunk_count cs"
    "\<And>k. k \<noteq> 0 \<Longrightarrow> tab_owner tab' k = (if \<exists>c < ?n. k = ?k + of_nat c then None else tab_owner tab k)"
    using unregister_loop_spec [OF c(1,5) b, of ?n ?k] chunk_key_in_range(2) [OF al le] by blast
  have own: "tab_owner tab' (chunk_key p) = (if lo \<le> p \<and> p < hi then None else chunk_owner cs (chunk_key p))" for p
    using t(5) [OF chunk_key_nonzero] Some chunk_key_in_range(1) [OF al le, of p] by (simp add: chunk_owner_def)
  have run: "js_arena_unregister_request_range cs lo hi =
      Inr (if cnt' = 0 then cs\<lparr>js_arena_chunk_tab := None, js_arena_chunk_mask := 0, js_arena_chunk_count := 0\<rparr>
           else cs\<lparr>js_arena_chunk_tab := Some tab', js_arena_chunk_count := cnt'\<rparr>)"
    using Some t(1) unfolding js_arena_unregister_request_range_def Let_def chunks_of_def [symmetric] by simp
  show thesis
  proof (cases "cnt' = 0")
    case True
    then have "e \<notin> set tab'" if "key e \<noteq> 0" for e
      using t(3) that by (auto simp: occupied_def filter_empty_conv)
    then have "tab_find key tab' (chunk_key p) = None" for p
      unfolding tab_find_None_iff using chunk_key_nonzero [of p] by (metis imageE)
    then have "tab_owner tab' (chunk_key p) = None" for p by (simp add: tab_owner_def)
    then show thesis
      using that run True own by (simp add: chunk_inv_def chunk_owner_def)
  next
    case False
    have "chunk_inv (cs\<lparr>js_arena_chunk_tab := Some tab', js_arena_chunk_count := cnt'\<rparr>)"
      using c t(2-4) by (simp add: chunk_inv_def)
    then show thesis
      using that run False own t(4) by (simp add: chunk_owner_def)
  qed
qed

lemma chunk_key_step:
  assumes "chunk_aligned lo" "chunk_aligned hi" "lo \<le> hi" "c < chunks_of lo hi"
  shows "chunk_key (lo + of_nat (c * 4096)) = drop_bit JS_ARENA_CHUNK_SHIFT lo + 1 + of_nat c"
    "lo \<le> lo + of_nat (c * 4096)" "lo + of_nat (c * 4096) < hi"
proof -
  define L H where "L = unat lo div 4096" and "H = unat hi div 4096"
  have l: "unat lo = L * 4096" and h: "unat hi = H * 4096"
    using assms(1,2) div_mult_mod_eq [of "unat lo" 4096] div_mult_mod_eq [of "unat hi" 4096]
    by (simp_all add: chunk_aligned_iff L_def H_def)
  have c: "c < H - L" using assms(4) chunks_of_eq [OF assms(3)] by (simp add: L_def H_def)
  have b: "unat lo + c * 4096 < unat hi" using c l h by simp
  then have w: "unat lo + c * 4096 < 18446744073709551616" using unat_u64_less [of hi] by linarith
  then have cu: "unat (of_nat c :: u64) = c" by (intro unat_of_nat_u64) simp
  from w have u: "unat (lo + of_nat (c * 4096)) = unat lo + c * 4096"
    by (subst unat_add_no_wrap) (simp_all add: unat_of_nat_u64 del: of_nat_mult)
  show "lo \<le> lo + of_nat (c * 4096)" "lo + of_nat (c * 4096) < hi"
    unfolding u64_le_iff u64_less_iff u using b by simp_all
  have "drop_bit 12 (lo + of_nat (c * 4096)) = drop_bit 12 lo + of_nat c"
  proof (rule word_unat_eq_iff [THEN iffD2])
    have "unat (drop_bit 12 lo) + unat (of_nat c :: u64) < 2 ^ 64"
      using w l by (simp add: unat_drop_bit_12 cu)
    then show "unat (drop_bit 12 (lo + of_nat (c * 4096))) = unat (drop_bit 12 lo + of_nat c)"
      using w l by (subst unat_add_no_wrap) (simp_all add: unat_drop_bit_12 u cu del: of_nat_mult)
  qed
  then show "chunk_key (lo + of_nat (c * 4096)) = drop_bit JS_ARENA_CHUNK_SHIFT lo + 1 + of_nat c"
    by (simp add: chunk_key_def algebra_simps)
qed

lemma unregister_range_count:
  assumes inv: "chunk_inv cs" and al: "chunk_aligned lo" "chunk_aligned hi" and le: "lo \<le> hi"
    and own: "\<And>p. lo \<le> p \<Longrightarrow> p < hi \<Longrightarrow> chunk_owner cs (chunk_key p) \<noteq> None"
    and run: "js_arena_unregister_request_range cs lo hi = Inr cs'"
  shows "js_arena_chunk_count cs' + chunks_of lo hi = js_arena_chunk_count cs"
proof (cases "js_arena_chunk_tab cs")
  case None
  have "chunks_of lo hi = 0"
  proof (rule ccontr)
    assume "chunks_of lo hi \<noteq> 0"
    then show False using own [of lo] chunk_key_step(2,3) [OF al le, of 0] None by (simp add: chunk_owner_def)
  qed
  then show ?thesis using run None by (simp add: js_arena_unregister_request_range_def)
next
  case (Some tab)
  note c = chunk_invD [OF inv Some]
  let ?n = "chunks_of lo hi" and ?k = "drop_bit JS_ARENA_CHUNK_SHIFT lo + 1" and ?m = "js_arena_chunk_mask cs"
  have b: "js_arena_chunk_count cs < length tab" "js_arena_chunk_count cs < 2 ^ 32" using c(2,3,4,6) by simp_all
  obtain t cnt where t: "unregister_loop tab ?m ?k ?n (js_arena_chunk_count cs) = Some (t, cnt)"
    using unregister_loop_spec [OF c(1,5) b, of ?n ?k] chunk_key_in_range(2) [OF al le] by blast
  have "?n < 2 ^ 63" using chunk_number_less [of hi] chunks_of_eq [OF le] by simp
  moreover have "tab_owner tab (?k + of_nat i) \<noteq> None" if "i < ?n" for i
    using own [OF chunk_key_step(2,3) [OF al le that]] chunk_key_step(1) [OF al le that] Some by (simp add: chunk_owner_def)
  ultimately have "cnt + ?n = js_arena_chunk_count cs"
    using unregister_loop_count [OF c(1,5) b _ _ _ t] chunk_key_in_range(2) [OF al le] by blast
  then show ?thesis using run Some t
    unfolding js_arena_unregister_request_range_def Let_def chunks_of_def [symmetric] by (auto split: if_splits)
qed

text \<open>With a failing allocation a registration either needs no room or leaves the table alone.\<close>

lemma register_request_any:
  assumes inv: "chunk_inv cs" and al: "chunk_aligned lo" "chunk_aligned hi" and le: "lo \<le> hi"
    and need: "js_arena_chunk_count cs + chunks_of lo hi \<le> 2 ^ 30"
  obtains cs' r where "js_arena_register_request calloc_ok cs lo hi own = Inr (cs', r)" "chunk_inv cs'"
    "calloc_ok \<Longrightarrow> r" "js_arena_chunk_count cs' \<le> js_arena_chunk_count cs + (if r then chunks_of lo hi else 0)"
    "\<And>p. chunk_owner cs' (chunk_key p) = (if r \<and> lo \<le> p \<and> p < hi then own else chunk_owner cs (chunk_key p))"
proof -
  obtain cs1 where good: "js_arena_register_request True cs lo hi own = Inr (cs1, True)" "chunk_inv cs1"
    "js_arena_chunk_count cs1 \<le> js_arena_chunk_count cs + chunks_of lo hi"
    "\<And>p. chunk_owner cs1 (chunk_key p) = (if lo \<le> p \<and> p < hi then own else chunk_owner cs (chunk_key p))"
    using register_request_owner [OF assms, of own] by blast
  obtain sz where sz: "grow_size 32 (if js_arena_chunk_mask cs \<noteq> 0 then js_arena_chunk_mask cs + 1
       else JS_ARENA_CHUNK_TAB_INITIAL) ((js_arena_chunk_count cs + chunks_of lo hi) * 2) = Some sz"
    by (rule register_rebuild [OF inv need])
  note run = js_arena_register_request_def [of _ cs lo hi own, unfolded Let_def, folded chunks_of_def,
      unfolded sz returns_simps res_bind_simps]
  have "js_arena_register_request False cs lo hi own =
      (if sz = js_arena_chunk_mask cs + 1 then js_arena_register_request True cs lo hi own else Inr (cs, False))"
    unfolding run using al by (simp add: chunk_aligned_def chunk_tab_rebuild_def)
  then consider "js_arena_register_request calloc_ok cs lo hi own = Inr (cs1, True)"
    | "js_arena_register_request calloc_ok cs lo hi own = Inr (cs, False)" "\<not> calloc_ok"
    using good(1) by (cases calloc_ok) (auto split: if_splits)
  then show thesis
  proof cases
    case 1
    then show thesis using that [OF 1 good(2)] good(3,4) by simp
  next
    case 2
    then show thesis using that [OF 2(1) inv] by simp
  qed
qed

lemma probe_inv_same_keys:
  assumes inv: "probe_inv keyof nul home msk tab" and len: "length tab' = length tab"
    and keys: "\<And>p. p \<le> msk \<Longrightarrow> keyof (tab' ! p) = keyof (tab ! p)"
  shows "probe_inv keyof nul home msk tab'"
proof -
  have "tab_size msk tab'" using inv len unfolding probe_inv_def tab_size_def by metis
  moreover have "p = q" if "p \<le> msk" "q \<le> msk" "keyof (tab' ! p) = keyof (tab' ! q)" "keyof (tab' ! p) \<noteq> nul" for p q
    using inv that unfolding probe_inv_def keys [OF that(1)] keys [OF that(2)] by blast
  moreover have "reachable_slot keyof nul home msk tab' p" if "p \<le> msk" "keyof (tab' ! p) \<noteq> nul" for p
    using inv that keys unfolding probe_inv_def reachable_slot_def keys [OF that(1)] by simp
  ultimately show ?thesis unfolding probe_inv_def by blast
qed

lemma blank_owner_spec:
  fixes own :: nat
  assumes "chunk_probe_inv msk tab"
  defines "t \<equiv> map (\<lambda>e. if owner e = Some own then e\<lparr>owner := None\<rparr> else e) tab"
  shows "chunk_probe_inv msk t" "chunks_used t = chunks_used tab"
    "tab_owner t k = (if tab_owner tab k = Some own then None else tab_owner tab k)"
proof -
  have len: "length tab = msk + 1" by (rule chunk.inv_size [OF assms(1)])
  have nth: "key (t ! p) = key (tab ! p)" if "p \<le> msk" for p
    using that len by (simp add: t_def less_Suc_eq_le)
  show "chunk_probe_inv msk t"
    by (rule probe_inv_same_keys [OF assms(1) _ nth]) (simp_all add: t_def)
  show "chunks_used t = chunks_used tab"
    unfolding t_def occupied_def by (induction tab) auto
  show "tab_owner t k = (if tab_owner tab k = Some own then None else tab_owner tab k)"
    unfolding t_def tab_owner_def tab_find_def by (induction tab) auto
qed

lemma no_live_owner:
  assumes "length (filter (\<lambda>e. key e \<noteq> 0 \<and> owner e \<noteq> None \<and> owner e \<noteq> Some own) tab) = 0" "k \<noteq> 0"
  shows "tab_owner tab k = None \<or> tab_owner tab k = Some own"
proof (cases "tab_find key tab k")
  case None
  then show ?thesis by (simp add: tab_owner_def)
next
  case (Some e)
  then have "e \<in> set tab" "key e = k" by (auto simp: tab_find_def find_Some_iff)
  then show ?thesis using assms Some by (auto simp: tab_owner_def filter_empty_conv)
qed

lemma unregister_owner:
  assumes inv: "chunk_inv cs"
  obtains cs' where "js_arena_unregister_request ok cs own = Inr cs'" "chunk_inv cs'"
    "js_arena_chunk_count cs' \<le> js_arena_chunk_count cs"
    "\<And>k. k \<noteq> 0 \<Longrightarrow> chunk_owner cs' k = (if chunk_owner cs k = Some own then None else chunk_owner cs k)"
proof (cases "js_arena_chunk_tab cs")
  case None
  then show thesis
    using that [of cs] inv by (simp add: js_arena_unregister_request_def chunk_owner_def)
next
  case (Some tab)
  note c = chunk_invD [OF inv Some]
  let ?live = "length (filter (\<lambda>e. key e \<noteq> 0 \<and> owner e \<noteq> None \<and> owner e \<noteq> Some own) tab)"
  have tk: "take (js_arena_chunk_mask cs + 1) tab = tab" using c(2) by simp
  show thesis
  proof (cases "?live = 0")
    case True
    then have "js_arena_unregister_request ok cs own = Inr no_chunks"
      unfolding js_arena_unregister_request_def Some option.case Let_def tk by (rule if_P)
    moreover have "chunk_owner no_chunks k = (if chunk_owner cs k = Some own then None else chunk_owner cs k)"
      if "k \<noteq> 0" for k
      using no_live_owner [OF True that] Some by (auto simp: no_chunks_def chunk_owner_def)
    ultimately show thesis
      using that by (simp add: no_chunks_def chunk_inv_def)
  next
    case live: False
    note run = js_arena_unregister_request_def [of ok cs own, unfolded Some option.case Let_def tk if_not_P [OF live]]
    show thesis
    proof (cases ok)
      case True
      obtain a where a: "6 \<le> a" "a \<le> 31" "js_arena_chunk_mask cs + 1 = 2 ^ a"
        using chunk_inv_exp [OF inv] c(3) by auto
      then obtain cs' tab' where r: "chunk_tab_rebuild True cs (2 ^ a) (Some own) = Inr (cs', True)" "chunk_inv cs'"
        "js_arena_chunk_count cs' \<le> js_arena_chunk_count cs"
        "\<And>k. k \<noteq> 0 \<Longrightarrow> chunk_owner cs' k = (if chunk_owner cs k = Some own then None else chunk_owner cs k)"
        using chunk_tab_rebuild_spec [OF inv a(1,2), of "Some own"] c(2,6) by metis
      have "js_arena_unregister_request ok cs own = Inr cs'"
        unfolding run a(3) using True r(1) by simp
      then show thesis using that r(2-4) by blast
    next
      case False
      note b = blank_owner_spec [OF c(1), of own]
      have "chunk_tab_rebuild ok cs (js_arena_chunk_mask cs + 1) (Some own) = Inr (cs, False)"
        using False by (simp add: chunk_tab_rebuild_def)
      then show thesis
        using that [OF run [unfolded \<open>chunk_tab_rebuild ok cs _ _ = _\<close> res_bind_simps prod.case if_False]]
          b c Some by (simp add: chunk_inv_def chunk_owner_def)
    qed
  qed
qed

section \<open>The contract: a map from addresses to owners\<close>

datatype chunk_op =
  Register ptr ptr nat
| UnregisterRange ptr ptr
| Unregister bool nat

fun chunk_step :: "chunk_op \<Rightarrow> chunk_set \<Rightarrow> chunk_set res" where
  "chunk_step (Register lo hi own) cs = map_sum id fst (js_arena_register_request True cs lo hi (Some own))"
| "chunk_step (UnregisterRange lo hi) cs = js_arena_unregister_request_range cs lo hi"
| "chunk_step (Unregister calloc_ok own) cs = js_arena_unregister_request calloc_ok cs own"

fun chunk_steps :: "chunk_op list \<Rightarrow> chunk_set \<Rightarrow> chunk_set res" where
  "chunk_steps [] cs = Inr cs"
| "chunk_steps (x # xs) cs = res_bind (chunk_step x cs) (chunk_steps xs)"

text \<open>The specification: the same operations on a plain function from addresses to owners.\<close>

fun owner_step :: "chunk_op \<Rightarrow> (ptr \<Rightarrow> nat option) \<Rightarrow> ptr \<Rightarrow> nat option" where
  "owner_step (Register lo hi own) f p = (if lo \<le> p \<and> p < hi then Some own else f p)"
| "owner_step (UnregisterRange lo hi) f p = (if lo \<le> p \<and> p < hi then None else f p)"
| "owner_step (Unregister _ own) f p = (if f p = Some own then None else f p)"

fun op_ok :: "chunk_op \<Rightarrow> bool" where
  "op_ok (Register lo hi own) = (chunk_aligned lo \<and> chunk_aligned hi \<and> lo \<le> hi)"
| "op_ok (UnregisterRange lo hi) = (chunk_aligned lo \<and> chunk_aligned hi \<and> lo \<le> hi)"
| "op_ok (Unregister _ own) = True"

fun op_chunks :: "chunk_op \<Rightarrow> nat" where
  "op_chunks (Register lo hi own) = chunks_of lo hi"
| "op_chunks _ = 0"

locale owner_map =
  fixes inv :: "'s \<Rightarrow> bool"
    and weight :: "'s \<Rightarrow> nat"
    and look :: "'s \<Rightarrow> ptr \<Rightarrow> nat option"
    and step :: "chunk_op \<Rightarrow> 's \<Rightarrow> 's res"
    and cap :: nat
  assumes step_ok: "inv s \<Longrightarrow> op_ok x \<Longrightarrow> weight s + op_chunks x \<le> cap \<Longrightarrow>
      \<exists>s'. step x s = Inr s' \<and> inv s' \<and> weight s' \<le> weight s + op_chunks x \<and>
           look s' = owner_step x (look s)"
begin

lemma steps_ok:
  assumes "inv s" "list_all op_ok xs" "weight s + sum_list (map op_chunks xs) \<le> cap"
  shows "\<exists>s'. foldr (\<lambda>x k s. res_bind (step x s) k) xs Inr s = Inr s' \<and> inv s' \<and> look s' = fold owner_step xs (look s)"
  using assms
proof (induction xs arbitrary: s)
  case Nil
  then show ?case by simp
next
  case (Cons x xs)
  obtain s1 where s1: "step x s = Inr s1" "inv s1" "weight s1 \<le> weight s + op_chunks x"
    "look s1 = owner_step x (look s)"
    using step_ok [OF Cons.prems(1), of x] Cons.prems(2,3) by auto
  then show ?case
    using Cons.IH [OF s1(2)] Cons.prems(2,3) by auto
qed

end

interpretation chunk_map: owner_map chunk_inv js_arena_chunk_count
  "\<lambda>cs p. chunk_owner cs (chunk_key p)" chunk_step "2 ^ 30"
proof
  fix cs x
  assume inv: "chunk_inv cs" and ok: "op_ok x" and cap: "js_arena_chunk_count cs + op_chunks x \<le> 2 ^ 30"
  show "\<exists>cs'. chunk_step x cs = Inr cs' \<and> chunk_inv cs' \<and>
      js_arena_chunk_count cs' \<le> js_arena_chunk_count cs + op_chunks x \<and>
      (\<lambda>p. chunk_owner cs' (chunk_key p)) = owner_step x (\<lambda>p. chunk_owner cs (chunk_key p))"
  proof (cases x)
    case (Register lo hi own)
    obtain cs' where "js_arena_register_request True cs lo hi (Some own) = Inr (cs', True)" "chunk_inv cs'"
      "js_arena_chunk_count cs' \<le> js_arena_chunk_count cs + chunks_of lo hi"
      "\<And>p. chunk_owner cs' (chunk_key p) = (if lo \<le> p \<and> p < hi then Some own else chunk_owner cs (chunk_key p))"
      using register_request_owner [OF inv, of lo hi "Some own"] ok cap Register by auto
    then show ?thesis using Register by auto
  next
    case (UnregisterRange lo hi)
    obtain cs' where "js_arena_unregister_request_range cs lo hi = Inr cs'" "chunk_inv cs'"
      "js_arena_chunk_count cs' \<le> js_arena_chunk_count cs"
      "\<And>p. chunk_owner cs' (chunk_key p) = (if lo \<le> p \<and> p < hi then None else chunk_owner cs (chunk_key p))"
      using unregister_range_owner [OF inv, of lo hi] ok UnregisterRange by auto
    then show ?thesis using UnregisterRange by auto
  next
    case (Unregister b own)
    obtain cs' where "js_arena_unregister_request b cs own = Inr cs'" "chunk_inv cs'"
      "js_arena_chunk_count cs' \<le> js_arena_chunk_count cs"
      "\<And>k. k \<noteq> 0 \<Longrightarrow> chunk_owner cs' k = (if chunk_owner cs k = Some own then None else chunk_owner cs k)"
      using unregister_owner [OF inv, of b own] by blast
    then show ?thesis using Unregister by auto
  qed
qed

lemma chunk_steps_foldr: "chunk_steps xs = foldr (\<lambda>x k s. res_bind (chunk_step x s) k) xs Inr"
  by (induction xs) auto

lemma no_chunks_inv: "chunk_inv no_chunks" "js_arena_chunk_count no_chunks = 0" "chunk_owner no_chunks k = None"
  by (simp_all add: no_chunks_def chunk_inv_def chunk_owner_def)

text \<open>
  C1. The chunk set refines a map from addresses to owners: after any sequence of registrations of
  chunk-aligned ranges, removals of ranges and removals of owners (the last also when their
  rebuild cannot allocate) that starts from the empty set and registers at most 2^30 chunks, every
  operation has returned, and looking up any address returns the owner the same sequence gives on
  plain functions.
\<close>

theorem chunk_set_refines_owner_map:
  assumes "list_all op_ok ops" "sum_list (map op_chunks ops) \<le> 2 ^ 30"
  shows "\<exists>cs. chunk_steps ops no_chunks = Inr cs \<and>
     (\<forall>p. js_arena_ptr_request_owner cs p = Inr (fold owner_step ops (\<lambda>_. None) p))"
proof -
  obtain cs where cs: "chunk_steps ops no_chunks = Inr cs" "chunk_inv cs"
    "(\<lambda>p. chunk_owner cs (chunk_key p)) = fold owner_step ops (\<lambda>p. chunk_owner no_chunks (chunk_key p))"
    using chunk_map.steps_ok [of no_chunks ops] assms unfolding chunk_steps_foldr by (auto simp: no_chunks_inv)
  have "js_arena_ptr_request_owner cs p = Inr (fold owner_step ops (\<lambda>_. None) p)" for p
    using fun_cong [OF cs(3), of p] by (simp add: chunk_lookup [OF cs(2)] no_chunks_inv)
  with cs(1) show ?thesis by blast
qed

theorem chunk_set_refines_owner_map_witness:
  "\<exists>cs. chunk_steps [Register 0x10000 0x14000 1, Register 0x20000 0x21000 2, UnregisterRange 0x11000 0x12000,
                     Unregister False 2] no_chunks = Inr cs \<and>
     js_arena_ptr_request_owner cs 0x10008 = Inr (Some 1) \<and> js_arena_ptr_request_owner cs 0x11FFF = Inr None \<and>
     js_arena_ptr_request_owner cs 0x12000 = Inr (Some 1) \<and> js_arena_ptr_request_owner cs 0x20010 = Inr None"
proof -
  let ?ops = "[Register 0x10000 0x14000 1, Register 0x20000 0x21000 2, UnregisterRange 0x11000 0x12000,
               Unregister False 2]"
  have "list_all op_ok ?ops" "sum_list (map op_chunks ?ops) \<le> 2 ^ 30"
    by (simp_all add: chunk_aligned_def chunks_of_def)
  then obtain cs where cs: "chunk_steps ?ops no_chunks = Inr cs"
    "\<And>p. js_arena_ptr_request_owner cs p = Inr (fold owner_step ?ops (\<lambda>_. None) p)"
    using chunk_set_refines_owner_map by blast
  show ?thesis by (intro exI [of _ cs] conjI cs(1)) (simp_all add: cs(2))
qed



end
