(* ===== verification/BumpArena.thy ===== *)
theory BumpArena
  imports Prelude
begin

text \<open>
  The base arena: the bump allocator of \<open>src/qjs-arena.c\<close> (\<open>arena_cursor\<close> to \<open>arena_contains\<close>) over
  one contiguous buffer. The cursor lives in the first eight bytes of the buffer, every allocation
  carries a 16-byte header with its size. The contract is a walk over the headers: it yields the list
  of allocations, an allocation appends one block to that list, a reallocation in place changes the
  last one, and everything else in memory outside the written header and the cursor is kept.
\<close>

section \<open>State\<close>

abbreviation ARENA_ALIGN :: size_t where "ARENA_ALIGN \<equiv> 16"
abbreviation ARENA_HEADER_SIZE :: size_t where "ARENA_HEADER_SIZE \<equiv> 16"
abbreviation ARENA_PREFIX_LEN :: size_t where "ARENA_PREFIX_LEN \<equiv> 16"
abbreviation ARENA_DEFAULT_SIZE :: size_t where "ARENA_DEFAULT_SIZE \<equiv> 0x1000000"

record JSArena =
  buf :: ptr
  capacity :: size_t
  arena_floor :: size_t
  last_alloc_ptr :: ptr
  last_alloc_aligned :: size_t

section \<open>Operations\<close>

definition arena_cursor :: "mem \<Rightarrow> JSArena \<Rightarrow> size_t" where
  "arena_cursor m a = load64 m (buf a)"

definition arena_set_cursor :: "mem \<Rightarrow> JSArena \<Rightarrow> size_t \<Rightarrow> mem" where
  "arena_set_cursor m a v = store64 m (buf a) v"

definition align_up :: "size_t \<Rightarrow> size_t" where
  "align_up sz = (sz + ARENA_ALIGN - 1) AND NOT (ARENA_ALIGN - 1)"

definition arena_alloc :: "mem \<Rightarrow> JSArena \<Rightarrow> size_t \<Rightarrow> mem \<times> JSArena \<times> ptr" where
  "arena_alloc m a sz =
     (if sz = 0 then (m, a, 0)
      else
        let aligned = align_up sz;
            total = ARENA_HEADER_SIZE + aligned;
            cursor = arena_cursor m a
        in if cursor + total > capacity a then (m, a, 0)
           else
             let header = buf a + cursor;
                 m1 = store64 m header sz;
                 user_ptr = header + ARENA_HEADER_SIZE
             in (arena_set_cursor m1 a (cursor + total),
                 a\<lparr>last_alloc_ptr := user_ptr, last_alloc_aligned := aligned\<rparr>, user_ptr))"

definition arena_user_size :: "mem \<Rightarrow> ptr \<Rightarrow> u64" where
  "arena_user_size m p = load64 m (p - 16)"

definition arena_set_user_size :: "mem \<Rightarrow> ptr \<Rightarrow> size_t \<Rightarrow> mem" where
  "arena_set_user_size m p sz = store64 m (p - 16) sz"

definition arena_realloc :: "mem \<Rightarrow> JSArena \<Rightarrow> ptr \<Rightarrow> size_t \<Rightarrow> mem \<times> JSArena \<times> ptr" where
  "arena_realloc m a p sz =
     (if p = 0 then arena_alloc m a sz
      else if sz = 0 then (m, a, 0)
      else
        let aligned = align_up sz;
            old_size = arena_user_size m p;
            old_aligned = last_alloc_aligned a;
            cursor = arena_cursor m a;
            copy =
              (case arena_alloc m a sz of (m1, a1, np) \<Rightarrow>
                 if np = 0 then (m1, a1, 0)
                 else (memcpy m1 np p (unat (if sz < old_size then sz else old_size)), a1, np))
        in if p = last_alloc_ptr a then
             (if aligned \<le> old_aligned
              then (arena_set_user_size (arena_set_cursor m a (cursor - (old_aligned - aligned))) p sz,
                    a\<lparr>last_alloc_aligned := aligned\<rparr>, p)
              else if cursor + (aligned - old_aligned) \<le> capacity a
              then (arena_set_user_size (arena_set_cursor m a (cursor + (aligned - old_aligned))) p sz,
                    a\<lparr>last_alloc_aligned := aligned\<rparr>, p)
              else copy)
           else copy)"

definition arena_contains :: "JSArena \<Rightarrow> ptr \<Rightarrow> bool" where
  "arena_contains a p \<longleftrightarrow> buf a \<noteq> 0 \<and> p \<ge> buf a \<and> p < buf a + capacity a"

text \<open>The assignments of \<open>arena_init\<close> after the buffer has been mapped.\<close>

definition arena_setup :: "mem \<Rightarrow> ptr \<Rightarrow> size_t \<Rightarrow> mem \<times> JSArena" where
  "arena_setup m p cap =
     (let a = \<lparr>buf = p, capacity = cap, arena_floor = ARENA_PREFIX_LEN, last_alloc_ptr = 0, last_alloc_aligned = 0\<rparr>
      in (arena_set_cursor m a (arena_floor a), a))"

section \<open>The contract: walking the headers\<close>

text \<open>
  The allocations between two offsets of a buffer, as the headers describe them; \<open>None\<close> when the
  headers do not end at the second offset.
\<close>

function heap_walk :: "mem \<Rightarrow> ptr \<Rightarrow> nat \<Rightarrow> nat \<Rightarrow> (ptr \<times> size_t) list option" where
  "heap_walk m b off c =
     (if off = c then Some []
      else if c < off then None
      else
        let sz = load64 m (b + of_nat off)
        in map_option (\<lambda>bs. (b + of_nat (off + 16), sz) # bs)
             (heap_walk m b (off + 16 + unat (align_up sz)) c))"
  by pat_completeness auto
termination by (relation "measure (\<lambda>(m, b, off, c). c - off)") auto

declare heap_walk.simps [simp del]

definition arena_blocks :: "mem \<Rightarrow> JSArena \<Rightarrow> (ptr \<times> size_t) list option" where
  "arena_blocks m a = heap_walk m (buf a) 16 (unat (arena_cursor m a))"

definition last_ok :: "mem \<Rightarrow> JSArena \<Rightarrow> bool" where
  "last_ok m a \<longleftrightarrow>
     last_alloc_ptr a = 0 \<or>
     (let o1 = unat (last_alloc_ptr a - buf a) in
      32 \<le> o1 \<and> o1 + unat (last_alloc_aligned a) = unat (arena_cursor m a) \<and>
      last_alloc_aligned a = align_up (arena_user_size m (last_alloc_ptr a)) \<and>
      0 < unat (arena_user_size m (last_alloc_ptr a)) \<and>
      unat (arena_user_size m (last_alloc_ptr a)) < 2 ^ 63 \<and>
      heap_walk m (buf a) 16 (o1 - 16) \<noteq> None)"

definition sized :: "ptr \<times> size_t \<Rightarrow> bool" where
  "sized blk \<longleftrightarrow> 0 < unat (snd blk) \<and> unat (snd blk) < 2 ^ 63"

definition arena_inv :: "mem \<Rightarrow> JSArena \<Rightarrow> bool" where
  "arena_inv m a \<longleftrightarrow>
     no_wrap (buf a) (unat (capacity a)) \<and> unat (capacity a) < 2 ^ 62 \<and>
     0 < unat (buf a) \<and> unat (buf a) mod 16 = 0 \<and>
     16 \<le> unat (arena_cursor m a) \<and> unat (arena_cursor m a) \<le> unat (capacity a) \<and>
     unat (arena_cursor m a) mod 16 = 0 \<and>
     (case arena_blocks m a of None \<Rightarrow> False | Some bs \<Rightarrow> list_all sized bs) \<and> last_ok m a"

section \<open>Facts on offsets\<close>

lemma unat_16 [simp]: "unat (16 :: u64) = 16" by simp

lemma align_up_eq: "align_up sz = round_up 4 sz"
  by (simp add: align_up_def round_up_def add.commute)

lemma align_up_bounds:
  assumes "unat sz < 2 ^ 63"
  shows "unat sz \<le> unat (align_up sz)" "unat (align_up sz) < unat sz + 16" "unat (align_up sz) mod 16 = 0"
  using round_up_bounds [of 4 sz] assms by (simp_all add: align_up_eq)

lemma region_off:
  assumes "off + n \<le> 2 ^ 64"
  shows "a \<in> region (b + of_nat off) n \<longleftrightarrow> off \<le> unat (a - b) \<and> unat (a - b) < off + n"
proof (cases "n = 0")
  case True
  then show ?thesis by (auto simp: region_def)
next
  case False
  then have o: "off < 2 ^ 64" using assms by simp
  have u: "unat (of_nat off :: u64) = off" using o by (intro unat_of_nat_u64) simp
  have e: "a - (b + of_nat off) = (a - b) - of_nat off" by simp
  show ?thesis
  proof (cases "off \<le> unat (a - b)")
    case True
    then have "of_nat off \<le> a - b" using u by (simp add: u64_le_iff)
    then have "unat (a - (b + of_nat off)) = unat (a - b) - off" unfolding e by (simp add: unat_sub_le u)
    then show ?thesis using True by (auto simp: region_def)
  next
    case f: False
    then have "unat (a - (b + of_nat off)) = 2 ^ 64 + unat (a - b) - off"
      unfolding e using unat_sub_if_size [of "a - b" "of_nat off"] u by (simp add: word_size u64_le_iff)
    then show ?thesis using f assms unat_u64_less [of "a - b"] by (auto simp: region_def)
  qed
qed

lemma unat_off: "n < 2 ^ 64 \<Longrightarrow> unat ((b :: u64) + of_nat n - b) = n"
  by (simp add: unat_of_nat_u64)

lemma heap_walk_same [simp]: "heap_walk m b c c = Some []"
  by (subst heap_walk.simps) simp

lemma heap_walk_None: "c < off \<Longrightarrow> heap_walk m b off c = None"
  by (subst heap_walk.simps) simp

lemma heap_walk_le: "heap_walk m b off c \<noteq> None \<Longrightarrow> off \<le> c"
  using heap_walk_None [of c off m b] by (meson not_le)

lemma heap_walk_step:
  "off < c \<Longrightarrow> heap_walk m b off c =
     map_option (\<lambda>bs. (b + of_nat (off + 16), load64 m (b + of_nat off)) # bs)
       (heap_walk m b (off + 16 + unat (align_up (load64 m (b + of_nat off)))) c)"
  by (subst heap_walk.simps) (simp add: Let_def)

lemma heap_walk_append:
  assumes "heap_walk m b off c1 = Some xs" "c1 \<le> c2"
  shows "heap_walk m b off c2 = map_option (\<lambda>ys. xs @ ys) (heap_walk m b c1 c2)"
  using assms
proof (induction m b off c1 arbitrary: xs rule: heap_walk.induct)
  case (1 m b off c)
  show ?case
  proof (cases "off = c")
    case True
    then show ?thesis using 1(2) by (simp add: option.map_ident)
  next
    case False
    then have lt: "off < c" using 1(2) heap_walk_le [of m b off c] by auto
    let ?o = "off + 16 + unat (align_up (load64 m (b + of_nat off)))"
    obtain ys where ys: "heap_walk m b ?o c = Some ys"
      "xs = (b + of_nat (off + 16), load64 m (b + of_nat off)) # ys"
      using 1(2) by (auto simp: heap_walk_step [OF lt])
    have ih: "heap_walk m b ?o c2 = map_option (\<lambda>zs. ys @ zs) (heap_walk m b c c2)"
      using 1(1) [OF False _ refl] lt ys(1) 1(3) by simp
    have "off < c2" using lt 1(3) by simp
    then show ?thesis using ih ys(2) by (simp add: heap_walk_step option.map_comp comp_def)
  qed
qed

lemma heap_walk_cong:
  assumes "heap_walk m b off c = Some xs" "c \<le> 2 ^ 63"
    and "\<And>a. off \<le> unat (a - b) \<Longrightarrow> unat (a - b) < c \<Longrightarrow> m' a = m a"
  shows "heap_walk m' b off c = Some xs"
  using assms
proof (induction m b off c arbitrary: xs rule: heap_walk.induct)
  case (1 m b off c)
  show ?case
  proof (cases "off = c")
    case True
    then show ?thesis using 1(2) by simp
  next
    case False
    then have lt: "off < c" using 1(2) heap_walk_le [of m b off c] by auto
    let ?sz = "load64 m (b + of_nat off)"
    let ?o = "off + 16 + unat (align_up ?sz)"
    obtain ys where ys: "heap_walk m b ?o c = Some ys" "xs = (b + of_nat (off + 16), ?sz) # ys"
      using 1(2) by (auto simp: heap_walk_step [OF lt])
    have le: "?o \<le> c" using heap_walk_le [of m b ?o c] ys(1) by simp
    have "load64 m' (b + of_nat off) = ?sz"
    proof (rule load_le_outside)
      fix a assume "a \<in> region (b + of_nat off) 8"
      then show "m' a = m a" using le 1(3) by (intro 1(4)) (auto simp: region_off)
    qed simp
    moreover have "heap_walk m' b ?o c = Some ys"
      using lt le by (intro 1(1) [OF False _ refl ys(1) 1(3) 1(4)]) auto
    ultimately show ?thesis
      using ys(2) by (simp add: heap_walk_step [OF lt])
  qed
qed

text \<open>Writing one header at the end of a walk, and the cursor cell in front of it, adds one block.\<close>

lemma heap_walk_snoc:
  assumes w: "heap_walk m b 16 h = Some bs" and c: "h + 16 + unat (align_up sz) \<le> 2 ^ 63"
    and hdr: "load64 m' (b + of_nat h) = sz"
    and same: "\<And>a. 16 \<le> unat (a - b) \<Longrightarrow> unat (a - b) < h \<Longrightarrow> m' a = m a"
  shows "heap_walk m' b 16 (h + 16 + unat (align_up sz)) = Some (bs @ [(b + of_nat (h + 16), sz)])"
proof -
  have "heap_walk m' b 16 h = Some bs"
    using c by (intro heap_walk_cong [OF w] same) simp_all
  moreover have "heap_walk m' b h (h + 16 + unat (align_up sz)) = Some [(b + of_nat (h + 16), sz)]"
    by (simp add: heap_walk_step hdr)
  ultimately show ?thesis
    using heap_walk_append [of m' b 16 h bs "h + 16 + unat (align_up sz)"] by simp
qed

lemma load_store_other:
  assumes "region p 8 \<inter> region q 8 = {}"
  shows "load64 (store64 m q v) p = load64 m p"
proof (rule load_le_outside)
  fix a assume "a \<in> region p 8"
  then have "a \<notin> region q 8" using assms by blast
  then show "store64 m q v a = m a" by (rule store_le_outside)
qed simp

lemma cells_disjoint:
  assumes "16 \<le> h" "h \<le> 2 ^ 63"
  shows "region b 8 \<inter> region (b + of_nat h) 8 = {}" "region (b + of_nat h) 8 \<inter> region b 8 = {}"
  using assms region_off [of h 8 _ b] region_off [of 0 8 _ b] by auto

section \<open>Allocation\<close>

lemma unat_buf_off:
  assumes "unat (x :: u64) = n" shows "b + x = b + of_nat n"
  using assms by auto

lemma arena_invD:
  assumes "arena_inv m a"
  shows "no_wrap (buf a) (unat (capacity a))" "unat (capacity a) < 2 ^ 62" "0 < unat (buf a)"
    "unat (buf a) mod 16 = 0" "16 \<le> unat (arena_cursor m a)" "unat (arena_cursor m a) \<le> unat (capacity a)"
    "unat (arena_cursor m a) mod 16 = 0"
    "case arena_blocks m a of None \<Rightarrow> False | Some bs \<Rightarrow> list_all sized bs" "last_ok m a"
  using assms unfolding arena_inv_def by blast+

lemma alloc_sums:
  assumes "unat cursor < 2 ^ 62" "unat sz < 2 ^ 63"
  shows "unat (ARENA_HEADER_SIZE + align_up sz) = 16 + unat (align_up sz)"
    "unat (cursor + (ARENA_HEADER_SIZE + align_up sz)) = unat cursor + 16 + unat (align_up sz)"
proof -
  note b = align_up_bounds [OF assms(2)]
  show t: "unat (ARENA_HEADER_SIZE + align_up sz) = 16 + unat (align_up sz)"
    using b assms by (subst unat_add_no_wrap) simp_all
  show "unat (cursor + (ARENA_HEADER_SIZE + align_up sz)) = unat cursor + 16 + unat (align_up sz)"
    using b assms t by (subst unat_add_no_wrap) simp_all
qed

lemma arena_alloc_none:
  assumes inv: "arena_inv m a" and sz: "unat sz < 2 ^ 63"
    and no: "sz = 0 \<or> unat (arena_cursor m a) + 16 + unat (align_up sz) > unat (capacity a)"
  shows "arena_alloc m a sz = (m, a, 0)"
  using no alloc_sums(2) [of "arena_cursor m a" sz] sz arena_invD(2,6) [OF inv]
  by (auto simp: arena_alloc_def Let_def u64_less_iff)

lemma arena_alloc_some:
  assumes inv: "arena_inv m a" and sz: "unat sz < 2 ^ 63" "sz \<noteq> 0"
    and room: "unat (arena_cursor m a) + 16 + unat (align_up sz) \<le> unat (capacity a)"
    and bs: "arena_blocks m a = Some bs"
  obtains m' a' p where "arena_alloc m a sz = (m', a', p)" "p = buf a + of_nat (unat (arena_cursor m a) + 16)"
    "arena_inv m' a'" "arena_blocks m' a' = Some (bs @ [(p, sz)])" "buf a' = buf a" "capacity a' = capacity a"
    "unat (arena_cursor m' a') = unat (arena_cursor m a) + 16 + unat (align_up sz)"
    "\<And>x. x \<notin> region (buf a) 8 \<Longrightarrow> x \<notin> region (p - 16) 8 \<Longrightarrow> m' x = m x"
proof -
  note I = arena_invD [OF inv] and A = align_up_bounds [OF sz(1)]
  let ?c = "unat (arena_cursor m a)" and ?A = "unat (align_up sz)" and ?b = "buf a"
  have cl: "?c < 2 ^ 62" using I(2,6) by simp
  note S = alloc_sums [OF cl sz(1)]
  define p where "p = ?b + of_nat (?c + 16)"
  have hd: "?b + arena_cursor m a = ?b + of_nat ?c" by (rule unat_buf_off) simp
  have p16: "p - 16 = ?b + of_nat ?c" by (simp add: p_def)
  define m' where "m' = store64 (store64 m (?b + of_nat ?c) sz) ?b (arena_cursor m a + (ARENA_HEADER_SIZE + align_up sz))"
  define a' where "a' = a\<lparr>last_alloc_ptr := p, last_alloc_aligned := align_up sz\<rparr>"
  have run: "arena_alloc m a sz = (m', a', p)"
    using sz(2) room S(2) unfolding arena_alloc_def Let_def m'_def a'_def p_def arena_set_cursor_def hd
    by (auto simp: u64_less_iff add.assoc)
  have cur: "arena_cursor m' a' = arena_cursor m a + (ARENA_HEADER_SIZE + align_up sz)"
    by (simp add: arena_cursor_def m'_def a'_def)
  have cu: "unat (arena_cursor m' a') = ?c + 16 + ?A" using S(2) unfolding cur .
  have same: "m' x = m x" if "x \<notin> region ?b 8" "x \<notin> region (p - 16) 8" for x
    using that unfolding m'_def p16 by (simp add: store_le_outside)
  have "region (?b + of_nat ?c) 8 \<inter> region ?b 8 = {}" using cells_disjoint(2) [of ?c ?b] I(5) cl by simp
  then have hdr: "load64 m' (?b + of_nat ?c) = sz"
    unfolding m'_def by (simp add: load_store_other)
  have keep: "m' x = m x" if "16 \<le> unat (x - ?b)" "unat (x - ?b) < ?c" for x
    using that cl region_off [of ?c 8 x ?b] region_off [of 0 8 x ?b] by (intro same) (auto simp: p16)
  have w: "heap_walk m ?b 16 ?c = Some bs" using bs by (simp add: arena_blocks_def)
  have blocks: "arena_blocks m' a' = Some (bs @ [(p, sz)])"
    using heap_walk_snoc [OF w _ hdr keep] room I(2) unfolding arena_blocks_def cu p_def by (simp add: a'_def)
  have op: "unat (p - ?b) = ?c + 16" unfolding p_def using cl by (intro unat_off) simp
  have us: "arena_user_size m' p = sz" unfolding arena_user_size_def p16 by (rule hdr)
  have "heap_walk m' ?b 16 ?c = Some bs"
    using cl by (intro heap_walk_cong [OF w] keep) simp_all
  then have "last_ok m' a'"
    using op us cu sz I(5) unfolding last_ok_def Let_def by (simp add: a'_def unat_gt_0)
  then have "arena_inv m' a'"
    using I room cu blocks bs A(3) sz unfolding arena_inv_def
    by (simp add: a'_def sized_def unat_gt_0 mod_add_eq [symmetric])
  then show thesis
    using that [OF run] blocks cu same by (simp add: p_def a'_def)
qed

section \<open>The blocks of a walk\<close>

lemma sizedD: "sized (p, s) \<Longrightarrow> unat s < 2 ^ 63 \<and> 0 < unat s"
  by (simp add: sized_def)

text \<open>
  The offsets of the blocks of a walk grow, every block lies between the two offsets, and starts 16
  bytes after a 16-byte aligned offset.
\<close>

lemma heap_walk_blocks:
  assumes "heap_walk m b off c = Some bs" "c < 2 ^ 62" "list_all sized bs" "(p, s) \<in> set bs"
  shows "off + 16 \<le> unat (p - b) \<and> unat (p - b) + unat s \<le> c \<and> unat (p - b) + unat (align_up s) \<le> c \<and>
    (off mod 16 = 0 \<longrightarrow> unat (p - b) mod 16 = 0) \<and> load64 m (p - 16) = s"
  using assms
proof (induction m b off c arbitrary: bs rule: heap_walk.induct)
  case (1 m b off c)
  have lt: "off < c"
    using 1(2,5) heap_walk_le [of m b off c] by (cases "off = c") auto
  let ?sz = "load64 m (b + of_nat off)"
  let ?o = "off + 16 + unat (align_up ?sz)"
  obtain ys where ys: "heap_walk m b ?o c = Some ys" "bs = (b + of_nat (off + 16), ?sz) # ys"
    using 1(2) by (auto simp: heap_walk_step [OF lt])
  have le: "?o \<le> c" using heap_walk_le [of m b ?o c] ys(1) by simp
  have sz: "unat ?sz < 2 ^ 63" "list_all sized ys" using 1(4) ys(2) by (auto dest: sizedD)
  note A = align_up_bounds [OF sz(1)]
  show ?case
  proof (cases "(p, s) \<in> set ys")
    case True
    have "?o mod 16 = 0" if "off mod 16 = 0" using that A(3) by presburger
    then show ?thesis
      using 1(1) [OF _ _ refl ys(1) 1(3) sz(2) True] lt by auto
  next
    case False
    then have p: "p = b + of_nat (off + 16)" "s = ?sz" using 1(5) ys(2) by auto
    have "unat (p - b) = off + 16" unfolding p(1) using 1(3) lt by (intro unat_off) simp
    moreover have "load64 m (p - 16) = s" unfolding p by simp
    ultimately show ?thesis using le A(1) p(2) by presburger
  qed
qed

lemma heap_walk_sorted:
  assumes "heap_walk m b off c = Some bs" "c < 2 ^ 62" "list_all sized bs"
  shows "sorted_wrt (\<lambda>(p, s) (q, t). unat (p - b) + unat s + 16 \<le> unat (q - b)) bs"
  using assms
proof (induction m b off c arbitrary: bs rule: heap_walk.induct)
  case (1 m b off c)
  show ?case
  proof (cases "off = c")
    case True
    then show ?thesis using 1(2) by simp
  next
    case False
    then have lt: "off < c" using 1(2) heap_walk_le [of m b off c] by auto
    let ?sz = "load64 m (b + of_nat off)"
    let ?o = "off + 16 + unat (align_up ?sz)"
    obtain ys where ys: "heap_walk m b ?o c = Some ys" "bs = (b + of_nat (off + 16), ?sz) # ys"
      using 1(2) by (auto simp: heap_walk_step [OF lt])
    have sz: "unat ?sz < 2 ^ 63" "list_all sized ys" using 1(4) ys(2) by (auto dest: sizedD)
    have o: "unat (b + of_nat (off + 16) - b) = off + 16" using 1(3) lt by (intro unat_off) simp
    have "off + 16 + unat ?sz + 16 \<le> unat (q - b)" if "(q, t) \<in> set ys" for q t
      using heap_walk_blocks [OF ys(1) 1(3) sz(2) that] align_up_bounds(1) [OF sz(1)] by simp
    then show ?thesis
      using 1(1) [OF False _ refl ys(1) 1(3) sz(2)] lt ys(2) o by (auto simp del: of_nat_add)
  qed
qed

lemma heap_walk_payload:
  assumes "heap_walk m b off c = Some bs" "c < 2 ^ 62" "list_all sized bs" "(p, s) \<in> set bs"
    and "\<And>x. x \<notin> region p (unat s) \<Longrightarrow> m' x = m x"
  shows "heap_walk m' b off c = Some bs"
  using assms
proof (induction m b off c arbitrary: bs rule: heap_walk.induct)
  case (1 m b off c)
  have lt: "off < c"
    using 1(2,5) heap_walk_le [of m b off c] by (cases "off = c") auto
  let ?sz = "load64 m (b + of_nat off)"
  let ?o = "off + 16 + unat (align_up ?sz)"
  obtain ys where ys: "heap_walk m b ?o c = Some ys" "bs = (b + of_nat (off + 16), ?sz) # ys"
    using 1(2) by (auto simp: heap_walk_step [OF lt])
  have sz: "unat ?sz < 2 ^ 63" "list_all sized ys" using 1(4) ys(2) by (auto dest: sizedD)
  have B: "off + 16 \<le> unat (p - b)" "unat (p - b) + unat s \<le> c"
    using heap_walk_blocks [OF 1(2-5)] by simp_all
  have out: "m' x = m x" if "unat (x - b) < unat (p - b)" for x
  proof -
    have "p = b + of_nat (unat (p - b))" by simp
    then have "x \<notin> region p (unat s)"
      using region_off [of "unat (p - b)" "unat s" x b] B(2) 1(3) that by simp
    then show ?thesis by (rule 1(6))
  qed
  have hdr: "load64 m' (b + of_nat off) = ?sz"
    using B(1) lt 1(3) by (intro load_le_outside out) (auto simp: region_off)
  have "heap_walk m' b ?o c = Some ys"
  proof (cases "(p, s) \<in> set ys")
    case True
    then show ?thesis using lt by (intro 1(1) [OF _ _ refl ys(1) 1(3) sz(2) True 1(6)]) auto
  next
    case False
    then have p: "p = b + of_nat (off + 16)" "s = ?sz" using 1(5) ys(2) by auto
    show ?thesis
    proof (rule heap_walk_cong [OF ys(1)])
      fix x assume x: "?o \<le> unat (x - b)" "unat (x - b) < c"
      have "x \<notin> region p (unat s)"
        using region_off [of "off + 16" "unat s" x b] x align_up_bounds(1) [OF sz(1)] 1(3) lt B(2) p by simp
      then show "m' x = m x" by (rule 1(6))
    qed (use 1(3) in simp)
  qed
  then show ?case using ys(2) by (simp add: heap_walk_step [OF lt] hdr)
qed

lemma arena_blocks_at:
  assumes "arena_inv m a" "arena_blocks m a = Some bs" "(p, s) \<in> set bs"
  shows "32 \<le> unat (p - buf a)" "unat (p - buf a) + unat s \<le> unat (arena_cursor m a)"
    "unat (p - buf a) mod 16 = 0" "load64 m (p - 16) = s" "0 < unat s" "unat s < 2 ^ 63"
proof -
  note I = arena_invD [OF assms(1)]
  have "list_all sized bs" using I(8) assms(2) by simp
  then have "sized (p, s)" using assms(3) by (auto simp: list_all_iff)
  then show "0 < unat s" "unat s < 2 ^ 63" by (simp_all add: sized_def)
  show "32 \<le> unat (p - buf a)" "unat (p - buf a) + unat s \<le> unat (arena_cursor m a)"
    "unat (p - buf a) mod 16 = 0" "load64 m (p - 16) = s"
    using heap_walk_blocks [of m "buf a" 16 "unat (arena_cursor m a)" bs p s] assms(2,3) I(2,6) \<open>list_all sized bs\<close>
    by (simp_all add: arena_blocks_def)
qed

lemma arena_last_block:
  assumes inv: "arena_inv m a" and bs: "arena_blocks m a = Some bs" and last: "last_alloc_ptr a \<noteq> 0"
  defines "o1 \<equiv> unat (last_alloc_ptr a - buf a)"
  obtains bs0 where "heap_walk m (buf a) 16 (o1 - 16) = Some bs0"
    "bs = bs0 @ [(last_alloc_ptr a, arena_user_size m (last_alloc_ptr a))]" "32 \<le> o1"
    "o1 + unat (last_alloc_aligned a) = unat (arena_cursor m a)"
    "last_alloc_aligned a = align_up (arena_user_size m (last_alloc_ptr a))"
proof -
  note I = arena_invD [OF inv]
  let ?p = "last_alloc_ptr a" and ?b = "buf a" and ?c = "unat (arena_cursor m a)"
  have l: "32 \<le> o1" "o1 + unat (last_alloc_aligned a) = ?c"
    "last_alloc_aligned a = align_up (arena_user_size m ?p)" "heap_walk m ?b 16 (o1 - 16) \<noteq> None"
    using I(9) last unfolding last_ok_def Let_def o1_def by auto
  then obtain bs0 where bs0: "heap_walk m ?b 16 (o1 - 16) = Some bs0" by blast
  have p: "?b + of_nat o1 = ?p" by (simp add: o1_def)
  have "?b + of_nat (o1 - 16) = ?p - 16"
    using l(1) p by (simp add: of_nat_diff)
  then have us: "load64 m (?b + of_nat (o1 - 16)) = arena_user_size m ?p"
    by (simp add: arena_user_size_def)
  have o: "o1 - 16 + 16 = o1" "o1 - 16 < ?c" using l by simp_all
  have "heap_walk m ?b (o1 - 16) ?c = Some [(?p, arena_user_size m ?p)]"
    using l(2,3) unfolding heap_walk_step [OF o(2)] us o(1) p by simp
  then have "heap_walk m ?b 16 ?c = Some (bs0 @ [(?p, arena_user_size m ?p)])"
    using heap_walk_append [OF bs0, of ?c] o(2) by simp
  then show thesis using that [OF bs0 _ l(1-3)] bs by (simp add: arena_blocks_def)
qed

text \<open>The client may write the payload of any block without disturbing the allocator.\<close>

lemma arena_inv_payload:
  assumes inv: "arena_inv m a" and bs: "arena_blocks m a = Some bs" and blk: "(q, s) \<in> set bs"
    and same: "\<And>x. x \<notin> region q (unat s) \<Longrightarrow> m' x = m x"
  shows "arena_inv m' a" "arena_blocks m' a = Some bs" "arena_cursor m' a = arena_cursor m a"
proof -
  note I = arena_invD [OF inv] and Q = arena_blocks_at [OF inv bs blk]
  let ?b = "buf a" and ?c = "unat (arena_cursor m a)"
  have qe: "q = ?b + of_nat (unat (q - ?b))" by simp
  have reg: "x \<in> region q (unat s) \<longleftrightarrow> unat (q - ?b) \<le> unat (x - ?b) \<and> unat (x - ?b) < unat (q - ?b) + unat s" for x
    using region_off [of "unat (q - ?b)" "unat s" x ?b] Q(2) I(2,6) qe by simp
  show cur: "arena_cursor m' a = arena_cursor m a"
    unfolding arena_cursor_def using Q(1) region_off [of 0 8 _ ?b]
    by (intro load_le_outside same) (auto simp: reg)
  have sz: "list_all sized bs" using I(8) bs by simp
  have w: "heap_walk m ?b 16 ?c = Some bs" using bs by (simp add: arena_blocks_def)
  show bs': "arena_blocks m' a = Some bs"
    unfolding arena_blocks_def cur using I(2,6) by (intro heap_walk_payload [OF w _ sz blk same]) simp_all
  have "last_ok m' a"
  proof (cases "last_alloc_ptr a = 0")
    case True
    then show ?thesis by (simp add: last_ok_def)
  next
    case False
    let ?p = "last_alloc_ptr a" and ?o = "unat (last_alloc_ptr a - buf a)"
    obtain bs0 where l: "heap_walk m ?b 16 (?o - 16) = Some bs0" "bs = bs0 @ [(?p, arena_user_size m ?p)]"
      "32 \<le> ?o" "?o + unat (last_alloc_aligned a) = ?c" "last_alloc_aligned a = align_up (arena_user_size m ?p)"
      using arena_last_block [OF inv bs False] by metis
    have lastin: "(?p, arena_user_size m ?p) \<in> set bs" using l(2) by simp
    have cl: "?c < 2 ^ 62" using I(2,6) by simp
    have us: "arena_user_size m' ?p = arena_user_size m ?p"
      using heap_walk_blocks [OF bs' [unfolded arena_blocks_def cur] cl sz lastin]
      by (simp add: arena_user_size_def)
    have "heap_walk m' ?b 16 (?o - 16) = Some bs0"
    proof (cases "(q, s) \<in> set bs0")
      case True
      then show ?thesis
        using l(2,4) cl sz by (intro heap_walk_payload [OF l(1) _ _ True same]) auto
    next
      case False
      then have "unat (q - ?b) = ?o" using blk l(2) by auto
      then show ?thesis
        using l(4) cl by (intro heap_walk_cong [OF l(1)] same) (auto simp: reg)
    qed
    then show ?thesis
      using I(9) False unfolding last_ok_def Let_def cur us by auto
  qed
  then show "arena_inv m' a" using inv bs bs' cur unfolding arena_inv_def by simp
qed

section \<open>Reallocation\<close>

lemma arena_realloc_in_place:
  assumes inv: "arena_inv m a" and bs: "arena_blocks m a = Some bs" and last: "last_alloc_ptr a \<noteq> 0"
    and sz: "unat sz < 2 ^ 63" "sz \<noteq> 0"
    and cur: "unat cur' = unat (last_alloc_ptr a - buf a) + unat (align_up sz)" "unat cur' \<le> unat (capacity a)"
  defines "p \<equiv> last_alloc_ptr a"
  defines "m' \<equiv> arena_set_user_size (arena_set_cursor m a cur') p sz"
    and "a' \<equiv> a\<lparr>last_alloc_aligned := align_up sz\<rparr>"
  shows "arena_inv m' a'" "arena_blocks m' a' = Some (butlast bs @ [(p, sz)])"
    "\<And>x. x \<notin> region (buf a) 8 \<Longrightarrow> x \<notin> region (p - 16) 8 \<Longrightarrow> m' x = m x"
    "unat (arena_cursor m' a') = unat (p - buf a) + unat (align_up sz)"
proof -
  note I = arena_invD [OF inv] and A = align_up_bounds [OF sz(1)]
  let ?b = "buf a"
  define h where "h = unat (p - buf a) - 16"
  obtain bs0 where l: "heap_walk m ?b 16 h = Some bs0" "bs = bs0 @ [(p, arena_user_size m p)]" "32 \<le> unat (p - ?b)"
    using arena_last_block [OF inv bs last] unfolding p_def h_def by metis
  have o: "unat (p - ?b) = h + 16" "16 \<le> h" using l(3) by (simp_all add: h_def)
  have hl: "h < 2 ^ 62" using cur I(2) o unfolding p_def by simp
  have pe: "p = ?b + of_nat (h + 16)" unfolding o(1) [symmetric] by simp
  then have hdr: "p - 16 = ?b + of_nat h" by simp
  show same: "m' x = m x" if "x \<notin> region ?b 8" "x \<notin> region (p - 16) 8" for x
    using that unfolding m'_def arena_set_user_size_def arena_set_cursor_def by (simp add: store_le_outside)
  have "region ?b 8 \<inter> region (p - 16) 8 = {}"
    unfolding hdr using o(2) hl by (intro cells_disjoint(1)) simp_all
  then have cu: "arena_cursor m' a' = cur'"
    unfolding m'_def arena_set_user_size_def arena_set_cursor_def arena_cursor_def a'_def
    by (simp add: load_store_other)
  then show c: "unat (arena_cursor m' a') = unat (p - buf a) + unat (align_up sz)" using cur(1) by (simp add: p_def)
  have us: "load64 m' (p - 16) = sz" by (simp add: m'_def arena_set_user_size_def)
  have keep: "m' x = m x" if "16 \<le> unat (x - ?b)" "unat (x - ?b) < h" for x
    using that hl region_off [of h 8 x ?b] region_off [of 0 8 x ?b] same [of x] unfolding hdr by auto
  have "heap_walk m' ?b 16 (h + 16 + unat (align_up sz)) = Some (bs0 @ [(?b + of_nat (h + 16), sz)])"
    using us [unfolded hdr] keep cur I(2) o(1) by (intro heap_walk_snoc [OF l(1)]) (simp_all add: p_def)
  then show blocks: "arena_blocks m' a' = Some (butlast bs @ [(p, sz)])"
    unfolding arena_blocks_def c o(1) pe [symmetric] using l(2) by (simp add: a'_def)
  have "heap_walk m' ?b 16 h = Some bs0"
    using hl by (intro heap_walk_cong [OF l(1)] keep) simp_all
  then have "last_ok m' a'"
    using l(3) c us sz unfolding last_ok_def Let_def arena_user_size_def h_def
    by (simp add: a'_def p_def unat_gt_0)
  moreover have "list_all sized (butlast bs @ [(p, sz)])"
    using I(8) bs sz l(2) by (simp add: sized_def unat_gt_0)
  moreover have "(h + 16) mod 16 = 0" using arena_blocks_at(3) [OF inv bs, of p] l(2) o(1) by auto
  then have "(h + 16 + unat (align_up sz)) mod 16 = 0" using A(3) by presburger
  ultimately show "arena_inv m' a'"
    using I blocks c o cur unfolding arena_inv_def by (simp add: a'_def p_def)
qed

lemma block_region:
  assumes "arena_inv m a" "arena_blocks m a = Some bs" "(p, s) \<in> set bs"
  shows "x \<in> region p (unat s) \<longleftrightarrow> unat (p - buf a) \<le> unat (x - buf a) \<and> unat (x - buf a) < unat (p - buf a) + unat s"
proof -
  have "p = buf a + of_nat (unat (p - buf a))" by simp
  then show ?thesis
    using region_off [of "unat (p - buf a)" "unat s" x "buf a"] arena_blocks_at(2) [OF assms] arena_invD(2,6) [OF assms(1)]
    by simp
qed

text \<open>Two different blocks of the arena do not overlap.\<close>

lemma blocks_apart:
  assumes inv: "arena_inv m a" and bs: "arena_blocks m a = Some bs"
    and in1: "(p, s) \<in> set bs" and in2: "(q, t) \<in> set bs" and ne: "(p, s) \<noteq> (q, t)"
  shows "unat (p - buf a) + unat s + 16 \<le> unat (q - buf a) \<or> unat (q - buf a) + unat t + 16 \<le> unat (p - buf a)"
proof -
  have "sorted_wrt (\<lambda>(p, s) (q, t). unat (p - buf a) + unat s + 16 \<le> unat (q - buf a)) bs"
    using heap_walk_sorted [of m "buf a" 16 "unat (arena_cursor m a)" bs] bs arena_invD(2,6,8) [OF inv]
    by (simp add: arena_blocks_def)
  moreover obtain i j where "i < length bs" "bs ! i = (p, s)" "j < length bs" "bs ! j = (q, t)"
    using in1 in2 by (auto simp: in_set_conv_nth)
  moreover from this ne have "i < j \<or> j < i" by (metis linorder_neqE_nat)
  ultimately show ?thesis
    unfolding sorted_wrt_iff_nth_less by fastforce
qed

lemma arena_blocks_inj:
  assumes "arena_inv m a" "arena_blocks m a = Some bs" "(p, s) \<in> set bs" "(p, t) \<in> set bs"
  shows "s = t"
  using blocks_apart [OF assms] by auto

lemma arena_alloc_keeps:
  assumes inv: "arena_inv m a" and bs: "arena_blocks m a = Some bs" and blk: "(r, t) \<in> set bs"
    and x: "x \<in> region r (unat t)"
    and same: "\<And>x. x \<notin> region (buf a) 8 \<Longrightarrow> x \<notin> region (buf a + of_nat (unat (arena_cursor m a))) 8 \<Longrightarrow> m' x = m x"
  shows "m' x = m x"
proof -
  note B = arena_blocks_at [OF inv bs blk] and R = block_region [OF inv bs blk, of x]
  have "x \<notin> region (buf a) 8" using region_off [of 0 8 x "buf a"] B(1) R x by auto
  moreover have "x \<notin> region (buf a + of_nat (unat (arena_cursor m a))) 8"
    using region_off [of "unat (arena_cursor m a)" 8 x "buf a"] B(2) R x arena_invD(2,6) [OF inv] by auto
  ultimately show ?thesis by (rule same)
qed

lemma arena_in_place_keeps:
  assumes inv: "arena_inv m a" and bs: "arena_blocks m a = Some bs" and blk: "(r, t) \<in> set bs"
    and p: "(p, s) \<in> set bs" and x: "x \<in> region r (unat t)"
    and same: "\<And>x. x \<notin> region (buf a) 8 \<Longrightarrow> x \<notin> region (p - 16) 8 \<Longrightarrow> m' x = m x"
  shows "m' x = m x"
proof -
  note B = arena_blocks_at [OF inv bs blk] and R = block_region [OF inv bs blk, of x]
    and P = arena_blocks_at [OF inv bs p]
  define h where "h = unat (p - buf a) - 16"
  have o: "unat (p - buf a) = h + 16" using P(1) by (simp add: h_def)
  have "p = buf a + of_nat (h + 16)" unfolding o [symmetric] by simp
  then have hdr: "p - 16 = buf a + of_nat h" by simp
  have "x \<notin> region (buf a) 8" using region_off [of 0 8 x "buf a"] B(1) R x by auto
  moreover have "(p, s) = (r, t) \<or> h + 16 + unat s + 16 \<le> unat (r - buf a) \<or> unat (r - buf a) + unat t + 16 \<le> h + 16"
    using blocks_apart [OF inv bs p blk] o by auto
  then have "x \<notin> region (p - 16) 8"
    unfolding hdr using region_off [of h 8 x "buf a"] R x o P(2) arena_invD(2,6) [OF inv] by auto
  ultimately show ?thesis by (rule same)
qed

lemma memcpy_bytes: "i < n \<Longrightarrow> n \<le> 2 ^ 63 \<Longrightarrow> memcpy m d s n (d + of_nat i) = m (s + of_nat i)"
  by (simp add: memcpy_def unat_of_nat_u64)

lemma byte_in_block: "i < unat s \<Longrightarrow> p + of_nat i \<in> region p (unat (s :: u64))"
  using less_trans [OF _ unat_u64_less [of s]] by (simp add: region_def unat_of_nat_u64)

definition arena_copy :: "mem \<Rightarrow> JSArena \<Rightarrow> ptr \<Rightarrow> size_t \<Rightarrow> mem \<times> JSArena \<times> ptr" where
  "arena_copy m a p sz =
     (case arena_alloc m a sz of (m1, a1, np) \<Rightarrow>
        if np = 0 then (m1, a1, 0)
        else (memcpy m1 np p (unat (if sz < arena_user_size m p then sz else arena_user_size m p)), a1, np))"

text \<open>The outcome of a reallocation of block \<open>(p, old)\<close>, as a relation between the two states.\<close>

definition moved :: "mem \<Rightarrow> JSArena \<Rightarrow> (ptr \<times> size_t) list \<Rightarrow> ptr \<Rightarrow> size_t \<Rightarrow> size_t
    \<Rightarrow> mem \<times> JSArena \<times> ptr \<Rightarrow> bool" where
  "moved m a bs p old sz r =
     (case r of (m', a', q) \<Rightarrow>
        arena_inv m' a' \<and> (q = 0 \<longrightarrow> m' = m \<and> a' = a) \<and>
        (q \<noteq> 0 \<longrightarrow>
           arena_blocks m' a' = Some (if q = p then butlast bs @ [(p, sz)] else bs @ [(q, sz)]) \<and>
           (\<forall>i < min (unat old) (unat sz). m' (q + of_nat i) = m (p + of_nat i)) \<and>
           (\<forall>(r, t) \<in> set bs. r \<noteq> q \<longrightarrow> (\<forall>x \<in> region r (unat t). m' x = m x))))"

lemma arena_copy_moved:
  assumes inv: "arena_inv m a" and bs: "arena_blocks m a = Some bs" and p: "(p, old) \<in> set bs"
    and sz: "unat sz < 2 ^ 63" "sz \<noteq> 0"
  shows "moved m a bs p old sz (arena_copy m a p sz)"
proof (cases "unat (arena_cursor m a) + 16 + unat (align_up sz) \<le> unat (capacity a)")
  case False
  then have "arena_alloc m a sz = (m, a, 0)" using sz by (intro arena_alloc_none [OF inv]) auto
  then show ?thesis using inv by (simp add: arena_copy_def moved_def)
next
  case True
  let ?c = "unat (arena_cursor m a)"
  obtain m1 a1 q where q: "arena_alloc m a sz = (m1, a1, q)" "q = buf a + of_nat (?c + 16)"
    "arena_inv m1 a1" "arena_blocks m1 a1 = Some (bs @ [(q, sz)])" "buf a1 = buf a"
    "\<And>x. x \<notin> region (buf a) 8 \<Longrightarrow> x \<notin> region (q - 16) 8 \<Longrightarrow> m1 x = m x"
    using arena_alloc_some [OF inv sz True bs] by metis
  have old: "arena_user_size m p = old" using arena_blocks_at(4) [OF inv bs p] by (simp add: arena_user_size_def)
  let ?n = "unat (if sz < old then sz else old)"
  define m' where "m' = memcpy m1 q p ?n"
  have n: "?n = min (unat old) (unat sz)" by (simp add: u64_less_iff min_def)
  have qin: "(q, sz) \<in> set (bs @ [(q, sz)])" by simp
  have out: "m' x = m1 x" if "x \<notin> region q (unat sz)" for x
    unfolding m'_def using that region_mono [of ?n "unat sz" q] n by (intro memcpy_outside) auto
  note P = arena_inv_payload [OF q(3,4) qin out]
  have q0: "q \<noteq> 0" "q \<noteq> p"
  proof -
    have cl: "?c + 16 < 2 ^ 64" using True arena_invD(2) [OF inv] by simp
    have o: "unat (q - buf a) = ?c + 16" unfolding q(2) by (rule unat_off [OF cl])
    then show "q \<noteq> p" using arena_blocks_at(2) [OF inv bs p] by auto
    have "unat q = unat (buf a) + (?c + 16)"
      unfolding q(2) using True arena_invD(1,2) [OF inv] cl sz align_up_bounds(1) [OF sz(1)] unat_gt_0 [of sz]
      by (subst unat_add_no_wrap) (simp_all add: unat_of_nat_u64 no_wrap_def del: of_nat_add)
    then show "q \<noteq> 0" using arena_invD(3) [OF inv] by auto
  qed
  have keep1: "m1 x = m x" if "(r, t) \<in> set bs" "x \<in> region r (unat t)" for r t x
    using q(6) unfolding q(2) by (intro arena_alloc_keeps [OF inv bs that]) simp_all
  have keep: "m' x = m x" if "(r, t) \<in> set bs" "x \<in> region r (unat t)" "r \<noteq> q" for r t x
  proof -
    have "x \<notin> region q (unat sz)"
      using blocks_apart [OF q(3,4), of r t q sz] block_region [OF q(3,4), of r t x]
        block_region [OF q(3,4) qin, of x] that by auto
    then show ?thesis using out keep1 [OF that(1,2)] by simp
  qed
  have copied: "m' (q + of_nat i) = m (p + of_nat i)" if "i < min (unat old) (unat sz)" for i
  proof -
    have "m' (q + of_nat i) = m1 (p + of_nat i)"
      unfolding m'_def using that n sz(1) by (intro memcpy_bytes) simp_all
    also have "\<dots> = m (p + of_nat i)" using that by (intro keep1 [OF p] byte_in_block) simp
    finally show ?thesis .
  qed
  have "arena_copy m a p sz = (m', a1, q)" using q(1) q0 by (simp add: arena_copy_def old m'_def)
  then show ?thesis using P(1,2) q0 keep copied by (auto simp: moved_def)
qed

lemma moved_in_place:
  assumes inv: "arena_inv m a" and bs: "arena_blocks m a = Some bs"
    and p: "(last_alloc_ptr a, old) \<in> set bs" "last_alloc_ptr a \<noteq> 0"
    and sz: "unat sz < 2 ^ 63" "sz \<noteq> 0"
    and cur: "unat cur' = unat (last_alloc_ptr a - buf a) + unat (align_up sz)" "unat cur' \<le> unat (capacity a)"
  shows "moved m a bs (last_alloc_ptr a) old sz
    (arena_set_user_size (arena_set_cursor m a cur') (last_alloc_ptr a) sz,
     a\<lparr>last_alloc_aligned := align_up sz\<rparr>, last_alloc_ptr a)"
proof -
  note R = arena_realloc_in_place [OF inv bs p(2) sz cur]
  have keep: "arena_set_user_size (arena_set_cursor m a cur') (last_alloc_ptr a) sz x = m x"
    if "(r, t) \<in> set bs" "x \<in> region r (unat t)" for r t x
    by (rule arena_in_place_keeps [OF inv bs that(1) p(1) that(2) R(3)])
  have "arena_set_user_size (arena_set_cursor m a cur') (last_alloc_ptr a) sz (last_alloc_ptr a + of_nat i)
      = m (last_alloc_ptr a + of_nat i)" if "i < unat old" for i
    using that by (intro keep [OF p(1)] byte_in_block)
  then show ?thesis using R(1,2) p(2) keep by (auto simp: moved_def)
qed

lemma arena_realloc_moved:
  assumes inv: "arena_inv m a" and bs: "arena_blocks m a = Some bs" and p: "(p, old) \<in> set bs" "p \<noteq> 0"
    and sz: "unat sz < 2 ^ 63" "sz \<noteq> 0"
  shows "moved m a bs p old sz (arena_realloc m a p sz)"
proof -
  have run: "arena_realloc m a p sz =
      (let old_aligned = last_alloc_aligned a; cursor = arena_cursor m a; aligned = align_up sz in
       if p = last_alloc_ptr a \<and> aligned \<le> old_aligned
       then (arena_set_user_size (arena_set_cursor m a (cursor - (old_aligned - aligned))) p sz,
             a\<lparr>last_alloc_aligned := aligned\<rparr>, p)
       else if p = last_alloc_ptr a \<and> cursor + (aligned - old_aligned) \<le> capacity a
       then (arena_set_user_size (arena_set_cursor m a (cursor + (aligned - old_aligned))) p sz,
             a\<lparr>last_alloc_aligned := aligned\<rparr>, p)
       else arena_copy m a p sz)"
    using p(2) sz(2) by (simp add: arena_realloc_def arena_copy_def Let_def)
  show ?thesis
  proof (cases "p = last_alloc_ptr a")
    case False
    then show ?thesis using arena_copy_moved [OF inv bs p(1) sz] by (simp add: run)
  next
    case True
    obtain bs0 where l: "unat (p - buf a) + unat (last_alloc_aligned a) = unat (arena_cursor m a)"
      using arena_last_block [OF inv bs] p(2) True by metis
    let ?al = "align_up sz" and ?old = "last_alloc_aligned a" and ?cur = "arena_cursor m a"
    note move = moved_in_place [OF inv bs, unfolded True [symmetric], OF p sz]
    have c: "unat ?cur \<le> unat (capacity a)" "unat (capacity a) < 2 ^ 62" using arena_invD(2,6) [OF inv] by simp_all
    show ?thesis
    proof (cases "?al \<le> ?old")
      case le: True
      have "?old - ?al \<le> ?cur" using l le by (simp add: u64_le_iff unat_sub_le)
      then have "unat (?cur - (?old - ?al)) = unat (p - buf a) + unat ?al"
        using l le by (simp add: unat_sub_le u64_le_iff)
      then show ?thesis using move [of "?cur - (?old - ?al)"] le c l True [symmetric] by (simp add: run Let_def u64_le_iff)
    next
      case gt: False
      have d: "unat (?al - ?old) = unat ?al - unat ?old" using gt by (simp add: unat_sub_le u64_le_iff)
      have "unat (?cur + (?al - ?old)) = unat (p - buf a) + unat ?al"
        using l d gt c align_up_bounds(2) [OF sz(1)] sz(1)
        by (subst unat_add_no_wrap) (simp_all add: u64_le_iff)
      then show ?thesis
        using move [of "?cur + (?al - ?old)"] gt True [symmetric] arena_copy_moved [OF inv bs p(1) sz]
        by (simp add: run Let_def u64_le_iff)
    qed
  qed
qed

section \<open>The life of the base heap\<close>

lemma arena_setup_inv:
  assumes "no_wrap p (unat cap)" "0 < unat p" "unat p mod 16 = 0" "16 \<le> unat cap" "unat cap < 2 ^ 62"
  shows "case arena_setup m p cap of (m', a) \<Rightarrow> arena_inv m' a \<and> arena_blocks m' a = Some [] \<and>
    buf a = p \<and> capacity a = cap \<and> arena_cursor m' a = 16"
  using assms
  by (simp add: arena_setup_def Let_def arena_inv_def arena_blocks_def arena_cursor_def arena_set_cursor_def last_ok_def)

text \<open>
  The states of a base arena before the freeze: the client allocates, reallocates its live blocks
  and writes bytes of them, in any order. The sizes asked for are below \<open>2 ^ 63\<close>, more than any C object
  can have: the code does not check the sum of header and rounded size for wrap-around, and a request
  near \<open>SIZE_MAX\<close> breaks the list (\<open>arena_alloc_wraps\<close>).
\<close>

inductive base_reach :: "ptr \<Rightarrow> size_t \<Rightarrow> mem \<Rightarrow> JSArena \<Rightarrow> bool" for b cap where
  init: "arena_setup m0 b cap = (m, a) \<Longrightarrow> base_reach b cap m a"
| alloc: "base_reach b cap m a \<Longrightarrow> unat sz < 2 ^ 63 \<Longrightarrow> arena_alloc m a sz = (m', a', q) \<Longrightarrow>
    base_reach b cap m' a'"
| realloc: "base_reach b cap m a \<Longrightarrow> arena_blocks m a = Some bs \<Longrightarrow> (p, old) \<in> set bs \<Longrightarrow> unat sz < 2 ^ 63 \<Longrightarrow>
    arena_realloc m a p sz = (m', a', q) \<Longrightarrow> base_reach b cap m' a'"
| store: "base_reach b cap m a \<Longrightarrow> arena_blocks m a = Some bs \<Longrightarrow> (p, s) \<in> set bs \<Longrightarrow> x \<in> region p (unat s) \<Longrightarrow>
    base_reach b cap (m(x := v)) a"

lemma arena_alloc_inv:
  assumes "arena_inv m a" "unat sz < 2 ^ 63" "arena_alloc m a sz = (m', a', q)"
  shows "arena_inv m' a'" "buf a' = buf a" "capacity a' = capacity a"
proof -
  obtain bs where bs: "arena_blocks m a = Some bs" using arena_invD(8) [OF assms(1)] by (auto split: option.splits)
  have "arena_inv m' a' \<and> buf a' = buf a \<and> capacity a' = capacity a"
  proof (cases "sz = 0 \<or> unat (arena_cursor m a) + 16 + unat (align_up sz) > unat (capacity a)")
    case True
    then show ?thesis using arena_alloc_none [OF assms(1,2) True] assms(1,3) by simp
  next
    case False
    then obtain m1 a1 p where "arena_alloc m a sz = (m1, a1, p)" "arena_inv m1 a1" "buf a1 = buf a" "capacity a1 = capacity a"
      using arena_alloc_some [OF assms(1,2) _ _ bs] by (metis not_le)
    then show ?thesis using assms(3) by simp
  qed
  then show "arena_inv m' a'" "buf a' = buf a" "capacity a' = capacity a" by blast+
qed

lemma arena_block_pos:
  assumes "arena_inv m a" "arena_blocks m a = Some bs" "(p, s) \<in> set bs"
  shows "unat p = unat (buf a) + unat (p - buf a)" "p \<noteq> 0"
proof -
  note B = arena_blocks_at [OF assms] and I = arena_invD [OF assms(1)]
  have "unat (buf a + (p - buf a)) = unat (buf a) + unat (p - buf a)"
    using I(1,2,6) B(2,5) by (intro unat_add_no_wrap) (simp add: no_wrap_def)
  then show "unat p = unat (buf a) + unat (p - buf a)" by simp
  then show "p \<noteq> 0" using I(3) by auto
qed

lemma arena_realloc_buf:
  assumes "arena_realloc m a p sz = (m', a', q)"
  shows "buf a' = buf a" "capacity a' = capacity a"
  using assms by (auto simp: arena_realloc_def arena_alloc_def Let_def split: if_splits)

lemma base_reach_inv:
  assumes "base_reach b cap m a"
    and "no_wrap b (unat cap)" "0 < unat b" "unat b mod 16 = 0" "16 \<le> unat cap" "unat cap < 2 ^ 62"
  shows "arena_inv m a \<and> buf a = b \<and> capacity a = cap"
  using assms(1)
proof induction
  case (init m0 m a)
  then show ?case using arena_setup_inv [OF assms(2-6), of m0] by simp
next
  case (alloc m a sz m' a' q)
  then show ?case using arena_alloc_inv [of m a sz m' a' q] by simp
next
  case (realloc m a bs p old sz m' a' q)
  then have inv: "arena_inv m a" by simp
  have p0: "p \<noteq> 0" by (rule arena_block_pos [OF inv realloc(2,3)])
  have "arena_inv m' a'"
  proof (cases "sz = 0")
    case True
    then show ?thesis using realloc(5) inv p0 by (simp add: arena_realloc_def)
  next
    case False
    then show ?thesis
      using arena_realloc_moved [OF inv realloc(2,3) p0 realloc(4)] realloc(5) by (simp add: moved_def)
  qed
  then show ?case using arena_realloc_buf [OF realloc(5)] realloc(6) by simp
next
  case (store m a bs p s x v)
  then have inv: "arena_inv m a" by simp
  have "(m(x := v)) y = m y" if "y \<notin> region p (unat s)" for y using that store(4) by auto
  then have "arena_inv (m(x := v)) a" by (rule arena_inv_payload(1) [OF inv store(2,3)])
  then show ?case using store(5) by blast
qed

lemma blocks_sorted:
  assumes inv: "arena_inv m a" and bs: "arena_blocks m a = Some bs" and ij: "i < j" "j < length bs"
  shows "unat (fst (bs ! i) - buf a) + unat (snd (bs ! i)) + 16 \<le> unat (fst (bs ! j) - buf a)"
proof -
  have "sorted_wrt (\<lambda>(p, s) (q, t). unat (p - buf a) + unat s + 16 \<le> unat (q - buf a)) bs"
    using heap_walk_sorted [of m "buf a" 16 "unat (arena_cursor m a)" bs] bs arena_invD(2,6,8) [OF inv]
    by (simp add: arena_blocks_def)
  from sorted_wrt_nth_less [OF this ij] show ?thesis by (simp add: case_prod_beta)
qed

lemma blocks_disjoint:
  assumes inv: "arena_inv m a" and bs: "arena_blocks m a = Some bs" and ij: "i < length bs" "j < length bs" "i \<noteq> j"
  shows "region (fst (bs ! i)) (unat (snd (bs ! i))) \<inter> region (fst (bs ! j)) (unat (snd (bs ! j))) = {}"
proof -
  have in1: "(fst (bs ! i), snd (bs ! i)) \<in> set bs" and in2: "(fst (bs ! j), snd (bs ! j)) \<in> set bs"
    using ij by simp_all
  have "i < j \<or> j < i" using ij(3) by linarith
  then show ?thesis
    using blocks_sorted [OF inv bs, of i j] blocks_sorted [OF inv bs, of j i] ij(1,2)
      block_region [OF inv bs in1] block_region [OF inv bs in2] by auto
qed

text \<open>
  C3. In a base arena of less than \<open>2 ^ 62\<close> bytes at a non-null address that is a multiple of 16,
  whatever sequence of allocations and of reallocations of live blocks, with sizes below \<open>2 ^ 63\<close>, and
  of writes into live blocks the snapshot code performs, the headers of the base arena stay readable
  as a list of blocks; every block is 16-byte aligned and lies inside the buffer behind the cursor
  cell, and no two blocks overlap. Sizes near \<open>SIZE_MAX\<close>, for which the size computation of the code
  wraps around, are outside the statement.
\<close>

theorem base_heap_well_formed:
  assumes "base_reach b cap m a"
    and "no_wrap b (unat cap)" "0 < unat b" "unat b mod 16 = 0" "16 \<le> unat cap" "unat cap < 2 ^ 62"
  shows "\<exists>bs. arena_blocks m a = Some bs \<and>
     (\<forall>(p, s) \<in> set bs. unat p mod 16 = 0 \<and> unat b + 32 \<le> unat p \<and> unat p + unat s \<le> unat b + unat cap) \<and>
     (\<forall>i < length bs. \<forall>j < length bs. i \<noteq> j \<longrightarrow>
        region (fst (bs ! i)) (unat (snd (bs ! i))) \<inter> region (fst (bs ! j)) (unat (snd (bs ! j))) = {})"
proof -
  have inv: "arena_inv m a" "buf a = b" "capacity a = cap" using base_reach_inv [OF assms] by simp_all
  then obtain bs where bs: "arena_blocks m a = Some bs"
    using arena_invD(8) [OF inv(1)] by (auto split: option.splits)
  have "unat p mod 16 = 0 \<and> unat b + 32 \<le> unat p \<and> unat p + unat s \<le> unat b + unat cap" if "(p, s) \<in> set bs" for p s
  proof -
    note B = arena_blocks_at [OF inv(1) bs that] and P = arena_block_pos(1) [OF inv(1) bs that]
      and I = arena_invD [OF inv(1)]
    have "(unat (buf a) + unat (p - buf a)) mod 16 = 0" using B(3) I(4) by presburger
    then show ?thesis using B(1,2) I(6) P inv(2,3) by simp
  qed
  then show ?thesis using blocks_disjoint [OF inv(1) bs] bs by blast
qed

theorem base_heap_well_formed_witness:
  "case arena_setup (\<lambda>_. 0) 0x1000 0x2000 of (m0, a0) \<Rightarrow>
     (case arena_alloc m0 a0 100 of (m1, a1, p) \<Rightarrow> base_reach 0x1000 0x2000 m1 a1 \<and> arena_blocks m1 a1 \<noteq> None)"
proof -
  obtain m0 a0 where 0: "arena_setup (\<lambda>_. 0) 0x1000 0x2000 = (m0, a0)" by fastforce
  obtain m1 a1 p where 1: "arena_alloc m0 a0 100 = (m1, a1, p)" by (metis prod_cases3)
  have r: "base_reach 0x1000 0x2000 m1 a1"
    by (rule base_reach.alloc [OF base_reach.init [OF 0] _ 1]) simp
  have "no_wrap 0x1000 (unat (0x2000 :: u64))" "0 < unat (0x1000 :: u64)" "unat (0x1000 :: u64) mod 16 = 0"
    "16 \<le> unat (0x2000 :: u64)" "unat (0x2000 :: u64) < 2 ^ 62"
    by (simp_all add: no_wrap_def)
  from base_heap_well_formed [OF r this] show ?thesis using r by (auto simp: 0 1)
qed

text \<open>
  C4. Reallocation in the base arena: given a live block and a new size that is positive and fits a
  signed word, the call either returns NULL and changes nothing, or returns the block in place (it is
  then the last block of the arena, now with the new size) or a new block appended to the heap. In
  both cases the first bytes, up to the smaller of the two sizes, are those of the old block, every
  other block keeps its bytes, and the arena stays well formed.
\<close>

theorem arena_realloc_correct:
  assumes "arena_inv m a" "arena_blocks m a = Some bs" "(p, old) \<in> set bs" "unat sz < 2 ^ 63" "sz \<noteq> 0"
    and "arena_realloc m a p sz = (m', a', q)"
  shows "arena_inv m' a' \<and> (q = 0 \<longrightarrow> m' = m \<and> a' = a) \<and>
     (q \<noteq> 0 \<longrightarrow>
        arena_blocks m' a' = Some (if q = p then butlast bs @ [(p, sz)] else bs @ [(q, sz)]) \<and>
        (\<forall>i < min (unat old) (unat sz). m' (q + of_nat i) = m (p + of_nat i)) \<and>
        (\<forall>(r, t) \<in> set bs. r \<noteq> q \<longrightarrow> (\<forall>x \<in> region r (unat t). m' x = m x)))"
  using arena_realloc_moved [OF assms(1,2,3) arena_block_pos(2) [OF assms(1-3)] assms(4,5)] assms(6)
  by (simp add: moved_def)

definition demo_heap :: "mem \<times> JSArena \<times> ptr" where
  "demo_heap = (case arena_setup (\<lambda>_. 0) 0x1000 0x2000 of (m, a) \<Rightarrow> arena_alloc m a 100)"

theorem arena_realloc_correct_witness:
  "case demo_heap of (m, a, p) \<Rightarrow> (case arena_realloc m a p 200 of (m', a', q) \<Rightarrow>
     p = 0x1020 \<and> q = 0x1020 \<and> arena_blocks m' a' = Some [(0x1020, 200)])"
proof -
  obtain m0 a0 where 0: "arena_setup (\<lambda>_. 0) 0x1000 0x2000 = (m0, a0)" by fastforce
  have i: "arena_inv m0 a0" "arena_blocks m0 a0 = Some []" "buf a0 = 0x1000" "capacity a0 = 0x2000" "arena_cursor m0 a0 = 16"
    using arena_setup_inv [of "0x1000" "0x2000" "\<lambda>_. 0"] 0 by (simp_all add: no_wrap_def)
  have al: "align_up 100 = 112" "align_up 200 = 208" by (simp_all add: align_up_def)
  obtain m a p where 1: "arena_alloc m0 a0 100 = (m, a, p)" "p = 0x1020" "arena_inv m a"
      "arena_blocks m a = Some [(p, 100)]" "buf a = 0x1000" "capacity a = 0x2000" "unat (arena_cursor m a) = 144"
    by (rule arena_alloc_some [OF i(1) _ _ _ i(2), where sz = 100]) (simp_all add: i al)
  have last: "last_alloc_ptr a = p" "last_alloc_aligned a = 112"
    using 1(1,2) by (auto simp: arena_alloc_def Let_def i al split: if_splits)
  have cur: "arena_cursor m a = 144"
    using 1(7) by (intro word_unat_eq_iff [THEN iffD2]) simp
  obtain m' a' q where 2: "arena_realloc m a p 200 = (m', a', q)" by (metis prod_cases3)
  then have q: "q = p"
    using 1 last cur by (auto simp: arena_realloc_def Let_def al split: if_splits)
  have "arena_blocks m' a' = Some [(p, 200)]"
    using arena_realloc_correct [OF 1(3,4) _ _ _ 2, where old = 100] q 1(2) by simp
  then show ?thesis by (simp add: demo_heap_def 0 1(1,2) 2 [unfolded 1(2)] q)
qed

text \<open>
  The bound on the size is needed. A request for 40 bytes less than the whole address space rounds to
  a total that wraps: the capacity test passes, a pointer is handed out, and the cursor moves back by
  16 bytes, so that the next header overwrites the end of the previous block.
\<close>

lemma arena_alloc_wraps:
  assumes "arena_inv m a"
  shows "\<exists>m' a'. arena_alloc m a (- 40) = (m', a', buf a + arena_cursor m a + 16) \<and>
    arena_cursor m' a' = arena_cursor m a - 16"
proof -
  have al: "align_up (- 40) = - 32" by (simp add: align_up_def)
  have "(16 :: u64) \<le> arena_cursor m a" using arena_invD(5) [OF assms] by (simp add: u64_le_iff)
  then have "\<not> capacity a < arena_cursor m a - 16"
    using arena_invD(6) [OF assms] by (simp add: u64_less_iff unat_sub_le)
  then show ?thesis
    by (simp add: arena_alloc_def al Let_def arena_set_cursor_def arena_cursor_def)
qed

end
