(* ===== verification/Thermometer.thy ===== *)
theory Thermometer
  imports Prelude
begin

text \<open>
  The write detector and the write tripwire of \<open>src/qjs-arena.c\<close> (thermometer and hard mprotect
  sections). The kernel side is part of the state: which pages are read-only and which \<open>SIGSEGV\<close>
  handler is installed. A store to a read-only page runs the handler and is executed again. The
  theorems show that the thermometer counts exactly the pages written since the last reset, that its
  byte counts are exact, and that a store to a hardened range never takes effect.
\<close>

section \<open>State\<close>

datatype handler = SigDfl | SigIgn | ThermSegv | HardSegv | HostHandler

record therm_state =
  t_lo :: ptr
  t_hi :: ptr
  base_pages :: nat
  dirty_bitmap :: "u8 list"
  baseline :: "u8 list"
  t_writes :: nat
  pages_dirty :: nat

record hard_range =
  h_lo :: ptr
  h_hi :: ptr

record therm_sys =
  therm_states :: "therm_state list"
  therm_handler_installed :: bool
  therm_prev_sa :: handler
  therm_page_size :: nat
  therm_trace_lo :: ptr
  therm_trace_hi :: ptr
  hard_ranges :: "hard_range list"
  hard_handler_installed :: bool
  hard_prev_sa :: handler
  segv_action :: handler
  page_bytes :: nat
  readonly :: "nat \<Rightarrow> bool"

text \<open>
  The last three fields are the kernel's: the installed \<open>SIGSEGV\<close> action, the page size and the
  protection of every page.
\<close>

text \<open>The answers of the system to the calls an operation makes.\<close>

record therm_env =
  te_pagesize :: nat
  te_calloc :: bool
  te_malloc :: bool
  te_sigaction :: bool
  te_mprotect :: bool

abbreviation THERM_MAX :: nat where "THERM_MAX \<equiv> 8"
abbreviation HARD_MAX :: nat where "HARD_MAX \<equiv> 8"

definition page_of :: "therm_sys \<Rightarrow> ptr \<Rightarrow> nat" where
  "page_of s p = unat p div page_bytes s"

text \<open>\<open>mprotect\<close> changes every page that has a byte of the range.\<close>

definition mprotect :: "therm_sys \<Rightarrow> ptr \<Rightarrow> nat \<Rightarrow> bool \<Rightarrow> therm_sys" where
  "mprotect s p len ro =
     s\<lparr>readonly := (\<lambda>g. if unat p < (g + 1) * page_bytes s \<and> g * page_bytes s < unat p + len
                        then ro else readonly s g)\<rparr>"

section \<open>Searching the tables\<close>

fun find_index :: "('a \<Rightarrow> bool) \<Rightarrow> 'a list \<Rightarrow> nat option" where
  "find_index P [] = None"
| "find_index P (x # xs) = (if P x then Some 0 else map_option Suc (find_index P xs))"

definition hard_find :: "therm_sys \<Rightarrow> ptr \<Rightarrow> nat option" where
  "hard_find s lo = find_index (\<lambda>r. h_lo r = lo) (hard_ranges s)"

definition therm_find_for :: "therm_sys \<Rightarrow> ptr \<Rightarrow> nat option" where
  "therm_find_for s addr = find_index (\<lambda>t. addr \<ge> t_lo t \<and> addr < t_hi t) (therm_states s)"

definition therm_find_by_lo :: "therm_sys \<Rightarrow> ptr \<Rightarrow> nat option" where
  "therm_find_by_lo s lo = find_index (\<lambda>t. t_lo t = lo) (therm_states s)"

text \<open>Removal of an entry by moving the last one into its slot.\<close>

definition compact :: "nat \<Rightarrow> 'a list \<Rightarrow> 'a list" where
  "compact i xs = (if i = length xs - 1 then butlast xs else butlast (xs[i := last xs]))"

section \<open>The signal handlers\<close>

definition dirty_bit :: "u8 list \<Rightarrow> nat \<Rightarrow> bool" where
  "dirty_bit bm i \<longleftrightarrow> bm ! (i div 8) AND push_bit (i mod 8) 1 \<noteq> 0"

definition mark_dirty :: "therm_state \<Rightarrow> nat \<Rightarrow> therm_state" where
  "mark_dirty t page_idx =
     (let t1 = t\<lparr>t_writes := t_writes t + 1\<rparr>;
          byte_idx = page_idx div 8;
          b = push_bit (page_idx mod 8) 1
      in if dirty_bitmap t1 ! byte_idx AND b = 0
         then t1\<lparr>dirty_bitmap := (dirty_bitmap t1)[byte_idx := dirty_bitmap t1 ! byte_idx OR b],
                 pages_dirty := pages_dirty t1 + 1\<rparr>
         else t1)"

text \<open>What the kernel does after a handler returned: run the store again, end the process, or leave
  it to the host.\<close>

datatype after = Retry | Kill | ToHost

text \<open>
  What a handler of the package does with a fault: it deals with it, or it hands it to the action it
  replaced. The write protection the thermometer lifts is taken to be lifted: the code ignores the
  result of that \<open>mprotect\<close>. The diagnostics printed are left out.
\<close>

datatype answer = Handled therm_sys after | Chain handler

definition therm_sigsegv :: "ptr \<Rightarrow> therm_sys \<Rightarrow> answer" where
  "therm_sigsegv addr s =
     (case therm_find_for s addr of
        None \<Rightarrow> Chain (therm_prev_sa s)
      | Some i \<Rightarrow>
          let t = therm_states s ! i;
              page_idx = unat (addr - t_lo t) div therm_page_size s;
              s1 = s\<lparr>therm_states := (therm_states s)[i := mark_dirty t page_idx]\<rparr>
          in Handled (mprotect s1 (t_lo t + of_nat (page_idx * therm_page_size s)) (therm_page_size s) False) Retry)"

definition hard_sigsegv :: "ptr \<Rightarrow> therm_sys \<Rightarrow> answer" where
  "hard_sigsegv addr s =
     (case find_index (\<lambda>r. addr \<ge> h_lo r \<and> addr < h_hi r) (hard_ranges s) of
        Some _ \<Rightarrow> Handled (s\<lparr>segv_action := SigDfl\<rparr>) Retry
      | None \<Rightarrow> Chain (hard_prev_sa s))"

text \<open>
  A fault goes from handler to handler (\<open>therm_chain\<close> and the end of \<open>hard_sigsegv\<close>): the default
  action is put back and the signal raised again, an ignored signal is dropped, a handler of the
  package or of the host is called. The recursion is cut by fuel: the result \<open>None\<close> is a chain of
  handlers that never ends.
\<close>

fun run_handler :: "nat \<Rightarrow> handler \<Rightarrow> ptr \<Rightarrow> therm_sys \<Rightarrow> (therm_sys \<times> after) option" where
  "run_handler 0 h addr s = None"
| "run_handler (Suc n) h addr s =
     (case h of
        SigDfl \<Rightarrow> Some (s\<lparr>segv_action := SigDfl\<rparr>, Kill)
      | SigIgn \<Rightarrow> Some (s, Retry)
      | HostHandler \<Rightarrow> Some (s, ToHost)
      | ThermSegv \<Rightarrow>
          (case therm_sigsegv addr s of Handled s1 a \<Rightarrow> Some (s1, a) | Chain h1 \<Rightarrow> run_handler n h1 addr s)
      | HardSegv \<Rightarrow>
          (case hard_sigsegv addr s of Handled s1 a \<Rightarrow> Some (s1, a) | Chain h1 \<Rightarrow> run_handler n h1 addr s))"

declare therm_sigsegv_def [simp] hard_sigsegv_def [simp]

text \<open>
  A one-byte store of the program, with the faults it takes. The kernel does not let a process ignore
  the fault of its own store: with the action \<open>SIG_IGN\<close> installed it ends the process.
\<close>

datatype store_result = Stored therm_sys mem | Killed | HostTakesOver

fun store_byte :: "nat \<Rightarrow> therm_sys \<Rightarrow> mem \<Rightarrow> ptr \<Rightarrow> u8 \<Rightarrow> store_result option" where
  "store_byte 0 s m p v = None"
| "store_byte (Suc n) s m p v =
     (if \<not> readonly s (page_of s p) then Some (Stored s (m(p := v)))
      else if segv_action s = SigIgn then Some Killed
      else
        (case run_handler 8 (segv_action s) p s of
           None \<Rightarrow> None
         | Some (s1, Retry) \<Rightarrow> store_byte n s1 m p v
         | Some (s1, Kill) \<Rightarrow> Some Killed
         | Some (s1, ToHost) \<Rightarrow> Some HostTakesOver))"

section \<open>The thermometer\<close>

definition therm_install_handler :: "therm_env \<Rightarrow> therm_sys \<Rightarrow> therm_sys \<times> bool" where
  "therm_install_handler e s =
     (if therm_handler_installed s then (s, True)
      else if \<not> te_sigaction e then (s, False)
      else (s\<lparr>therm_prev_sa := segv_action s, segv_action := ThermSegv, therm_handler_installed := True\<rparr>, True))"

definition therm_uninstall_handler_if_idle :: "therm_sys \<Rightarrow> therm_sys" where
  "therm_uninstall_handler_if_idle s =
     (if \<not> therm_handler_installed s \<or> length (therm_states s) > 0 then s
      else s\<lparr>segv_action := therm_prev_sa s, therm_handler_installed := False\<rparr>)"

definition bytes_at :: "mem \<Rightarrow> ptr \<Rightarrow> nat \<Rightarrow> u8 list" where
  "bytes_at m p n = map (\<lambda>i. m (p + of_nat i)) [0..<n]"

definition bitmap_bytes :: "nat \<Rightarrow> nat" where
  "bitmap_bytes pages = (pages + 7) div 8"

definition js_arena_thermometer_enable_range :: "therm_env \<Rightarrow> mem \<Rightarrow> ptr \<Rightarrow> ptr \<Rightarrow> therm_sys \<Rightarrow> therm_sys \<times> bool" where
  "js_arena_thermometer_enable_range e m lo hi s =
     (if lo = 0 \<or> hi = 0 \<or> lo \<ge> hi then (s, False)
      else if therm_find_by_lo s lo \<noteq> None then (s, True)
      else if hard_find s lo \<noteq> None then (s, False)
      else if length (therm_states s) \<ge> THERM_MAX then (s, False)
      else if therm_page_size s = 0 \<and> te_pagesize e = 0 then (s, False)
      else
        let s = (if therm_page_size s = 0 then s\<lparr>therm_page_size := te_pagesize e\<rparr> else s)
        in if lo AND (of_nat (therm_page_size s) - 1) \<noteq> 0 then (s, False)
           else
             let base_size = unat (hi - lo);
                 pages = base_size div therm_page_size s
             in if \<not> te_calloc e \<or> \<not> te_malloc e then (s, False)
                else
                  (case therm_install_handler e s of (s1, ok) \<Rightarrow>
                     if \<not> ok then (s1, False)
                     else if \<not> te_mprotect e then (therm_uninstall_handler_if_idle s1, False)
                     else
                       let s2 = mprotect s1 lo base_size True
                       in (s2\<lparr>therm_states := therm_states s2 @
                              [\<lparr>t_lo = lo, t_hi = hi, base_pages = pages,
                                dirty_bitmap = replicate (if bitmap_bytes pages = 0 then 1 else bitmap_bytes pages) 0,
                                baseline = bytes_at m lo base_size, t_writes = 0, pages_dirty = 0\<rparr>]\<rparr>, True)))"

definition js_arena_thermometer_disable_range :: "ptr \<Rightarrow> ptr \<Rightarrow> therm_sys \<Rightarrow> therm_sys" where
  "js_arena_thermometer_disable_range lo hi s =
     (case therm_find_by_lo s lo of
        None \<Rightarrow> s
      | Some i \<Rightarrow>
          let t = therm_states s ! i;
              s1 = mprotect s (t_lo t) (unat (t_hi t - t_lo t)) False;
              s2 = s1\<lparr>therm_states := compact i (therm_states s1)\<rparr>
          in therm_uninstall_handler_if_idle s2)"

definition therm_current :: "therm_sys \<Rightarrow> therm_state option" where
  "therm_current s = (if length (therm_states s) > 0 then Some (last (therm_states s)) else None)"

definition js_arena_thermometer_enable :: "therm_env \<Rightarrow> mem \<Rightarrow> (ptr \<times> ptr) list \<Rightarrow> therm_sys \<Rightarrow> therm_sys \<times> bool" where
  "js_arena_thermometer_enable e m ranges s =
     (if ranges = [] then (s, False)
      else (case last ranges of (lo, hi) \<Rightarrow> js_arena_thermometer_enable_range e m lo hi s))"

fun disable_all :: "nat \<Rightarrow> therm_sys \<Rightarrow> therm_sys" where
  "disable_all 0 s = s"
| "disable_all (Suc n) s =
     (if length (therm_states s) > 0
      then disable_all n (js_arena_thermometer_disable_range (t_lo (last (therm_states s))) (t_hi (last (therm_states s))) s)
      else s)"

definition js_arena_thermometer_disable :: "therm_sys \<Rightarrow> therm_sys" where
  "js_arena_thermometer_disable s = disable_all (length (therm_states s)) s"

definition js_arena_thermometer_reset :: "mem \<Rightarrow> therm_sys \<Rightarrow> therm_sys" where
  "js_arena_thermometer_reset m s =
     (case therm_current s of
        None \<Rightarrow> s
      | Some t \<Rightarrow>
          let base_size = unat (t_hi t - t_lo t);
              s1 = mprotect s (t_lo t) base_size True;
              n = bitmap_bytes (base_pages t)
          in s1\<lparr>therm_states := butlast (therm_states s1) @
                 [t\<lparr>baseline := bytes_at m (t_lo t) base_size,
                    dirty_bitmap := replicate n 0 @ drop n (dirty_bitmap t),
                    t_writes := 0, pages_dirty := 0\<rparr>]\<rparr>)"

definition js_arena_thermometer_pages :: "therm_sys \<Rightarrow> nat" where
  "js_arena_thermometer_pages s = (case therm_current s of None \<Rightarrow> 0 | Some t \<Rightarrow> pages_dirty t)"

definition js_arena_thermometer_writes :: "therm_sys \<Rightarrow> nat" where
  "js_arena_thermometer_writes s = (case therm_current s of None \<Rightarrow> 0 | Some t \<Rightarrow> t_writes t)"

definition js_arena_thermometer_trace_range :: "u64 \<Rightarrow> u64 \<Rightarrow> therm_sys \<Rightarrow> therm_sys" where
  "js_arena_thermometer_trace_range lo_off hi_off s =
     (if lo_off = 0 \<and> hi_off = 0 then s\<lparr>therm_trace_lo := 0, therm_trace_hi := 0\<rparr>
      else (case therm_current s of
              None \<Rightarrow> s
            | Some t \<Rightarrow> s\<lparr>therm_trace_lo := t_lo t + lo_off, therm_trace_hi := t_lo t + hi_off\<rparr>))"

definition js_arena_thermometer_page_size :: "therm_sys \<Rightarrow> nat" where
  "js_arena_thermometer_page_size s = (if length (therm_states s) > 0 then therm_page_size s else 0)"

text \<open>The entries written to the caller's array, at most \<open>cap\<close>, and the number found.\<close>

definition js_arena_thermometer_dirty_offsets :: "nat \<Rightarrow> therm_sys \<Rightarrow> nat list \<times> nat" where
  "js_arena_thermometer_dirty_offsets cap s =
     (case therm_current s of
        None \<Rightarrow> ([], 0)
      | Some t \<Rightarrow>
          let dirty = filter (dirty_bit (dirty_bitmap t)) [0..<base_pages t]
          in (take cap (map (\<lambda>i. i * therm_page_size s) dirty), length dirty))"

definition js_arena_thermometer_changed_in_page :: "mem \<Rightarrow> nat \<Rightarrow> therm_sys \<Rightarrow> nat" where
  "js_arena_thermometer_changed_in_page m page_offset s =
     (case therm_current s of
        None \<Rightarrow> 0
      | Some t \<Rightarrow>
          let base_size = unat (t_hi t - t_lo t)
          in if page_offset \<ge> base_size then 0
             else
               let end_off = min (page_offset + therm_page_size s) base_size
               in length (filter (\<lambda>i. m (t_lo t + of_nat (page_offset + i)) \<noteq> baseline t ! (page_offset + i))
                            [0..<end_off - page_offset]))"

definition js_arena_thermometer_changed_bytes :: "mem \<Rightarrow> therm_sys \<Rightarrow> nat" where
  "js_arena_thermometer_changed_bytes m s =
     (case therm_current s of
        None \<Rightarrow> 0
      | Some t \<Rightarrow>
          sum_list (map (\<lambda>i. if dirty_bit (dirty_bitmap t) i
                             then js_arena_thermometer_changed_in_page m (i * therm_page_size s) s else 0)
                        [0..<base_pages t]))"

definition js_arena_thermometer_baseline_at :: "nat \<Rightarrow> therm_sys \<Rightarrow> u8 option" where
  "js_arena_thermometer_baseline_at off s =
     (case therm_current s of
        None \<Rightarrow> None
      | Some t \<Rightarrow> if off \<ge> unat (t_hi t - t_lo t) then None else Some (baseline t ! off))"

definition js_arena_thermometer_changed_byte_offsets :: "mem \<Rightarrow> nat \<Rightarrow> nat \<Rightarrow> therm_sys \<Rightarrow> nat list \<times> nat" where
  "js_arena_thermometer_changed_byte_offsets m page_offset cap s =
     (case therm_current s of
        None \<Rightarrow> ([], 0)
      | Some t \<Rightarrow>
          let base_size = unat (t_hi t - t_lo t)
          in if page_offset \<ge> base_size then ([], 0)
             else
               let end_off = min (page_offset + therm_page_size s) base_size;
                   changed = filter (\<lambda>i. m (t_lo t + of_nat i) \<noteq> baseline t ! i) [page_offset..<end_off]
               in (take cap changed, length changed))"

section \<open>The tripwire\<close>

definition js_dual_arena_harden_range :: "therm_env \<Rightarrow> bool \<Rightarrow> ptr \<Rightarrow> nat \<Rightarrow> therm_sys \<Rightarrow> therm_sys \<times> bool" where
  "js_dual_arena_harden_range e frozen b cap s =
     (if \<not> frozen then (s, False)
      else if therm_find_by_lo s b \<noteq> None then (s, False)
      else if hard_find s b \<noteq> None then (s, True)
      else if length (hard_ranges s) \<ge> HARD_MAX then (s, False)
      else if \<not> hard_handler_installed s \<and> \<not> te_sigaction e then (s, False)
      else
        let s1 = (if hard_handler_installed s then s
                  else s\<lparr>hard_prev_sa := segv_action s, segv_action := HardSegv, hard_handler_installed := True\<rparr>)
        in if \<not> te_mprotect e
           then (if length (hard_ranges s1) = 0
                 then (s1\<lparr>segv_action := hard_prev_sa s1, hard_handler_installed := False\<rparr>, False)
                 else (s1, False))
           else
             let s2 = mprotect s1 b cap True
             in (s2\<lparr>hard_ranges := hard_ranges s2 @ [\<lparr>h_lo = b, h_hi = b + of_nat cap\<rparr>]\<rparr>, True))"

definition js_dual_arena_unharden_range :: "ptr \<Rightarrow> nat \<Rightarrow> therm_sys \<Rightarrow> therm_sys \<times> bool" where
  "js_dual_arena_unharden_range b cap s =
     (case hard_find s b of
        None \<Rightarrow> (s, False)
      | Some idx \<Rightarrow>
          let s1 = mprotect s b cap False;
              s2 = s1\<lparr>hard_ranges := compact idx (hard_ranges s1)\<rparr>
          in if length (hard_ranges s2) = 0 \<and> hard_handler_installed s2
             then (s2\<lparr>segv_action := hard_prev_sa s2, hard_handler_installed := False\<rparr>, True)
             else (s2, True))"

definition is_hardened_range :: "ptr \<Rightarrow> therm_sys \<Rightarrow> bool" where
  "is_hardened_range b s \<longleftrightarrow> hard_find s b \<noteq> None"

section \<open>Pages\<close>

lemma mprotect_simps [simp]:
  "therm_states (mprotect s p n b) = therm_states s" "therm_page_size (mprotect s p n b) = therm_page_size s"
  "segv_action (mprotect s p n b) = segv_action s" "hard_ranges (mprotect s p n b) = hard_ranges s"
  "therm_prev_sa (mprotect s p n b) = therm_prev_sa s" "hard_prev_sa (mprotect s p n b) = hard_prev_sa s"
  "therm_handler_installed (mprotect s p n b) = therm_handler_installed s"
  "hard_handler_installed (mprotect s p n b) = hard_handler_installed s"
  "page_bytes (mprotect s p n b) = page_bytes s"
  by (simp_all add: mprotect_def)

lemma page_window:
  fixes P :: nat
  assumes "0 < P"
  shows "(P * k < (g + 1) * P \<and> g * P < P * k + n * P) \<longleftrightarrow> (k \<le> g \<and> g < k + n)"
proof -
  have "P * k < (g + 1) * P \<longleftrightarrow> k < g + 1" using assms by (simp only: mult.commute [of P] mult_less_cancel2 simp_thms)
  moreover have "g * P < P * k + n * P \<longleftrightarrow> g < k + n"
    using assms by (simp only: mult.commute [of P] add_mult_distrib [symmetric] mult_less_cancel2 simp_thms)
  ultimately show ?thesis by auto
qed

lemma readonly_mprotect:
  assumes "0 < page_bytes s" "unat p = page_bytes s * k" "len = n * page_bytes s"
  shows "readonly (mprotect s p len ro) g = (if k \<le> g \<and> g < k + n then ro else readonly s g)"
  unfolding mprotect_def assms(2,3) using page_window [OF assms(1), of k g n] by simp

section \<open>The dirty bitmap\<close>

lemma dirty_bit_iff: "dirty_bit bm i \<longleftrightarrow> bit (bm ! (i div 8)) (i mod 8)"
proof -
  have "x AND push_bit n 1 \<noteq> 0 \<longleftrightarrow> bit x n" for x :: u8 and n
    unfolding bit_eq_iff [of "x AND push_bit n 1"]
    by (auto simp: bit_and_iff bit_exp_iff dest: bit_imp_le_length)
  then show ?thesis by (simp add: dirty_bit_def)
qed

lemma dirty_bit_mark:
  assumes "i div 8 < length bm"
  shows "dirty_bit (bm[i div 8 := bm ! (i div 8) OR push_bit (i mod 8) 1]) j \<longleftrightarrow> j = i \<or> dirty_bit bm j"
proof -
  have "j = i \<longleftrightarrow> j div 8 = i div 8 \<and> j mod 8 = i mod 8" by (metis div_mult_mod_eq)
  then show ?thesis
    using assms unfolding dirty_bit_iff
    by (cases "j div 8 = i div 8")
      (auto simp: nth_list_update bit_or_iff bit_exp_iff dest: bit_imp_le_length)
qed

section \<open>Exactness of the thermometer\<close>

definition in_state :: "therm_state \<Rightarrow> ptr \<Rightarrow> bool" where
  "in_state t a \<longleftrightarrow> t_lo t \<le> a \<and> a < t_hi t"

definition page_idx :: "therm_sys \<Rightarrow> therm_state \<Rightarrow> ptr \<Rightarrow> nat" where
  "page_idx s t a = unat (a - t_lo t) div therm_page_size s"

definition alone :: "therm_sys \<Rightarrow> therm_state \<Rightarrow> bool" where
  "alone s t \<longleftrightarrow> (\<exists>ts. therm_states s = ts @ [t] \<and> (\<forall>t' \<in> set ts. \<forall>a. \<not> (in_state t' a \<and> in_state t a)))"

definition reaches_therm :: "therm_sys \<Rightarrow> therm_state \<Rightarrow> bool" where
  "reaches_therm s t \<longleftrightarrow>
     segv_action s = ThermSegv \<or>
     segv_action s = HardSegv \<and> hard_prev_sa s = ThermSegv \<and>
       (\<forall>r \<in> set (hard_ranges s). \<forall>a. \<not> (h_lo r \<le> a \<and> a < h_hi r \<and> in_state t a))"

definition whole_pages :: "therm_sys \<Rightarrow> therm_state \<Rightarrow> bool" where
  "whole_pages s t \<longleftrightarrow>
     0 < therm_page_size s \<and> page_bytes s = therm_page_size s \<and> unat (t_lo t) mod therm_page_size s = 0 \<and>
     unat (t_lo t) + base_pages t * therm_page_size s = unat (t_hi t) \<and>
     bitmap_bytes (base_pages t) \<le> length (dirty_bitmap t)"

text \<open>\<open>t\<close> is the current entry and \<open>D\<close> the set of its pages that were written.\<close>

definition watching :: "therm_sys \<Rightarrow> therm_state \<Rightarrow> nat set \<Rightarrow> bool" where
  "watching s t D \<longleftrightarrow>
     alone s t \<and> whole_pages s t \<and> reaches_therm s t \<and>
     D \<subseteq> {..<base_pages t} \<and> (\<forall>i < base_pages t. dirty_bit (dirty_bitmap t) i \<longleftrightarrow> i \<in> D) \<and>
     pages_dirty t = card D \<and> t_writes t = card D \<and>
     (\<forall>i < base_pages t. readonly s (unat (t_lo t) div therm_page_size s + i) \<longleftrightarrow> i \<notin> D)"

lemma find_index_append_last:
  "(\<forall>x \<in> set xs. \<not> P x) \<Longrightarrow> P y \<Longrightarrow> find_index P (xs @ [y]) = Some (length xs)"
  by (induction xs) auto

lemma find_index_None: "find_index P xs = None \<longleftrightarrow> (\<forall>x \<in> set xs. \<not> P x)"
  by (induction xs) auto

lemma in_state_page:
  assumes "whole_pages s t" "in_state t a"
  shows "page_idx s t a < base_pages t" "page_of s a = unat (t_lo t) div therm_page_size s + page_idx s t a"
    "page_idx s t a div 8 < length (dirty_bitmap t)"
    "unat (t_lo t + of_nat (page_idx s t a * therm_page_size s))
       = therm_page_size s * (unat (t_lo t) div therm_page_size s + page_idx s t a)"
proof -
  let ?P = "therm_page_size s" and ?i = "page_idx s t a"
  have w: "0 < ?P" "unat (t_lo t) mod ?P = 0" "unat (t_lo t) + base_pages t * ?P = unat (t_hi t)"
    "bitmap_bytes (base_pages t) \<le> length (dirty_bitmap t)"
    using assms(1) by (simp_all add: whole_pages_def)
  have a: "unat (t_lo t) \<le> unat a" "unat a < unat (t_hi t)"
    using assms(2) by (simp_all add: in_state_def u64_le_iff u64_less_iff)
  have d: "unat (a - t_lo t) = unat a - unat (t_lo t)"
    using assms(2) by (intro unat_sub_le) (simp add: in_state_def)
  have "unat a - unat (t_lo t) < base_pages t * ?P" using a w(3) by linarith
  then show i: "?i < base_pages t" unfolding page_idx_def d using w(1) by (simp add: div_less_iff_less_mult)
  have lo: "unat (t_lo t) = ?P * (unat (t_lo t) div ?P)" using w(2) by auto
  have "unat a = ?P * (unat (t_lo t) div ?P) + (unat a - unat (t_lo t))" using a(1) lo by linarith
  then have "unat a div ?P = unat (t_lo t) div ?P + (unat a - unat (t_lo t)) div ?P"
    using w(1) by (metis div_mult_self4 gr_implies_not0 add.commute mult.commute)
  moreover have "page_bytes s = ?P" using assms(1) by (simp add: whole_pages_def)
  ultimately show "page_of s a = unat (t_lo t) div ?P + ?i" by (simp add: page_of_def page_idx_def d)
  show "?i div 8 < length (dirty_bitmap t)" using i w(4) unfolding bitmap_bytes_def by linarith
  have le: "?i * ?P \<le> base_pages t * ?P" using i by (intro mult_le_mono1) simp
  have hi: "unat (t_hi t) < 2 ^ 64" by simp
  then have x: "unat (t_lo t) + ?i * ?P < 2 ^ 64" using le w(3) by linarith
  then have "unat (of_nat (?i * ?P) :: u64) = ?i * ?P" by (intro unat_of_nat_u64) simp
  then have "unat (t_lo t + of_nat (?i * ?P)) = unat (t_lo t) + ?i * ?P"
    using x by (simp only: unat_add_no_wrap)
  then show "unat (t_lo t + of_nat (?i * ?P)) = ?P * (unat (t_lo t) div ?P + ?i)"
    using lo by (simp add: algebra_simps)
qed

lemma mark_dirty_fields [simp]:
  "t_lo (mark_dirty t i) = t_lo t" "t_hi (mark_dirty t i) = t_hi t" "base_pages (mark_dirty t i) = base_pages t"
  "baseline (mark_dirty t i) = baseline t" "length (dirty_bitmap (mark_dirty t i)) = length (dirty_bitmap t)"
  "t_writes (mark_dirty t i) = t_writes t + 1"
  by (simp_all add: mark_dirty_def Let_def)

lemma mark_dirty_new:
  assumes "i div 8 < length (dirty_bitmap t)" "\<not> dirty_bit (dirty_bitmap t) i"
  shows "dirty_bit (dirty_bitmap (mark_dirty t i)) j \<longleftrightarrow> j = i \<or> dirty_bit (dirty_bitmap t) j"
    "pages_dirty (mark_dirty t i) = pages_dirty t + 1"
proof -
  have "dirty_bitmap t ! (i div 8) AND push_bit (i mod 8) 1 = 0" using assms(2) by (simp add: dirty_bit_def)
  then have m: "dirty_bitmap (mark_dirty t i) =
      (dirty_bitmap t)[i div 8 := dirty_bitmap t ! (i div 8) OR push_bit (i mod 8) 1]"
    "pages_dirty (mark_dirty t i) = pages_dirty t + 1"
    by (simp_all add: mark_dirty_def Let_def)
  then show "pages_dirty (mark_dirty t i) = pages_dirty t + 1" by simp
  show "dirty_bit (dirty_bitmap (mark_dirty t i)) j \<longleftrightarrow> j = i \<or> dirty_bit (dirty_bitmap t) j"
    unfolding m(1) by (rule dirty_bit_mark [OF assms(1)])
qed

definition after_fault :: "therm_sys \<Rightarrow> therm_state \<Rightarrow> ptr \<Rightarrow> therm_sys" where
  "after_fault s t a =
     mprotect (s\<lparr>therm_states := butlast (therm_states s) @ [mark_dirty t (page_idx s t a)]\<rparr>)
       (t_lo t + of_nat (page_idx s t a * therm_page_size s)) (therm_page_size s) False"

lemma run_handler_fault:
  assumes "alone s t" "reaches_therm s t" "in_state t a"
  shows "run_handler 8 (segv_action s) a s = Some (after_fault s t a, Retry)"
proof -
  obtain ts where ts: "therm_states s = ts @ [t]" "\<forall>t' \<in> set ts. \<not> in_state t' a"
    using assms(1,3) by (auto simp: alone_def)
  have f: "therm_find_for s a = Some (length ts)"
    unfolding therm_find_for_def ts(1) using ts(2) assms(3)
    by (intro find_index_append_last) (simp_all add: in_state_def)
  have th: "run_handler (Suc n) ThermSegv a s = Some (after_fault s t a, Retry)" for n
    using f ts(1) by (simp add: after_fault_def page_idx_def Let_def)
  show ?thesis
  proof (cases "segv_action s = ThermSegv")
    case True
    then show ?thesis using th [of 7] by (simp add: numeral_eq_Suc)
  next
    case False
    then have h: "segv_action s = HardSegv" "hard_prev_sa s = ThermSegv"
      "find_index (\<lambda>r. h_lo r \<le> a \<and> a < h_hi r) (hard_ranges s) = None"
      using assms(2,3) by (auto simp: reaches_therm_def find_index_None)
    have "run_handler 8 HardSegv a s = run_handler 7 (hard_prev_sa s) a s"
      using h(3) by (simp add: numeral_eq_Suc)
    then show ?thesis using th [of 6] h(1,2) by (simp add: numeral_eq_Suc)
  qed
qed

lemma watching_fault:
  assumes w: "watching s t D" and a: "in_state t a" and new: "page_idx s t a \<notin> D"
  defines "t' \<equiv> mark_dirty t (page_idx s t a)"
  shows "watching (after_fault s t a) t' (insert (page_idx s t a) D)"
    "readonly (after_fault s t a) g = (if g = page_of s a then False else readonly s g)"
proof -
  let ?i = "page_idx s t a" and ?s = "after_fault s t a" and ?P = "therm_page_size s"
  have W: "alone s t" "whole_pages s t" "reaches_therm s t" "D \<subseteq> {..<base_pages t}"
    "\<forall>i < base_pages t. dirty_bit (dirty_bitmap t) i \<longleftrightarrow> i \<in> D" "pages_dirty t = card D" "t_writes t = card D"
    "\<forall>i < base_pages t. readonly s (unat (t_lo t) div ?P + i) \<longleftrightarrow> i \<notin> D"
    using w unfolding watching_def by blast+
  note P = in_state_page [OF W(2) a]
  have nb: "\<not> dirty_bit (dirty_bitmap t) ?i" using W(5) P(1) new by blast
  note M = mark_dirty_new [OF P(3) nb]
  show ro: "readonly ?s g = (if g = page_of s a then False else readonly s g)" for g
    unfolding after_fault_def
    using readonly_mprotect [of "s\<lparr>therm_states := butlast (therm_states s) @ [mark_dirty t ?i]\<rparr>" _ _ _ 1 False g] P(2,4) W(2)
    by (auto simp: whole_pages_def)
  obtain ts where ts: "therm_states s = ts @ [t]" "\<forall>t' \<in> set ts. \<forall>a. \<not> (in_state t' a \<and> in_state t a)"
    using W(1) by (auto simp: alone_def)
  have al: "alone ?s t'"
    unfolding alone_def using ts by (intro exI [of _ ts]) (simp add: after_fault_def t'_def in_state_def)
  have fin: "finite D" using W(4) finite_subset by blast
  show "watching ?s t' (insert ?i D)"
    unfolding watching_def
  proof (intro conjI)
    show "whole_pages ?s t'" using W(2) by (simp add: whole_pages_def after_fault_def t'_def)
    show "reaches_therm ?s t'" using W(3) by (simp add: reaches_therm_def after_fault_def t'_def in_state_def)
    show "insert ?i D \<subseteq> {..<base_pages t'}" using W(4) P(1) by (simp add: t'_def)
    show "\<forall>i < base_pages t'. dirty_bit (dirty_bitmap t') i \<longleftrightarrow> i \<in> insert ?i D"
      using W(5) M(1) by (simp add: t'_def)
    show "pages_dirty t' = card (insert ?i D)" "t_writes t' = card (insert ?i D)"
      using W(6,7) M(2) new fin by (simp_all add: t'_def)
    show "\<forall>i < base_pages t'. readonly ?s (unat (t_lo t') div therm_page_size ?s + i) \<longleftrightarrow> i \<notin> insert ?i D"
      using W(8) ro P(2) by (simp add: t'_def after_fault_def)
  qed (rule al)
qed

text \<open>The stores of the program, one after the other; every store takes at most one fault.\<close>

fun store_all :: "therm_sys \<Rightarrow> mem \<Rightarrow> (ptr \<times> u8) list \<Rightarrow> (therm_sys \<times> mem) option" where
  "store_all s m [] = Some (s, m)"
| "store_all s m ((p, v) # ws) =
     (case store_byte 2 s m p v of
        Some (Stored s' m') \<Rightarrow> store_all s' m' ws
      | _ \<Rightarrow> None)"

fun poke :: "(ptr \<times> u8) list \<Rightarrow> mem \<Rightarrow> mem" where
  "poke [] m = m"
| "poke ((p, v) # ws) m = poke ws (m(p := v))"

definition same_range :: "therm_state \<Rightarrow> therm_state \<Rightarrow> bool" where
  "same_range t t' \<longleftrightarrow> t_lo t' = t_lo t \<and> t_hi t' = t_hi t \<and> base_pages t' = base_pages t \<and> baseline t' = baseline t"

lemma store_byte_watching:
  assumes w: "watching s t D" and p: "in_state t p \<or> \<not> readonly s (page_of s p)"
  obtains s' t' where "store_byte 2 s m p v = Some (Stored s' (m(p := v)))" "same_range t t'"
    "watching s' t' (D \<union> (if in_state t p then {page_idx s t p} else {}))"
    "therm_page_size s' = therm_page_size s" "page_bytes s' = page_bytes s" "\<And>g. readonly s' g \<Longrightarrow> readonly s g"
proof (cases "readonly s (page_of s p)")
  case False
  have "page_idx s t p \<in> D" if "in_state t p"
    using w that in_state_page(1,2) [of s t p] False unfolding watching_def by auto
  then have "D \<union> (if in_state t p then {page_idx s t p} else {}) = D" by auto
  moreover have "store_byte 2 s m p v = Some (Stored s (m(p := v)))"
    using False by (simp add: numeral_2_eq_2)
  ultimately show thesis using that [of s t] w by (simp add: same_range_def)
next
  case True
  then have a: "in_state t p" using p by blast
  have W: "alone s t" "whole_pages s t" "reaches_therm s t" using w unfolding watching_def by blast+
  have new: "page_idx s t p \<notin> D"
    using w a in_state_page(1,2) [OF W(2) a] True unfolding watching_def by auto
  note F = watching_fault [OF w a new]
  have pg: "page_of (after_fault s t p) p = page_of s p" by (simp add: page_of_def after_fault_def)
  have "segv_action s \<noteq> SigIgn" using W(3) by (auto simp: reaches_therm_def)
  then have "store_byte 2 s m p v = Some (Stored (after_fault s t p) (m(p := v)))"
    using True run_handler_fault [OF W(1,3) a] F(2) pg by (simp add: numeral_2_eq_2)
  moreover have "D \<union> (if in_state t p then {page_idx s t p} else {}) = insert (page_idx s t p) D" using a by simp
  moreover have "readonly s g" if "readonly (after_fault s t p) g" for g using that F(2) by (simp split: if_splits)
  moreover have "therm_page_size (after_fault s t p) = therm_page_size s" "page_bytes (after_fault s t p) = page_bytes s"
    by (simp_all add: after_fault_def)
  ultimately show thesis
    using that [of "after_fault s t p" "mark_dirty t (page_idx s t p)"] F(1) by (simp add: same_range_def)
qed

definition pages_written :: "therm_sys \<Rightarrow> therm_state \<Rightarrow> (ptr \<times> u8) list \<Rightarrow> nat set" where
  "pages_written s t ws = page_idx s t ` {a. in_state t a \<and> a \<in> fst ` set ws}"

lemma store_all_watching:
  assumes "watching s t D" "\<forall>(p, v) \<in> set ws. in_state t p \<or> \<not> readonly s (page_of s p)"
  shows "\<exists>s' t'. store_all s m ws = Some (s', poke ws m) \<and> same_range t t' \<and>
    watching s' t' (D \<union> pages_written s t ws) \<and> therm_page_size s' = therm_page_size s"
  using assms
proof (induction ws arbitrary: s t D m)
  case Nil
  then show ?case by (auto simp: same_range_def pages_written_def)
next
  case (Cons w ws)
  obtain p v where w: "w = (p, v)" by fastforce
  obtain s1 t1 where 1: "store_byte 2 s m p v = Some (Stored s1 (m(p := v)))" "same_range t t1"
    "watching s1 t1 (D \<union> (if in_state t p then {page_idx s t p} else {}))"
    "therm_page_size s1 = therm_page_size s" "page_bytes s1 = page_bytes s" "\<And>g. readonly s1 g \<Longrightarrow> readonly s g"
    using store_byte_watching [OF Cons.prems(1), of p m v] Cons.prems(2) w by auto
  have i: "in_state t1 = in_state t" "page_idx s1 t1 = page_idx s t" "page_of s1 = page_of s"
    using 1(2,4,5) by (auto simp: same_range_def in_state_def page_idx_def page_of_def fun_eq_iff)
  have "\<forall>(p, v) \<in> set ws. in_state t1 p \<or> \<not> readonly s1 (page_of s1 p)"
    using Cons.prems(2) 1(6) i by fastforce
  from Cons.IH [OF 1(3) this, of "m(p := v)"] obtain s2 t2 where
    2: "store_all s1 (m(p := v)) ws = Some (s2, poke ws (m(p := v)))" "same_range t1 t2"
    "watching s2 t2 (D \<union> (if in_state t p then {page_idx s t p} else {}) \<union> pages_written s1 t1 ws)"
    "therm_page_size s2 = therm_page_size s1" by blast
  have "D \<union> (if in_state t p then {page_idx s t p} else {}) \<union> pages_written s1 t1 ws = D \<union> pages_written s t (w # ws)"
    by (auto simp: pages_written_def i w)
  then show ?case using 1 2 w by (auto simp: same_range_def)
qed

lemma poke_other: "p \<notin> fst ` set ws \<Longrightarrow> poke ws m p = m p"
  by (induction ws m rule: poke.induct) auto

section \<open>Counting pages and bytes\<close>

lemma count_pages:
  assumes "watching s t D"
  shows "therm_current s = Some t" "filter (dirty_bit (dirty_bitmap t)) [0..<base_pages t] = sorted_list_of_set D"
proof -
  obtain ts where "therm_states s = ts @ [t]" using assms by (auto simp: watching_def alone_def)
  then show "therm_current s = Some t" by (simp add: therm_current_def)
  have D: "D = set (filter (dirty_bit (dirty_bitmap t)) [0..<base_pages t])"
    using assms by (auto simp: watching_def)
  show "filter (dirty_bit (dirty_bitmap t)) [0..<base_pages t] = sorted_list_of_set D"
    unfolding D by (subst sorted_list_of_set.idem_if_sorted_distinct) (simp_all add: sorted_wrt_filter)
qed

lemma count_blocks:
  "length (filter Q [0..<n * P]) = sum_list (map (\<lambda>i. length (filter (\<lambda>j. Q (i * P + j)) [0..<P])) [0..<n])"
proof (induction n)
  case 0
  then show ?case by simp
next
  case (Suc n)
  have "[0..<Suc n * P] = [0..<n * P] @ map (\<lambda>j. n * P + j) [0..<P]"
    using upt_add_eq_append [of 0 "n * P" P] by (simp add: add.commute map_add_upt)
  then show ?case using Suc by (simp add: filter_map comp_def)
qed

lemma changed_in_page_eq:
  assumes "therm_current s = Some t" "whole_pages s t" "i < base_pages t"
  shows "js_arena_thermometer_changed_in_page m (i * therm_page_size s) s =
    length (filter (\<lambda>j. m (t_lo t + of_nat (i * therm_page_size s + j)) \<noteq> baseline t ! (i * therm_page_size s + j))
      [0..<therm_page_size s])"
proof -
  let ?P = "therm_page_size s"
  have lo: "t_lo t \<le> t_hi t" using assms(2) by (simp add: whole_pages_def u64_le_iff)
  have sz: "unat (t_hi t - t_lo t) = base_pages t * ?P"
    using assms(2) unat_sub_le [OF lo] unfolding whole_pages_def by linarith
  have "(i + 1) * ?P \<le> base_pages t * ?P" using assms(3) by (intro mult_le_mono1) simp
  then have "i * ?P + ?P \<le> base_pages t * ?P" by simp
  moreover have "0 < ?P" using assms(2) by (simp add: whole_pages_def)
  ultimately show ?thesis
    using assms(1,3) by (simp add: js_arena_thermometer_changed_in_page_def sz Let_def min_def)
qed

lemma changed_bytes_eq:
  assumes w: "watching s t D"
    and clean: "\<And>i. i < base_pages t * therm_page_size s \<Longrightarrow> i div therm_page_size s \<notin> D \<Longrightarrow>
      m (t_lo t + of_nat i) = baseline t ! i"
  shows "js_arena_thermometer_changed_bytes m s =
    card {i. i < base_pages t * therm_page_size s \<and> m (t_lo t + of_nat i) \<noteq> baseline t ! i}"
proof -
  let ?P = "therm_page_size s" and ?Q = "\<lambda>i. m (t_lo t + of_nat i) \<noteq> baseline t ! i"
  have W: "whole_pages s t" "\<And>i. i < base_pages t \<Longrightarrow> dirty_bit (dirty_bitmap t) i \<longleftrightarrow> i \<in> D"
    using w unfolding watching_def by blast+
  have P: "0 < ?P" using W(1) by (simp add: whole_pages_def)
  have page: "(if dirty_bit (dirty_bitmap t) i then js_arena_thermometer_changed_in_page m (i * ?P) s else 0)
      = length (filter (\<lambda>j. ?Q (i * ?P + j)) [0..<?P])" if "i < base_pages t" for i
  proof (cases "i \<in> D")
    case True
    then show ?thesis using W(2) [OF that] changed_in_page_eq [OF count_pages(1) [OF w] W(1) that] by simp
  next
    case False
    have "\<not> ?Q (i * ?P + j)" if "j < ?P" for j
    proof -
      have "(i + 1) * ?P \<le> base_pages t * ?P" using \<open>i < base_pages t\<close> by (intro mult_le_mono1) simp
      then have "i * ?P + j < base_pages t * ?P" using that by simp
      moreover have "(i * ?P + j) div ?P = i" using that by simp
      ultimately show ?thesis using clean [of "i * ?P + j"] False by simp
    qed
    then show ?thesis using W(2) [OF \<open>i < base_pages t\<close>] False by (simp add: filter_empty_conv)
  qed
  have "js_arena_thermometer_changed_bytes m s
      = sum_list (map (\<lambda>i. length (filter (\<lambda>j. ?Q (i * ?P + j)) [0..<?P])) [0..<base_pages t])"
    unfolding js_arena_thermometer_changed_bytes_def count_pages(1) [OF w] option.case
    using page by (intro arg_cong [where f = sum_list] map_cong) simp_all
  also have "\<dots> = length (filter ?Q [0..<base_pages t * ?P])" by (simp only: count_blocks)
  also have "\<dots> = card {i. i < base_pages t * ?P \<and> ?Q i}"
    unfolding length_filter_conv_card by (intro arg_cong [where f = card]) (auto simp: nth_upt)
  finally show ?thesis .
qed

lemma in_window:
  assumes w: "whole_pages s t"
  shows "unat (t_lo t) div therm_page_size s \<le> page_of s p \<and>
    page_of s p < unat (t_lo t) div therm_page_size s + base_pages t \<longleftrightarrow> in_state t p"
proof -
  let ?P = "therm_page_size s" and ?q = "unat (t_lo t) div therm_page_size s"
  have W: "0 < ?P" "unat (t_lo t) = ?q * ?P" "unat (t_hi t) = (?q + base_pages t) * ?P"
    using w by (auto simp: whole_pages_def algebra_simps)
  have "?q \<le> unat p div ?P \<longleftrightarrow> unat (t_lo t) \<le> unat p"
    using W(1) less_eq_div_iff_mult_less_eq [of ?P ?q "unat p"] unfolding W(2) [symmetric] by simp
  moreover have "unat p div ?P < ?q + base_pages t \<longleftrightarrow> unat p < unat (t_hi t)"
    unfolding W(3) using W(1) by (simp add: div_less_iff_less_mult)
  moreover have "page_bytes s = ?P" using w by (simp add: whole_pages_def)
  ultimately show ?thesis by (simp add: page_of_def in_state_def u64_le_iff u64_less_iff)
qed

definition enabled :: "therm_sys \<Rightarrow> therm_state \<Rightarrow> bool" where
  "enabled s t \<longleftrightarrow> alone s t \<and> whole_pages s t \<and> reaches_therm s t"

lemma dirty_bit_zero:
  assumes "i < pages"
  shows "\<not> dirty_bit (replicate (bitmap_bytes pages) 0 @ ys) i"
proof -
  have "i div 8 < bitmap_bytes pages" using assms unfolding bitmap_bytes_def by linarith
  then show ?thesis by (simp add: dirty_bit_def nth_append)
qed

lemma whole_pages_size:
  assumes "whole_pages s t" shows "unat (t_hi t - t_lo t) = base_pages t * therm_page_size s"
proof -
  have "t_lo t \<le> t_hi t" using assms by (simp add: whole_pages_def u64_le_iff)
  then show ?thesis using assms unat_sub_le [of "t_lo t" "t_hi t"] unfolding whole_pages_def by linarith
qed

lemma reset_watching:
  assumes e: "enabled s t"
  obtains t' where "watching (js_arena_thermometer_reset m s) t' {}" "t_lo t' = t_lo t" "t_hi t' = t_hi t"
    "base_pages t' = base_pages t" "baseline t' = bytes_at m (t_lo t) (base_pages t * therm_page_size s)"
    "therm_page_size (js_arena_thermometer_reset m s) = therm_page_size s"
    "page_bytes (js_arena_thermometer_reset m s) = page_bytes s"
    "\<And>p. readonly (js_arena_thermometer_reset m s) (page_of s p) = (in_state t p \<or> readonly s (page_of s p))"
proof -
  have E: "alone s t" "whole_pages s t" "reaches_therm s t" using e by (simp_all add: enabled_def)
  let ?P = "therm_page_size s" and ?n = "bitmap_bytes (base_pages t)" and ?s = "js_arena_thermometer_reset m s"
  let ?q = "unat (t_lo t) div ?P"
  obtain ts where ts: "therm_states s = ts @ [t]" "\<forall>t' \<in> set ts. \<forall>a. \<not> (in_state t' a \<and> in_state t a)"
    using E(1) by (auto simp: alone_def)
  define t' where "t' = t\<lparr>baseline := bytes_at m (t_lo t) (base_pages t * ?P),
    dirty_bitmap := replicate ?n 0 @ drop ?n (dirty_bitmap t), t_writes := 0, pages_dirty := 0\<rparr>"
  have run: "?s = (mprotect s (t_lo t) (base_pages t * ?P) True)\<lparr>therm_states := ts @ [t']\<rparr>"
    using ts(1) by (simp add: js_arena_thermometer_reset_def therm_current_def whole_pages_size [OF E(2)] Let_def t'_def)
  have pb: "page_bytes s = ?P" using E(2) by (simp add: whole_pages_def)
  have lo: "unat (t_lo t) = page_bytes s * ?q" "0 < page_bytes s" using E(2) by (auto simp: whole_pages_def)
  have ro: "readonly ?s g = (if ?q \<le> g \<and> g < ?q + base_pages t then True else readonly s g)" for g
    unfolding run using readonly_mprotect [OF lo(2,1) refl] pb by simp
  have "alone ?s t'"
    unfolding alone_def using ts by (intro exI [of _ ts]) (simp add: run t'_def in_state_def)
  moreover have "whole_pages ?s t'" "reaches_therm ?s t'"
    using E(2,3) by (simp_all add: whole_pages_def reaches_therm_def run t'_def in_state_def)
  moreover have "\<not> dirty_bit (dirty_bitmap t') i" if "i < base_pages t" for i
    using dirty_bit_zero [OF that] by (simp add: t'_def)
  ultimately have "watching ?s t' {}"
    unfolding watching_def using ro by (simp add: t'_def run)
  then show thesis
    using that [of t'] ro in_window [OF E(2)] by (simp add: t'_def run)
qed

text \<open>
  C5. The thermometer is exact. After a reset of an enabled thermometer whose handler is reached and
  can lift the protection of a page, whatever bytes the program stores to the watched range and to
  writable memory elsewhere, every store takes effect. The page count is the number of watched pages
  that received a store, the reported offsets are those pages in ascending order, and the number of
  changed bytes is the number of bytes of the range that now differ from their value at the reset.
\<close>

theorem thermometer_exact:
  assumes "enabled s t" "\<forall>(p, v) \<in> set ws. in_state t p \<or> \<not> readonly s (page_of s p)"
  shows "\<exists>s'. store_all (js_arena_thermometer_reset m s) m ws = Some (s', poke ws m) \<and>
     js_arena_thermometer_pages s' = card (pages_written s t ws) \<and>
     js_arena_thermometer_dirty_offsets (card (pages_written s t ws)) s' =
       (map (\<lambda>i. i * therm_page_size s) (sorted_list_of_set (pages_written s t ws)), card (pages_written s t ws)) \<and>
     js_arena_thermometer_changed_bytes (poke ws m) s' =
       card {i. i < unat (t_hi t - t_lo t) \<and> poke ws m (t_lo t + of_nat i) \<noteq> m (t_lo t + of_nat i)}"
proof -
  let ?s = "js_arena_thermometer_reset m s" and ?P = "therm_page_size s" and ?D = "pages_written s t ws"
  obtain t1 where 1: "watching ?s t1 {}" "t_lo t1 = t_lo t" "t_hi t1 = t_hi t" "base_pages t1 = base_pages t"
    "baseline t1 = bytes_at m (t_lo t) (base_pages t * ?P)" "therm_page_size ?s = ?P" "page_bytes ?s = page_bytes s"
    "\<And>p. readonly ?s (page_of s p) = (in_state t p \<or> readonly s (page_of s p))"
    using reset_watching [OF assms(1), of m] by blast
  have i: "in_state t1 = in_state t" "page_idx ?s t1 = page_idx s t" "page_of ?s = page_of s"
    using 1 by (auto simp: in_state_def page_idx_def page_of_def fun_eq_iff)
  have "\<forall>(p, v) \<in> set ws. in_state t1 p \<or> \<not> readonly ?s (page_of ?s p)"
    using assms(2) by (auto simp: i 1(8))
  from store_all_watching [OF 1(1) this, of m] obtain s' t' where
    2: "store_all ?s m ws = Some (s', poke ws m)" "same_range t1 t'" "watching s' t' ?D" "therm_page_size s' = ?P"
    by (auto simp: pages_written_def i 1(6))
  have fin: "finite ?D" by (simp add: pages_written_def)
  note C = count_pages [OF 2(3)]
  have cnt: "pages_dirty t' = card ?D" using 2(3) unfolding watching_def by blast
  have t': "t_lo t' = t_lo t" "base_pages t' = base_pages t" "baseline t' = bytes_at m (t_lo t) (base_pages t * ?P)"
    using 1 2(2) by (simp_all add: same_range_def)
  have whole: "whole_pages s t" using assms(1) by (simp add: enabled_def)
  have base: "baseline t' ! i = m (t_lo t + of_nat i)" if "i < base_pages t * ?P" for i
    using that by (simp add: t' bytes_at_def)
  have clean: "poke ws m (t_lo t + of_nat i) = m (t_lo t + of_nat i)" if "i < base_pages t * ?P" "i div ?P \<notin> ?D" for i
  proof (rule poke_other, rule notI)
    let ?p = "t_lo t + of_nat i"
    assume p: "?p \<in> fst ` set ws"
    have hi: "unat (t_lo t) + base_pages t * ?P = unat (t_hi t)" using whole by (simp add: whole_pages_def)
    have sum: "unat (t_lo t) + i < 18446744073709551616"
      using that(1) hi unat_u64_less [of "t_hi t"] by linarith
    then have of: "unat (of_nat i :: u64) = i" by (intro unat_of_nat_u64) simp
    have u: "unat (?p - t_lo t) = i" using of by simp
    have "unat ?p = unat (t_lo t) + i"
      using sum of by (subst unat_add_no_wrap) simp_all
    then have "in_state t ?p" using that(1) hi by (simp add: in_state_def u64_le_iff u64_less_iff)
    then have "page_idx s t ?p \<in> ?D" using p by (auto simp: pages_written_def)
    then show False using that(2) u by (simp add: page_idx_def)
  qed
  have "js_arena_thermometer_changed_bytes (poke ws m) s' =
      card {i. i < base_pages t * ?P \<and> poke ws m (t_lo t + of_nat i) \<noteq> baseline t' ! i}"
    using changed_bytes_eq [OF 2(3), of "poke ws m"] base clean by (simp add: t' 2(4))
  also have "{i. i < base_pages t * ?P \<and> poke ws m (t_lo t + of_nat i) \<noteq> baseline t' ! i} =
      {i. i < unat (t_hi t - t_lo t) \<and> poke ws m (t_lo t + of_nat i) \<noteq> m (t_lo t + of_nat i)}"
    using base by (auto simp: whole_pages_size [OF whole])
  finally have "js_arena_thermometer_changed_bytes (poke ws m) s' =
       card {i. i < unat (t_hi t - t_lo t) \<and> poke ws m (t_lo t + of_nat i) \<noteq> m (t_lo t + of_nat i)}" .
  then show ?thesis
    using 2(1) C cnt fin 2(4)
    by (auto simp: js_arena_thermometer_pages_def js_arena_thermometer_dirty_offsets_def Let_def t')
qed

section \<open>The tripwire\<close>

lemma run_handler_foreign:
  assumes "therm_find_for s p = None" "run_handler n h p s = Some (s1, r)"
  shows "readonly s1 = readonly s \<and> page_bytes s1 = page_bytes s \<and> therm_states s1 = therm_states s"
  using assms by (induction n h p s rule: run_handler.induct) (auto split: handler.splits option.splits)

lemma store_byte_readonly:
  assumes "readonly s (page_of s p)" "therm_find_for s p = None"
  shows "store_byte n s m p v \<noteq> Some (Stored s' m')"
  using assms
proof (induction n arbitrary: s)
  case 0
  then show ?case by simp
next
  case (Suc n)
  have "store_byte n s1 m p v \<noteq> Some (Stored s' m')" if "run_handler 8 (segv_action s) p s = Some (s1, Retry)" for s1
    using run_handler_foreign [OF Suc.prems(2) that] Suc.prems
    by (intro Suc.IH) (simp_all add: page_of_def therm_find_for_def)
  then show ?case
    using Suc.prems(1) by (auto split: option.splits after.splits)
qed

text \<open>The base buffers of the process: whole pages that do not overlap.\<close>

definition base_block :: "nat \<Rightarrow> ptr \<Rightarrow> nat \<Rightarrow> bool" where
  "base_block P b n \<longleftrightarrow> 0 < n \<and> 0 < unat b \<and> unat b mod P = 0 \<and> n mod P = 0 \<and> unat b + n < 2 ^ 64"

definition inside :: "ptr \<Rightarrow> nat \<Rightarrow> ptr \<Rightarrow> bool" where
  "inside b n p \<longleftrightarrow> unat b \<le> unat p \<and> unat p < unat b + n"

definition bases_ok :: "nat \<Rightarrow> (ptr \<times> nat) set \<Rightarrow> bool" where
  "bases_ok P B \<longleftrightarrow> 0 < P \<and> (\<forall>(b, n) \<in> B. base_block P b n) \<and>
     (\<forall>(b, n) \<in> B. \<forall>(c, k) \<in> B. \<forall>p. inside b n p \<and> inside c k p \<longrightarrow> b = c \<and> n = k)"

lemma mprotect_block:
  assumes "0 < page_bytes s" "base_block (page_bytes s) b n"
  shows "readonly (mprotect s b n ro) (page_of s p) = (if inside b n p then ro else readonly s (page_of s p))"
proof -
  let ?P = "page_bytes s" and ?k = "unat b div page_bytes s" and ?j = "n div page_bytes s"
  have B: "unat b = ?P * ?k" "n = ?j * ?P" using assms(2) by (auto simp: base_block_def)
  have "?k \<le> unat p div ?P \<longleftrightarrow> unat b \<le> unat p"
    using assms(1) less_eq_div_iff_mult_less_eq [of ?P ?k "unat p"] B(1) by (simp add: mult.commute)
  moreover have "unat p div ?P < ?k + ?j \<longleftrightarrow> unat p < (?k + ?j) * ?P"
    using assms(1) by (simp add: div_less_iff_less_mult)
  moreover have "(?k + ?j) * ?P = unat b + n" using B by (simp add: algebra_simps)
  ultimately show ?thesis
    using readonly_mprotect [OF assms(1) B, of ro "page_of s p"] by (simp add: page_of_def inside_def)
qed

lemma compact_set:
  assumes "i < length xs" "distinct (map f xs)"
  shows "set (compact i xs) = set xs - {xs ! i}" "distinct (map f (compact i xs))"
proof -
  obtain ys z where xs: "xs = ys @ [z]" using assms(1) by (cases xs rule: rev_cases) auto
  have d: "distinct (map f ys)" "f z \<notin> f ` set ys" using assms(2) xs by auto
  then have dy: "distinct ys" "z \<notin> set ys" by (auto simp: distinct_map)
  show "set (compact i xs) = set xs - {xs ! i}"
  proof (cases "i = length ys")
    case True
    then show ?thesis using xs dy by (auto simp: compact_def)
  next
    case False
    then have i: "i < length ys" using assms(1) xs by simp
    then have "compact i xs = ys[i := z]" using xs by (simp add: compact_def list_update_append butlast_append)
    moreover have "set (ys[i := z]) = insert z (set ys - {ys ! i})" by (rule set_update_distinct [OF dy(1) i])
    moreover have "xs ! i = ys ! i" "ys ! i \<noteq> z" using i xs dy(2) by (auto simp: nth_append)
    ultimately show ?thesis using xs by auto
  qed
  show "distinct (map f (compact i xs))"
  proof (cases "i = length ys")
    case True
    then show ?thesis using xs d by (simp add: compact_def)
  next
    case False
    then have i: "i < length ys" using assms(1) xs by simp
    then have "compact i xs = ys[i := z]" using xs by (simp add: compact_def list_update_append butlast_append)
    moreover have "distinct ((map f ys)[i := f z])" using d by (intro distinct_list_update) auto
    ultimately show ?thesis by (simp add: map_update)
  qed
qed

lemma find_index_Some:
  "find_index P xs = Some i \<Longrightarrow> i < length xs \<and> P (xs ! i)"
  by (induction xs arbitrary: i) (auto split: if_splits)

text \<open>
  The part of the state that matters for the two mechanisms: the spans they own and the bytes that
  are read-only. No base is owned by both, and every byte of a hardened base is read-only.
\<close>

definition guard_view :: "(ptr \<times> nat) set \<Rightarrow> (ptr \<times> ptr) list \<Rightarrow> (ptr \<times> ptr) list \<Rightarrow> (ptr \<Rightarrow> bool) \<Rightarrow> bool" where
  "guard_view B ts hs ro \<longleftrightarrow>
     (\<forall>(lo, hi) \<in> set ts. lo \<le> hi \<and> (lo, unat (hi - lo)) \<in> B) \<and> distinct (map fst ts) \<and>
     (\<forall>(lo, hi) \<in> set hs. lo \<le> hi \<and> (lo, unat (hi - lo)) \<in> B) \<and> distinct (map fst hs) \<and>
     fst ` set ts \<inter> fst ` set hs = {} \<and>
     (\<forall>(lo, hi) \<in> set hs. \<forall>p. lo \<le> p \<and> p < hi \<longrightarrow> ro p)"

definition t_spans :: "therm_sys \<Rightarrow> (ptr \<times> ptr) list" where
  "t_spans s = map (\<lambda>t. (t_lo t, t_hi t)) (therm_states s)"

definition h_spans :: "therm_sys \<Rightarrow> (ptr \<times> ptr) list" where
  "h_spans s = map (\<lambda>r. (h_lo r, h_hi r)) (hard_ranges s)"

definition guards :: "nat \<Rightarrow> (ptr \<times> nat) set \<Rightarrow> therm_sys \<Rightarrow> bool" where
  "guards P B s \<longleftrightarrow>
     page_bytes s = P \<and> (therm_page_size s = 0 \<or> therm_page_size s = P) \<and>
     (t_spans s \<noteq> [] \<longrightarrow> therm_page_size s = P) \<and>
     guard_view B (t_spans s) (h_spans s) (\<lambda>p. readonly s (page_of s p))"

lemma span_inside:
  assumes "lo \<le> hi" shows "lo \<le> p \<and> p < hi \<longleftrightarrow> inside lo (unat (hi - lo)) p"
  using assms by (auto simp: inside_def u64_le_iff u64_less_iff unat_sub_le)

lemma guard_view_apart:
  assumes "guard_view B ts hs ro" "(lo, hi) \<in> set ts" "(lo', hi') \<in> set hs"
  shows "lo \<noteq> lo'"
proof -
  have "lo \<in> fst ` set ts" "lo' \<in> fst ` set hs" using assms(2,3) by force+
  then show ?thesis using assms(1) unfolding guard_view_def by blast
qed

lemma guard_view_ro:
  assumes "guard_view B ts hs ro" "\<And>lo hi p. (lo, hi) \<in> set hs \<Longrightarrow> lo \<le> p \<Longrightarrow> p < hi \<Longrightarrow> ro p \<Longrightarrow> ro' p"
  shows "guard_view B ts hs ro'"
  using assms unfolding guard_view_def by fast

lemma guard_view_add_t:
  assumes "guard_view B ts hs ro" "lo \<le> hi" "(lo, unat (hi - lo)) \<in> B" "lo \<notin> fst ` set ts" "lo \<notin> fst ` set hs"
  shows "guard_view B (ts @ [(lo, hi)]) hs ro"
  using assms unfolding guard_view_def by auto

lemma guard_view_add_h:
  assumes "guard_view B ts hs ro" "lo \<le> hi" "(lo, unat (hi - lo)) \<in> B" "lo \<notin> fst ` set ts" "lo \<notin> fst ` set hs"
    and "\<And>p. lo \<le> p \<Longrightarrow> p < hi \<Longrightarrow> ro p"
  shows "guard_view B ts (hs @ [(lo, hi)]) ro"
  using assms unfolding guard_view_def by auto

lemma guard_view_del_t:
  assumes "guard_view B ts hs ro" "i < length ts"
  shows "guard_view B (compact i ts) hs ro"
proof -
  have "distinct (map fst ts)" using assms(1) by (simp add: guard_view_def)
  note C = compact_set [OF assms(2) this]
  show ?thesis using assms(1) C unfolding guard_view_def by auto
qed

lemma guard_view_del_h:
  assumes "guard_view B ts hs ro" "i < length hs"
    and "\<And>lo hi p. (lo, hi) \<in> set hs \<Longrightarrow> lo \<noteq> fst (hs ! i) \<Longrightarrow> lo \<le> p \<Longrightarrow> p < hi \<Longrightarrow> ro p \<Longrightarrow> ro' p"
  shows "guard_view B ts (compact i hs) ro'"
proof -
  have d: "distinct (map fst hs)" using assms(1) by (simp add: guard_view_def)
  note C = compact_set [OF assms(2) d]
  have ne: "lo \<noteq> fst (hs ! i)" if "(lo, hi) \<in> set hs - {hs ! i}" for lo hi
    using that d assms(2) by (metis DiffD1 DiffD2 distinct_map fst_conv inj_onD insertI1 nth_mem)
  have "ro' p" if "(lo, hi) \<in> set (compact i hs)" "lo \<le> p" "p < hi" for lo hi p
    using that ne [of lo hi] assms(1) unfolding C(1) guard_view_def by (intro assms(3) [of lo hi]) auto
  then show ?thesis using assms(1) C unfolding guard_view_def by auto
qed

text \<open>A change of the protection of one base does not touch the hardened bytes of another base.\<close>

lemma other_base:
  assumes "bases_ok P B" "lo \<le> hi" "(lo, unat (hi - lo)) \<in> B" "(b, n) \<in> B" "lo \<noteq> b" "lo \<le> p" "p < hi"
  shows "\<not> inside b n p"
proof
  assume b: "inside b n p"
  have "inside lo (unat (hi - lo)) p" using span_inside [OF assms(2)] assms(6,7) by blast
  with b show False using assms(1,3-5) unfolding bases_ok_def by blast
qed

lemma mprotect_base:
  assumes "bases_ok P B" "page_bytes s = P" "(b, n) \<in> B"
  shows "readonly (mprotect s b n ro) (page_of (mprotect s b n ro) p) = (if inside b n p then ro else readonly s (page_of s p))"
proof -
  have "0 < page_bytes s" "base_block (page_bytes s) b n" using assms by (auto simp: bases_ok_def)
  then show ?thesis using mprotect_block [of s b n ro p] by (simp add: page_of_def)
qed

lemma compact_map: "i < length xs \<Longrightarrow> map f (compact i xs) = compact i (map f xs)"
  by (cases "xs = []") (auto simp: compact_def map_butlast map_update last_map)

lemma same_page_inside:
  assumes "0 < P" "base_block P b n" "inside b n p" "unat q div P = unat p div P"
  shows "inside b n q"
proof -
  let ?s = "\<lparr>therm_states = [], therm_handler_installed = False, therm_prev_sa = SigDfl, therm_page_size = 0,
    therm_trace_lo = 0, therm_trace_hi = 0, hard_ranges = [], hard_handler_installed = False, hard_prev_sa = SigDfl,
    segv_action = SigDfl, page_bytes = P, readonly = (\<lambda>_. False)\<rparr>"
  have "page_of ?s q = page_of ?s p" using assms(4) by (simp add: page_of_def)
  then show ?thesis
    using mprotect_block [of ?s b n True p] mprotect_block [of ?s b n True q] assms(1-3) by (simp split: if_splits)
qed

lemma guardsD:
  assumes "guards P B s"
  shows "page_bytes s = P" "therm_page_size s = 0 \<or> therm_page_size s = P" "t_spans s \<noteq> [] \<Longrightarrow> therm_page_size s = P"
    "guard_view B (t_spans s) (h_spans s) (\<lambda>p. readonly s (page_of s p))"
  using assms unfolding guards_def by blast+

lemma fault_guards:
  assumes B: "bases_ok P B" and g: "guards P B s" and f: "therm_find_for s p = Some i"
  defines "t \<equiv> therm_states s ! i"
  defines "idx \<equiv> unat (p - t_lo t) div therm_page_size s"
  shows "guards P B (mprotect (s\<lparr>therm_states := (therm_states s)[i := mark_dirty t idx]\<rparr>)
            (t_lo t + of_nat (idx * therm_page_size s)) (therm_page_size s) False)" (is "guards P B ?s")
proof -
  note G = guardsD [OF g]
  have i: "i < length (therm_states s)" "t_lo t \<le> p" "p < t_hi t"
    using find_index_Some [of _ "therm_states s" i] f by (auto simp: therm_find_for_def t_def)
  have tin: "(t_lo t, t_hi t) \<in> set (t_spans s)" using i(1) by (auto simp: t_spans_def t_def)
  have tp: "therm_page_size s = P" using G(3) tin by fastforce
  have tB: "t_lo t \<le> t_hi t" "(t_lo t, unat (t_hi t - t_lo t)) \<in> B"
    using G(4) tin unfolding guard_view_def by auto
  have P0: "0 < P" and blk: "base_block P (t_lo t) (unat (t_hi t - t_lo t))" using B tB(2) by (auto simp: bases_ok_def)
  have ip: "inside (t_lo t) (unat (t_hi t - t_lo t)) p" using span_inside [OF tB(1)] i(2,3) by blast
  have w: "whole_pages (s\<lparr>therm_page_size := P, page_bytes := P\<rparr>)
      (t\<lparr>base_pages := unat (t_hi t - t_lo t) div P, dirty_bitmap := replicate (bitmap_bytes (unat (t_hi t - t_lo t) div P)) 0\<rparr>)"
    using P0 blk tB(1) by (auto simp: whole_pages_def base_block_def unat_sub_le u64_le_iff)
  have pg: "unat (t_lo t + of_nat (idx * P)) = P * (unat p div P)"
    using in_state_page(2,4) [OF w, of p] i(2,3) tp G(1) by (simp add: in_state_def page_idx_def page_of_def idx_def)
  have spans: "t_spans ?s = t_spans s" "h_spans ?s = h_spans s"
    using i(1) by (simp_all add: t_spans_def h_spans_def map_update t_def list_update_same_conv)
  have ro: "readonly ?s (page_of ?s q)" if q: "(lo, hi) \<in> set (h_spans s)" "lo \<le> q" "q < hi" "readonly s (page_of s q)" for lo hi q
  proof -
    have lo: "lo \<le> hi" "(lo, unat (hi - lo)) \<in> B" using G(4) q(1) unfolding guard_view_def by auto
    have "lo \<noteq> t_lo t" using guard_view_apart [OF G(4) tin q(1)] by blast
    then have "\<not> inside (t_lo t) (unat (t_hi t - t_lo t)) q" using other_base [OF B lo tB(2) _ q(2,3)] by blast
    then have "unat q div P \<noteq> unat p div P" using same_page_inside [OF P0 blk ip] by blast
    then have no: "\<not> (unat p div P \<le> unat q div P \<and> unat q div P < unat p div P + 1)" by linarith
    let ?u = "s\<lparr>therm_states := (therm_states s)[i := mark_dirty t idx]\<rparr>"
    have pb: "page_bytes ?u = P" using G(1) by simp
    have "readonly (mprotect ?u (t_lo t + of_nat (idx * P)) P False) (unat q div P) =
        (if unat p div P \<le> unat q div P \<and> unat q div P < unat p div P + 1 then False else readonly ?u (unat q div P))"
      by (rule readonly_mprotect) (simp_all only: pb P0 pg mult_1)
    then have "readonly ?s (unat q div P) = readonly ?u (unat q div P)"
      unfolding if_not_P [OF no] tp by (simp only:)
    then show ?thesis using q(4) G(1) by (simp add: page_of_def)
  qed
  have "guard_view B (t_spans ?s) (h_spans ?s) (\<lambda>q. readonly ?s (page_of ?s q))"
    unfolding spans by (rule guard_view_ro [OF G(4) ro])
  then show ?thesis using G(1-3) spans by (simp add: guards_def)
qed

lemma run_handler_guards:
  assumes "bases_ok P B" "guards P B s" "run_handler n h p s = Some (s1, r)"
  shows "guards P B s1"
  using assms(2,3)
proof (induction n h p s rule: run_handler.induct)
  case (1 h p s)
  then show ?case by simp
next
  case (2 n h p s)
  have dfl: "guards P B (s\<lparr>segv_action := SigDfl\<rparr>)"
    using 2(3) by (auto simp: guards_def t_spans_def h_spans_def page_of_def)
  show ?case
  proof (cases h)
    case ThermSegv
    then show ?thesis
      using 2(1) [OF ThermSegv _ 2(3)] 2(4) fault_guards [OF assms(1) 2(3)]
      by (auto simp: Let_def split: option.splits)
  next
    case HardSegv
    then show ?thesis using 2(2) [OF HardSegv _ 2(3)] 2(4) dfl by (auto split: option.splits)
  qed (use 2(3,4) dfl in auto)
qed

lemma store_byte_guards:
  assumes "bases_ok P B" "guards P B s" "store_byte n s m p v = Some (Stored s1 m1)"
  shows "guards P B s1"
  using assms(2,3)
proof (induction n arbitrary: s)
  case 0
  then show ?case by simp
next
  case (Suc n)
  show ?case
    using Suc.prems Suc.IH [OF run_handler_guards [OF assms(1) Suc.prems(1)]]
    by (auto split: if_splits option.splits after.splits)
qed

lemma guards_view_only:
  assumes "guards P B s" "page_bytes s' = page_bytes s" "therm_page_size s' = therm_page_size s"
    "t_spans s' = t_spans s" "h_spans s' = h_spans s" "readonly s' = readonly s"
  shows "guards P B s'"
  using assms by (auto simp: guards_def page_of_def)

lemma install_view:
  assumes "therm_install_handler e s = (s1, ok)"
  shows "page_bytes s1 = page_bytes s" "therm_page_size s1 = therm_page_size s" "t_spans s1 = t_spans s"
    "h_spans s1 = h_spans s" "readonly s1 = readonly s" "therm_states s1 = therm_states s"
  using assms by (auto simp: therm_install_handler_def t_spans_def h_spans_def split: if_splits)

lemma uninstall_view:
  "page_bytes (therm_uninstall_handler_if_idle s) = page_bytes s"
  "therm_page_size (therm_uninstall_handler_if_idle s) = therm_page_size s"
  "t_spans (therm_uninstall_handler_if_idle s) = t_spans s"
  "h_spans (therm_uninstall_handler_if_idle s) = h_spans s"
  "readonly (therm_uninstall_handler_if_idle s) = readonly s"
  by (simp_all add: therm_uninstall_handler_if_idle_def t_spans_def h_spans_def)

lemma guards_harden_more:
  assumes B: "bases_ok P B" and g: "guards P B s" and b: "(b, n) \<in> B"
  shows "guards P B (mprotect s b n True)"
proof -
  note G = guardsD [OF g]
  have "t_spans (mprotect s b n True) = t_spans s" "h_spans (mprotect s b n True) = h_spans s"
    by (simp_all add: t_spans_def h_spans_def)
  moreover have "guard_view B (t_spans s) (h_spans s) (\<lambda>p. readonly (mprotect s b n True) (page_of (mprotect s b n True) p))"
    using mprotect_base [OF B G(1) b, of True] by (intro guard_view_ro [OF G(4)]) simp
  ultimately show ?thesis using G(1-3) by (simp add: guards_def)
qed

lemma enable_guards:
  assumes B: "bases_ok P B" and g: "guards P B s" and b: "(lo, unat (hi - lo)) \<in> B" "lo \<le> hi"
    and e: "te_pagesize e = P" and run: "js_arena_thermometer_enable_range e m lo hi s = (s', ok)"
  shows "guards P B s'"
proof -
  define u where "u = (if therm_page_size s = 0 then s\<lparr>therm_page_size := te_pagesize e\<rparr> else s)"
  have gu: "guards P B u"
    using g e by (auto simp: guards_def u_def t_spans_def h_spans_def page_of_def)
  have up: "therm_page_size u = P" using guardsD(2) [OF g] e by (auto simp: u_def)
  have same: "therm_states u = therm_states s" "hard_ranges u = hard_ranges s" by (simp_all add: u_def)
  obtain s1 ok1 where i: "therm_install_handler e u = (s1, ok1)" by fastforce
  note I = install_view [OF i]
  have g1: "guards P B s1" by (rule guards_view_only [OF gu I(1-5)])
  have g2: "guards P B (mprotect s1 lo (unat (hi - lo)) True)" by (rule guards_harden_more [OF B g1 b(1)])
  have "guards P B (mprotect s1 lo (unat (hi - lo)) True\<lparr>therm_states := therm_states s1 @ [t]\<rparr>)" (is "guards P B ?n")
    if t: "t_lo t = lo" "t_hi t = hi" and new: "therm_find_by_lo s lo = None" "hard_find s lo = None" for t
  proof -
    have "lo \<notin> fst ` set (t_spans s1)" "lo \<notin> fst ` set (h_spans s1)"
      using new same unfolding I(3,4) therm_find_by_lo_def hard_find_def find_index_None
      by (auto simp: t_spans_def h_spans_def)
    then have "guard_view B (t_spans s1 @ [(lo, hi)]) (h_spans s1) (\<lambda>p. readonly (mprotect s1 lo (unat (hi - lo)) True) (page_of s1 p))"
      using guardsD(4) [OF g2] b by (intro guard_view_add_t) (simp_all add: t_spans_def h_spans_def page_of_def)
    then show ?thesis
      using guardsD [OF g2] up I(2) by (simp add: guards_def t_spans_def h_spans_def page_of_def t)
  qed
  then show ?thesis
    using run gu g g1 guards_view_only [OF g1 uninstall_view] unfolding js_arena_thermometer_enable_range_def
    by (auto simp: Let_def i u_def [symmetric] split: if_splits)
qed

lemma disable_guards:
  assumes B: "bases_ok P B" and g: "guards P B s"
  shows "guards P B (js_arena_thermometer_disable_range lo hi s)"
proof (cases "therm_find_by_lo s lo")
  case None
  then show ?thesis using g by (simp add: js_arena_thermometer_disable_range_def)
next
  case (Some i)
  note G = guardsD [OF g]
  let ?t = "therm_states s ! i"
  have i: "i < length (therm_states s)" using find_index_Some Some by (fastforce simp: therm_find_by_lo_def)
  have tin: "(t_lo ?t, t_hi ?t) \<in> set (t_spans s)" using i by (auto simp: t_spans_def)
  have tB: "(t_lo ?t, unat (t_hi ?t - t_lo ?t)) \<in> B" using G(4) tin unfolding guard_view_def by auto
  define u where "u = mprotect s (t_lo ?t) (unat (t_hi ?t - t_lo ?t)) False"
  have ro: "readonly u (page_of u p)" if p: "(lo, hi) \<in> set (h_spans s)" "lo \<le> p" "p < hi" "readonly s (page_of s p)" for lo hi p
  proof -
    have "lo \<le> hi" "(lo, unat (hi - lo)) \<in> B" using G(4) p(1) unfolding guard_view_def by auto
    then have "\<not> inside (t_lo ?t) (unat (t_hi ?t - t_lo ?t)) p"
      using other_base [OF B _ _ tB _ p(2,3)] guard_view_apart [OF G(4) tin p(1)] by metis
    then show ?thesis using mprotect_base [OF B G(1) tB, of False p] p(4) by (simp add: u_def)
  qed
  have v: "guard_view B (t_spans s) (h_spans s) (\<lambda>p. readonly u (page_of u p))" by (rule guard_view_ro [OF G(4) ro])
  have "guard_view B (compact i (t_spans s)) (h_spans s) (\<lambda>p. readonly u (page_of u p))"
    using i by (intro guard_view_del_t [OF v]) (simp add: t_spans_def)
  moreover have "therm_page_size s = P" using G(3) tin by fastforce
  ultimately have "guards P B (u\<lparr>therm_states := compact i (therm_states s)\<rparr>)"
    using G(1) compact_map [OF i, of "\<lambda>t. (t_lo t, t_hi t)"]
    by (auto simp: guards_def t_spans_def h_spans_def page_of_def u_def)
  then show ?thesis
    using guards_view_only [OF _ uninstall_view] Some
    by (simp add: js_arena_thermometer_disable_range_def Let_def u_def)
qed

lemma reset_guards:
  assumes B: "bases_ok P B" and g: "guards P B s"
  shows "guards P B (js_arena_thermometer_reset m s)"
proof (cases "therm_states s" rule: rev_cases)
  case Nil
  then show ?thesis using g by (simp add: js_arena_thermometer_reset_def therm_current_def)
next
  case (snoc ts t)
  then have "(t_lo t, t_hi t) \<in> set (t_spans s)" by (simp add: t_spans_def)
  then have "(t_lo t, unat (t_hi t - t_lo t)) \<in> B" using guardsD(4) [OF g] unfolding guard_view_def by auto
  from guards_harden_more [OF B g this] show ?thesis
    by (rule guards_view_only)
      (simp_all add: js_arena_thermometer_reset_def therm_current_def snoc Let_def t_spans_def h_spans_def)
qed

lemma harden_guards:
  assumes B: "bases_ok P B" and g: "guards P B s" and b: "(b, n) \<in> B"
    and run: "js_dual_arena_harden_range e frozen b n s = (s', ok)"
  shows "guards P B s'"
proof -
  define u where "u = (if hard_handler_installed s then s
    else s\<lparr>hard_prev_sa := segv_action s, segv_action := HardSegv, hard_handler_installed := True\<rparr>)"
  have gu: "guards P B u" using g by (auto simp: guards_def u_def t_spans_def h_spans_def page_of_def)
  have same: "therm_states u = therm_states s" "hard_ranges u = hard_ranges s" "page_bytes u = page_bytes s" by (simp_all add: u_def)
  note G = guardsD [OF guards_harden_more [OF B gu b]]
  let ?u = "mprotect u b n True"
  have blk: "unat b + n < 2 ^ 64" using B b by (auto simp: bases_ok_def base_block_def)
  then have nn: "unat (of_nat n :: u64) = n" by (intro unat_of_nat_u64) simp
  have hi: "b \<le> b + of_nat n" "unat (b + of_nat n - b) = n"
    using blk nn by (simp_all add: u64_le_iff unat_add_no_wrap)
  have add: "guards P B (?u\<lparr>hard_ranges := hard_ranges u @ [\<lparr>h_lo = b, h_hi = b + of_nat n\<rparr>]\<rparr>)"
    if new: "therm_find_by_lo s b = None" "hard_find s b = None"
  proof -
    have fresh: "b \<notin> fst ` set (t_spans ?u)" "b \<notin> fst ` set (h_spans ?u)"
      using new same unfolding therm_find_by_lo_def hard_find_def find_index_None
      by (auto simp: t_spans_def h_spans_def)
    have "readonly ?u (page_of ?u p)" if "b \<le> p" "p < b + of_nat n" for p
      using mprotect_base [OF B guardsD(1) [OF gu] b, of True p] span_inside [OF hi(1), of p] that hi(2) by simp
    then have "guard_view B (t_spans ?u) (h_spans ?u @ [(b, b + of_nat n)]) (\<lambda>p. readonly ?u (page_of ?u p))"
      using hi b by (intro guard_view_add_h [OF G(4) _ _ fresh]) simp_all
    then show ?thesis using G(1-3) by (simp add: guards_def t_spans_def h_spans_def page_of_def)
  qed
  have undo: "guards P B (u\<lparr>segv_action := h, hard_handler_installed := False\<rparr>)" for h
    by (rule guards_view_only [OF gu]) (simp_all add: t_spans_def h_spans_def)
  show ?thesis
    using run g gu undo add unfolding js_dual_arena_harden_range_def
    by (auto simp: Let_def u_def [symmetric] split: if_splits)
qed

lemma unharden_guards:
  assumes B: "bases_ok P B" and g: "guards P B s" and b: "(b, n) \<in> B"
    and run: "js_dual_arena_unharden_range b n s = (s', ok)"
  shows "guards P B s'"
proof (cases "hard_find s b")
  case None
  then show ?thesis using g run by (simp add: js_dual_arena_unharden_range_def)
next
  case (Some i)
  note G = guardsD [OF g]
  have i: "i < length (hard_ranges s)" "h_lo (hard_ranges s ! i) = b"
    using find_index_Some [of _ "hard_ranges s" i] Some by (auto simp: hard_find_def)
  define u where "u = mprotect s b n False"
  have ro: "readonly u (page_of u p)"
    if p: "(lo, hi) \<in> set (h_spans s)" "lo \<noteq> fst (h_spans s ! i)" "lo \<le> p" "p < hi" "readonly s (page_of s p)" for lo hi p
  proof -
    have lo: "lo \<le> hi" "(lo, unat (hi - lo)) \<in> B" using G(4) p(1) unfolding guard_view_def by auto
    have "lo \<noteq> b" using p(2) i by (simp add: h_spans_def)
    then have "\<not> inside b n p" using other_base [OF B lo b _ p(3,4)] by blast
    then show ?thesis using mprotect_base [OF B G(1) b, of False p] p(5) by (simp add: u_def)
  qed
  have "guard_view B (t_spans s) (compact i (h_spans s)) (\<lambda>p. readonly u (page_of u p))"
    using i(1) by (intro guard_view_del_h [OF G(4) _ ro]) (simp add: h_spans_def)
  then have g1: "guards P B (u\<lparr>hard_ranges := compact i (hard_ranges s)\<rparr>)"
    using G(1-3) compact_map [OF i(1), of "\<lambda>r. (h_lo r, h_hi r)"]
    by (auto simp: guards_def t_spans_def h_spans_def page_of_def u_def)
  have g2: "guards P B (u\<lparr>hard_ranges := compact i (hard_ranges s), segv_action := h, hard_handler_installed := False\<rparr>)" for h
    by (rule guards_view_only [OF g1]) (simp_all add: t_spans_def h_spans_def)
  show ?thesis
    using run Some g1 g2 by (auto simp: js_dual_arena_unharden_range_def Let_def u_def split: if_splits)
qed

text \<open>
  The states the two mechanisms can reach: the host enables, resets and disables the thermometer and
  hardens and unhardens its bases in any order, and the program stores bytes anywhere.
\<close>

inductive guard_reach :: "nat \<Rightarrow> (ptr \<times> nat) set \<Rightarrow> therm_sys \<Rightarrow> bool" for P B where
  start: "therm_states s = [] \<Longrightarrow> hard_ranges s = [] \<Longrightarrow> therm_page_size s = 0 \<Longrightarrow> page_bytes s = P \<Longrightarrow>
    guard_reach P B s"
| enable: "guard_reach P B s \<Longrightarrow> (lo, unat (hi - lo)) \<in> B \<Longrightarrow> lo \<le> hi \<Longrightarrow> te_pagesize e = P \<Longrightarrow>
    js_arena_thermometer_enable_range e m lo hi s = (s', ok) \<Longrightarrow> guard_reach P B s'"
| disable: "guard_reach P B s \<Longrightarrow> guard_reach P B (js_arena_thermometer_disable_range lo hi s)"
| reset: "guard_reach P B s \<Longrightarrow> guard_reach P B (js_arena_thermometer_reset m s)"
| harden: "guard_reach P B s \<Longrightarrow> (b, n) \<in> B \<Longrightarrow> js_dual_arena_harden_range e frozen b n s = (s', ok) \<Longrightarrow>
    guard_reach P B s'"
| unharden: "guard_reach P B s \<Longrightarrow> (b, n) \<in> B \<Longrightarrow> js_dual_arena_unharden_range b n s = (s', ok) \<Longrightarrow>
    guard_reach P B s'"
| store: "guard_reach P B s \<Longrightarrow> store_byte n s m p v = Some (Stored s' m') \<Longrightarrow> guard_reach P B s'"

lemma guard_reach_guards:
  assumes "bases_ok P B" "guard_reach P B s"
  shows "guards P B s"
  using assms(2)
proof induction
  case (start s)
  then show ?case by (simp add: guards_def guard_view_def t_spans_def h_spans_def)
next
  case (enable s lo hi e m s' ok)
  then show ?case using enable_guards [OF assms(1)] by blast
next
  case (disable s lo hi)
  then show ?case using disable_guards [OF assms(1)] by blast
next
  case (reset s m)
  then show ?case using reset_guards [OF assms(1)] by blast
next
  case (harden s b n e frozen s' ok)
  then show ?case using harden_guards [OF assms(1)] by blast
next
  case (unharden s b n s' ok)
  then show ?case using unharden_guards [OF assms(1)] by blast
next
  case (store s n m p v s' m')
  then show ?case using store_byte_guards [OF assms(1)] by blast
qed

text \<open>
  C6. The tripwire holds. In every state the host can reach by any order of thermometer and
  hardening calls on non-overlapping bases, with stores in between, a hardened base is not watched by
  the thermometer, and a store to any of its bytes never takes effect: no chain of signal handlers
  makes the page writable again.
\<close>

theorem hardened_base_never_written:
  assumes "bases_ok P B" "guard_reach P B s" "r \<in> set (hard_ranges s)" "h_lo r \<le> p" "p < h_hi r"
  shows "therm_find_for s p = None \<and> store_byte n s m p v \<noteq> Some (Stored s' m')"
proof -
  note G = guardsD [OF guard_reach_guards [OF assms(1,2)]]
  have rin: "(h_lo r, h_hi r) \<in> set (h_spans s)" using assms(3) by (auto simp: h_spans_def)
  then have r: "h_lo r \<le> h_hi r" "(h_lo r, unat (h_hi r - h_lo r)) \<in> B" "readonly s (page_of s p)"
    using G(4) assms(4,5) unfolding guard_view_def by auto
  have "\<not> (t_lo t \<le> p \<and> p < t_hi t)" if "t \<in> set (therm_states s)" for t
  proof -
    have tin: "(t_lo t, t_hi t) \<in> set (t_spans s)" using that by (auto simp: t_spans_def)
    then have "t_lo t \<le> t_hi t" "(t_lo t, unat (t_hi t - t_lo t)) \<in> B" using G(4) unfolding guard_view_def by auto
    then show ?thesis
      using other_base [OF assms(1) r(1,2), of "t_lo t"] guard_view_apart [OF G(4) tin rin] span_inside assms(4,5) by metis
  qed
  then have f: "therm_find_for s p = None" by (simp add: therm_find_for_def find_index_None)
  then show ?thesis using store_byte_readonly [OF r(3)] by blast
qed

abbreviation quiet :: therm_env where
  "quiet \<equiv> \<lparr>te_pagesize = 4096, te_calloc = True, te_malloc = True, te_sigaction = True, te_mprotect = True\<rparr>"

definition therm_start :: therm_sys where
  "therm_start = \<lparr>therm_states = [], therm_handler_installed = False, therm_prev_sa = SigDfl, therm_page_size = 0,
     therm_trace_lo = 0, therm_trace_hi = 0, hard_ranges = [], hard_handler_installed = False,
     hard_prev_sa = SigDfl, segv_action = SigDfl, page_bytes = 4096, readonly = (\<lambda>_. False)\<rparr>"

theorem hardened_base_never_written_witness:
  "\<forall>n s' m'. store_byte n (fst (js_dual_arena_harden_range quiet True 0x10000 0x2000 therm_start)) (\<lambda>_. 0) 0x11008 7
     \<noteq> Some (Stored s' m')"
proof (intro allI)
  fix n s' m'
  let ?s = "fst (js_dual_arena_harden_range quiet True 0x10000 0x2000 therm_start)"
  have B: "bases_ok 4096 {(0x10000, 0x2000)}" by (simp add: bases_ok_def base_block_def)
  have run: "js_dual_arena_harden_range quiet True 0x10000 0x2000 therm_start = (?s, True)"
    by (simp add: therm_start_def js_dual_arena_harden_range_def therm_find_by_lo_def hard_find_def)
  have r: "guard_reach 4096 {(0x10000, 0x2000)} ?s"
    by (rule guard_reach.harden [OF guard_reach.start _ run]) (simp_all add: therm_start_def)
  have h: "hard_ranges ?s = [\<lparr>h_lo = 0x10000, h_hi = 0x12000\<rparr>]"
    by (simp add: therm_start_def js_dual_arena_harden_range_def therm_find_by_lo_def hard_find_def)
  show "store_byte n ?s (\<lambda>_. 0) 0x11008 7 \<noteq> Some (Stored s' m')"
    using hardened_base_never_written [OF B r, of "\<lparr>h_lo = 0x10000, h_hi = 0x12000\<rparr>" "0x11008"] h by simp
qed

theorem thermometer_exact_witness:
  "\<exists>s'. store_all (js_arena_thermometer_reset (\<lambda>_. 0)
          (fst (js_arena_thermometer_enable_range quiet (\<lambda>_. 0) 0x10000 0x13000 therm_start)))
          (\<lambda>_. 0) [(0x10004, 5), (0x10004, 6), (0x12FFF, 0)]
        = Some (s', poke [(0x10004, 5), (0x10004, 6), (0x12FFF, 0)] (\<lambda>_. 0)) \<and>
     js_arena_thermometer_pages s' = 2"
proof -
  let ?s = "fst (js_arena_thermometer_enable_range quiet (\<lambda>_. 0) 0x10000 0x13000 therm_start)"
  let ?ws = "[(0x10004, 5), (0x10004, 6), (0x12FFF, 0)] :: (ptr \<times> u8) list"
  define t where "t = last (therm_states ?s)"
  have st: "therm_states ?s = [t]" "t_lo t = 0x10000" "t_hi t = 0x13000" "base_pages t = 3"
      "length (dirty_bitmap t) = 1" "therm_page_size ?s = 4096" "segv_action ?s = ThermSegv" "page_bytes ?s = 4096"
    by (simp_all add: t_def therm_start_def js_arena_thermometer_enable_range_def therm_find_by_lo_def hard_find_def
        therm_install_handler_def bitmap_bytes_def)
  have e: "enabled ?s t"
    using st by (simp add: enabled_def alone_def whole_pages_def reaches_therm_def bitmap_bytes_def)
  have in3: "in_state t 0x10004" "in_state t 0x12FFF" using st by (simp_all add: in_state_def)
  have "pages_written ?s t ?ws = page_idx ?s t ` {0x10004, 0x12FFF}"
    unfolding pages_written_def using in3 by (intro arg_cong [where f = "\<lambda>A. page_idx ?s t ` A"]) auto
  also have "\<dots> = {0, 2}" using st by (simp add: page_idx_def)
  finally have "pages_written ?s t ?ws = {0, 2}" .
  then have c: "card (pages_written ?s t ?ws) = 2" by simp
  have "\<forall>(p, v) \<in> set ?ws. in_state t p \<or> \<not> readonly ?s (page_of ?s p)" using in3 by simp
  from thermometer_exact [OF e this, of "\<lambda>_. 0"] show ?thesis unfolding c by blast
qed

text \<open>
  The handlers are restored without regard to the order of installation. When a base is hardened
  first and the thermometer is enabled on another base afterwards, unhardening the first base puts the
  default action back: the next store to a watched page, which the thermometer should count, ends the
  process.
\<close>

lemma store_byte_default:
  "readonly s (page_of s p) \<Longrightarrow> segv_action s = SigDfl \<Longrightarrow> store_byte 2 s m p v = Some Killed"
  by (simp add: numeral_eq_Suc)

lemma unharden_disarms_thermometer:
  "let s1 = fst (js_dual_arena_harden_range quiet True 0x10000 0x1000 therm_start);
       s2 = fst (js_arena_thermometer_enable_range quiet (\<lambda>_. 0) 0x20000 0x21000 s1);
       s3 = fst (js_dual_arena_unharden_range 0x10000 0x1000 s2)
   in js_arena_thermometer_page_size s3 = 4096 \<and> store_byte 2 s3 (\<lambda>_. 0) 0x20008 1 = Some Killed"
proof -
  let ?s1 = "fst (js_dual_arena_harden_range quiet True 0x10000 0x1000 therm_start)"
  let ?s2 = "fst (js_arena_thermometer_enable_range quiet (\<lambda>_. 0) 0x20000 0x21000 ?s1)"
  let ?s3 = "fst (js_dual_arena_unharden_range 0x10000 0x1000 ?s2)"
  note defs = therm_start_def js_dual_arena_harden_range_def js_dual_arena_unharden_range_def
      js_arena_thermometer_enable_range_def therm_find_by_lo_def hard_find_def therm_install_handler_def
      mprotect_def compact_def page_of_def js_arena_thermometer_page_size_def
  have "segv_action ?s3 = SigDfl" "readonly ?s3 (page_of ?s3 0x20008)" "js_arena_thermometer_page_size ?s3 = 4096"
    by (simp_all add: defs)
  then show ?thesis unfolding Let_def using store_byte_default by blast
qed

text \<open>
  The other order: with the thermometer disabled before the base is unhardened, the thermometer's own
  handler comes back as the action with no entry left, and enabling it again makes it its own
  predecessor. A fault outside every watched range then runs the handler forever.
\<close>

lemma handler_chains_to_itself:
  "let s1 = fst (js_arena_thermometer_enable_range quiet (\<lambda>_. 0) 0x20000 0x21000 therm_start);
       s2 = fst (js_dual_arena_harden_range quiet True 0x10000 0x1000 s1);
       s3 = js_arena_thermometer_disable_range 0x20000 0x21000 s2;
       s4 = fst (js_dual_arena_unharden_range 0x10000 0x1000 s3);
       s5 = fst (js_arena_thermometer_enable_range quiet (\<lambda>_. 0) 0x20000 0x21000 s4)
   in segv_action s5 = ThermSegv \<and> therm_prev_sa s5 = ThermSegv"
  by (simp add: therm_start_def js_dual_arena_harden_range_def js_dual_arena_unharden_range_def
      js_arena_thermometer_enable_range_def js_arena_thermometer_disable_range_def therm_find_by_lo_def hard_find_def
      therm_install_handler_def therm_uninstall_handler_if_idle_def mprotect_def compact_def)

lemma self_chain_diverges:
  assumes "therm_prev_sa s = ThermSegv" "therm_find_for s p = None"
  shows "run_handler n ThermSegv p s = None"
  using assms by (induction n) simp_all

end
