(* ===== verification/Layout.thy ===== *)
theory Layout
  imports ChunkSet
begin

text \<open>
  The memory layout of the allocator: which blocks of the address space the base arenas, the provider
  caches and the request arenas own. A layout maps every owner to its list of blocks; blocks are whole
  chunks below the 47-bit user limit and no two of them overlap. The lemmas are the moves the code
  makes: a fresh block is added, a block changes its owner, blocks are dropped.
\<close>

type_synonym block = "ptr \<times> nat"

datatype region_owner = OBase nat | OCache nat | OReq nat

type_synonym layout = "region_owner \<Rightarrow> block list"

definition blk_ok :: "block \<Rightarrow> bool" where
  "blk_ok b \<longleftrightarrow> 0 < snd b \<and> 0 < unat (fst b) \<and> unat (fst b) mod 4096 = 0 \<and> snd b mod 4096 = 0 \<and>
     unat (fst b) + snd b \<le> 2 ^ 47"

definition blk_set :: "block \<Rightarrow> ptr set" where
  "blk_set b = region (fst b) (snd b)"

definition apart :: "block \<Rightarrow> block \<Rightarrow> bool" where
  "apart b c \<longleftrightarrow> blk_set b \<inter> blk_set c = {}"

fun all_apart :: "block list \<Rightarrow> bool" where
  "all_apart [] = True"
| "all_apart (b # bs) = ((\<forall>c \<in> set bs. apart b c) \<and> all_apart bs)"

definition layout_ok :: "layout \<Rightarrow> bool" where
  "layout_ok f \<longleftrightarrow>
     (\<forall>q. \<forall>b \<in> set (f q). blk_ok b) \<and> (\<forall>q. all_apart (f q)) \<and>
     (\<forall>q q'. q \<noteq> q' \<longrightarrow> (\<forall>b \<in> set (f q). \<forall>c \<in> set (f q'). apart b c))"

definition fresh :: "layout \<Rightarrow> block \<Rightarrow> bool" where
  "fresh f b \<longleftrightarrow> blk_ok b \<and> (\<forall>q. \<forall>c \<in> set (f q). apart b c)"

definition covers :: "block list \<Rightarrow> ptr set" where
  "covers bs = (\<Union>b \<in> set bs. blk_set b)"

section \<open>Single blocks\<close>

lemma apart_sym: "apart b c \<longleftrightarrow> apart c b"
  by (auto simp: apart_def)

lemma blk_no_wrap: "blk_ok (p, n) \<Longrightarrow> no_wrap p n"
  by (simp add: blk_ok_def no_wrap_def)

lemma blk_set_iff: "blk_ok (p, n) \<Longrightarrow> a \<in> blk_set (p, n) \<longleftrightarrow> unat p \<le> unat a \<and> unat a < unat p + n"
  using region_no_wrap [OF blk_no_wrap] by (simp add: blk_set_def)

lemma blk_end:
  assumes "blk_ok (p, unat n)"
  shows "unat (p + n) = unat p + unat n"
  using assms by (intro unat_add_no_wrap) (simp add: blk_ok_def)

lemma blk_range:
  assumes "blk_ok (p, unat n)"
  shows "p \<le> a \<and> a < p + n \<longleftrightarrow> a \<in> blk_set (p, unat n)"
  using blk_set_iff [OF assms, of a] blk_end [OF assms] by (simp add: u64_le_iff u64_less_iff)

lemma blk_aligned:
  assumes "blk_ok (p, unat n)"
  shows "chunk_aligned p" "chunk_aligned (p + n)" "p \<le> p + n"
  using assms blk_end [OF assms] by (auto simp: chunk_aligned_iff blk_ok_def u64_le_iff mod_add_eq [symmetric])

lemma blk_nonempty: "blk_ok b \<Longrightarrow> fst b \<in> blk_set b"
  by (simp add: blk_ok_def blk_set_def region_def)

section \<open>Lists of blocks\<close>

lemma all_apart_append: "all_apart (xs @ ys) \<longleftrightarrow> all_apart xs \<and> all_apart ys \<and> (\<forall>b \<in> set xs. \<forall>c \<in> set ys. apart b c)"
  by (induction xs) auto

definition ival :: "block \<Rightarrow> nat set" where
  "ival b = {unat (fst b)..<unat (fst b) + snd b}"

lemma ival_apart:
  assumes "blk_ok b" "blk_ok c" "apart b c"
  shows "ival b \<inter> ival c = {}"
proof (rule ccontr)
  assume "ival b \<inter> ival c \<noteq> {}"
  then obtain x where x: "x \<in> ival b" "x \<in> ival c" by blast
  then have "x < 2 ^ 47" using assms(1) by (auto simp: ival_def blk_ok_def)
  then have u: "unat (of_nat x :: u64) = x" by (intro unat_of_nat_u64) simp
  have "of_nat x \<in> blk_set b" "of_nat x \<in> blk_set c"
    using x u assms(1,2) blk_set_iff [of "fst b" "snd b" "of_nat x"] blk_set_iff [of "fst c" "snd c" "of_nat x"]
    by (simp_all add: ival_def)
  then show False using assms(3) by (auto simp: apart_def)
qed

lemma total_bound:
  assumes "all_apart bs" "\<forall>b \<in> set bs. blk_ok b"
  shows "sum_list (map snd bs) \<le> 2 ^ 47"
proof -
  have "card (\<Union>b \<in> set bs. ival b) = sum_list (map snd bs)"
    using assms
  proof (induction bs)
    case (Cons b bs)
    have "ival b \<inter> (\<Union>c \<in> set bs. ival c) = {}"
      using ival_apart [of b] Cons.prems by auto
    moreover have "finite (ival b)" "finite (\<Union>c \<in> set bs. ival c)" by (auto simp: ival_def)
    ultimately have "card (ival b \<union> (\<Union>c \<in> set bs. ival c)) = card (ival b) + card (\<Union>c \<in> set bs. ival c)"
      by (intro card_Un_disjoint)
    then show ?case using Cons by (simp add: ival_def)
  qed simp
  moreover have "(\<Union>b \<in> set bs. ival b) \<subseteq> {..<2 ^ 47}"
    using assms(2) by (auto simp: ival_def blk_ok_def)
  then have "card (\<Union>b \<in> set bs. ival b) \<le> card {..<(2 :: nat) ^ 47}" by (intro card_mono) auto
  ultimately show ?thesis by simp
qed

section \<open>Moves\<close>

lemma layoutD:
  assumes "layout_ok f"
  shows "b \<in> set (f q) \<Longrightarrow> blk_ok b" "all_apart (f q)"
    "q \<noteq> q' \<Longrightarrow> b \<in> set (f q) \<Longrightarrow> c \<in> set (f q') \<Longrightarrow> apart b c"
  using assms unfolding layout_ok_def by blast+

lemma layoutI:
  assumes "\<And>q b. b \<in> set (f q) \<Longrightarrow> blk_ok b" "\<And>q. all_apart (f q)"
    "\<And>q q' b c. q \<noteq> q' \<Longrightarrow> b \<in> set (f q) \<Longrightarrow> c \<in> set (f q') \<Longrightarrow> apart b c"
  shows "layout_ok f"
  using assms unfolding layout_ok_def by blast

lemma layout_fewer:
  assumes "layout_ok f" "\<And>q. set (g q) \<subseteq> set (f q)" "\<And>q. all_apart (g q)"
  shows "layout_ok g"
  using assms layoutD [OF assms(1)] by (intro layoutI) blast+

lemma layout_remove:
  assumes "layout_ok f" "f q = xs @ b # ys"
  shows "layout_ok (f(q := xs @ ys))" "fresh (f(q := xs @ ys)) b"
proof -
  have a: "all_apart (xs @ b # ys)" using layoutD(2) [OF assms(1), of q] assms(2) by simp
  then have "all_apart (xs @ ys)" by (simp add: all_apart_append)
  then show "layout_ok (f(q := xs @ ys))"
    using layoutD(2) [OF assms(1)] assms(2) by (intro layout_fewer [OF assms(1)]) auto
  have "apart b c" if "c \<in> set ((f(q := xs @ ys)) q')" for c q'
  proof (cases "q' = q")
    case True
    then have "c \<in> set xs \<or> c \<in> set ys" using that by simp
    moreover have "\<forall>c \<in> set xs. apart c b" "\<forall>c \<in> set ys. apart b c" using a by (simp_all add: all_apart_append)
    ultimately show ?thesis using apart_sym [of c b] by blast
  next
    case False
    then show ?thesis using that layoutD(3) [OF assms(1), of q q' b c] assms(2) by simp
  qed
  moreover have "blk_ok b" using layoutD(1) [OF assms(1), of b q] assms(2) by simp
  ultimately show "fresh (f(q := xs @ ys)) b" by (simp add: fresh_def)
qed

lemma layout_insert:
  assumes "layout_ok f" "fresh f b" "f q = xs @ ys"
  shows "layout_ok (f(q := xs @ b # ys))"
proof (rule layoutI)
  note F = assms(2) [unfolded fresh_def]
  fix q' c assume "c \<in> set ((f(q := xs @ b # ys)) q')"
  then show "blk_ok c" using F layoutD(1) [OF assms(1), of c q'] assms(3) by (auto split: if_splits)
next
  fix q'
  have "\<forall>c \<in> set (xs @ ys). apart b c" using assms(2) unfolding fresh_def assms(3) [symmetric] by blast
  then have "apart c b" if "c \<in> set xs" for c using that apart_sym [of c b] by simp
  moreover have "\<forall>c \<in> set ys. apart b c" using \<open>\<forall>c \<in> set (xs @ ys). apart b c\<close> by simp
  ultimately have "all_apart (xs @ b # ys)"
    using layoutD(2) [OF assms(1), of q] unfolding assms(3) by (simp add: all_apart_append)
  then show "all_apart ((f(q := xs @ b # ys)) q')" using layoutD(2) [OF assms(1)] by simp
next
  note F = assms(2) [unfolded fresh_def]
  fix q' q'' c c'
  assume n: "q' \<noteq> q''" and c: "c \<in> set ((f(q := xs @ b # ys)) q')" "c' \<in> set ((f(q := xs @ b # ys)) q'')"
  have "(c = b \<and> q' = q) \<or> c \<in> set (f q')" "(c' = b \<and> q'' = q) \<or> c' \<in> set (f q'')"
    using c assms(3) by (auto split: if_splits)
  then consider "c = b" "c' \<in> set (f q'')" | "c' = b" "c \<in> set (f q')" | "c \<in> set (f q')" "c' \<in> set (f q'')"
    using n by blast
  then show "apart c c'"
  proof cases
    case 1
    then show ?thesis using F by blast
  next
    case 2
    then have "apart c' c" using F by blast
    then show ?thesis by (rule apart_sym [THEN iffD1])
  next
    case 3
    then show ?thesis by (rule layoutD(3) [OF assms(1) n])
  qed
qed

lemma fresh_more:
  assumes "fresh f b" "apart b c" "set (g q) \<subseteq> insert c (set (f q))" "\<And>q'. q' \<noteq> q \<Longrightarrow> set (g q') \<subseteq> set (f q')"
  shows "fresh g b"
proof -
  have "apart b x" if "x \<in> set (g q')" for q' x
  proof (cases "x = c")
    case False
    then have "x \<in> set (f q')" using that assms(3) assms(4) [of q'] by (cases "q' = q") auto
    then show ?thesis using assms(1) by (simp add: fresh_def)
  qed (simp add: assms(2))
  then show ?thesis using assms(1) by (simp add: fresh_def)
qed

lemma covers_simps [simp]:
  "covers [] = {}" "covers (b # bs) = blk_set b \<union> covers bs" "covers (xs @ ys) = covers xs \<union> covers ys"
  by (auto simp: covers_def)

lemma covers_apart:
  assumes "layout_ok f" "q \<noteq> q'"
  shows "covers (f q) \<inter> covers (f q') = {}"
  using layoutD(3) [OF assms] unfolding covers_def apart_def by blast

end
