(* ===== verification/ArenaState.thy ===== *)
theory ArenaState
  imports ChunkSet BumpArena Thermometer
begin

text \<open>
  The state of the dual-region allocator (\<open>src/qjs-arena.c\<close>, \<open>src/qjs-arena.h\<close>): the structures
  \<open>JSArena\<close>, \<open>JSReqChunk\<close>, \<open>JSRequestArena\<close>, \<open>JSDualArena\<close> and the thread-local variables, in one
  record \<open>world\<close>. Structures allocated with libc are named by natural numbers (\<open>das\<close>, \<open>ras\<close>); the
  bytes of the regions are in \<open>mem\<close>. A linked list of extents is a list, its length and byte total are
  the counters the code keeps, and the pointer to the extent being bumped is an index into it.

  What is not under \<open>src/\<close> or vendored is in the record \<open>env\<close>: whether the next libc allocation
  succeeds, the page mapper, the host's chunk provider and the \<open>dlmalloc\<close> mspace. An mspace call is a
  tree of the MORECORE calls it makes, so the call-back into the arena is part of the model.
\<close>

section \<open>Structures\<close>

datatype JSArenaMode = JS_ARENA_MODE_BASE | JS_ARENA_MODE_REQUEST

datatype JSArenaReqMode = JS_ARENA_REQ_MODE_GC | JS_ARENA_REQ_MODE_BUMP

record JSArenaOOM =
  hit :: bool
  requested :: size_t
  oom_used :: size_t
  oom_limit :: size_t

record JSReqChunk =
  c_buf :: ptr
  c_size :: size_t

record JSReqCacheEntry =
  e_buf :: ptr
  e_size :: size_t

text \<open>The built-in provider with the dual arena whose cache it uses, or a provider of the host.\<close>

datatype JSArenaChunkProvider = DefaultProvider nat | HostProvider nat

record JSRequestArena =
  ra_da :: nat
  prov :: JSArenaChunkProvider
  ra_list :: "JSReqChunk list"
  extents :: nat
  cap :: size_t
  held :: size_t
  ra_floor :: size_t
  cur_chunk :: nat
  cursor :: size_t
  bump_used :: size_t
  ra_last_ptr :: ptr
  ra_last_aligned :: size_t
  brk :: ptr
  msp :: ptr
  used :: size_t
  oom :: JSArenaOOM
  ra_mode :: JSArenaReqMode
  mode_next :: JSArenaReqMode

record JSDualArena =
  base :: JSArena
  da_mode :: JSArenaMode
  da_cur :: "nat option"
  requests :: "nat list"
  state_cell :: ptr
  cache :: "JSReqCacheEntry list"

record world =
  memory :: mem
  ranges :: "(ptr \<times> ptr) list"
  chunks :: chunk_set
  das :: "nat \<Rightarrow> JSDualArena option"
  ras :: "nat \<Rightarrow> JSRequestArena option"
  next_da :: nat
  next_ra :: nat
  morecore_ra :: "nat option"
  therm :: therm_sys
  tick :: nat

section \<open>The environment\<close>

text \<open>
  One call into the mspace: either it ends with a result and the memory it leaves, or it asks MORECORE
  for \<open>n\<close> bytes and goes on with the answer and the memory after it.
\<close>

datatype ms_act =
  MsDone ptr mem
| MsMore int "ptr \<Rightarrow> mem \<Rightarrow> ms_act"

record env =
  sc_pagesize :: int
  libc_ok :: "world \<Rightarrow> bool"
  map_pages :: "world \<Rightarrow> size_t \<Rightarrow> ptr"
  host_acquire :: "world \<Rightarrow> nat \<Rightarrow> size_t \<Rightarrow> ptr"
  create_mspace :: "mem \<Rightarrow> ptr \<Rightarrow> size_t \<Rightarrow> ptr \<times> mem"
  mspace_malloc :: "mem \<Rightarrow> ptr \<Rightarrow> size_t \<Rightarrow> ms_act"
  mspace_calloc :: "mem \<Rightarrow> ptr \<Rightarrow> size_t \<Rightarrow> size_t \<Rightarrow> ms_act"
  mspace_realloc :: "mem \<Rightarrow> ptr \<Rightarrow> ptr \<Rightarrow> size_t \<Rightarrow> ms_act"
  mspace_free :: "mem \<Rightarrow> ptr \<Rightarrow> ptr \<Rightarrow> mem"
  mspace_usable_size :: "mem \<Rightarrow> ptr \<Rightarrow> size_t"

definition advance :: "world \<Rightarrow> world" where
  "advance w = w\<lparr>tick := tick w + 1\<rparr>"

definition upd_ra :: "nat \<Rightarrow> (JSRequestArena \<Rightarrow> JSRequestArena) \<Rightarrow> world \<Rightarrow> world" where
  "upd_ra r f w = w\<lparr>ras := (ras w)(r := map_option f (ras w r))\<rparr>"

definition upd_da :: "nat \<Rightarrow> (JSDualArena \<Rightarrow> JSDualArena) \<Rightarrow> world \<Rightarrow> world" where
  "upd_da d f w = w\<lparr>das := (das w)(d := map_option f (das w d))\<rparr>"

text \<open>Reading a structure through a pointer; a freed or null structure is a fault.\<close>

definition deref_ra :: "world \<Rightarrow> nat \<Rightarrow> (JSRequestArena \<Rightarrow> 'a res) \<Rightarrow> 'a res" where
  "deref_ra w r k = (case ras w r of None \<Rightarrow> Inl BadPointer | Some ra \<Rightarrow> k ra)"

definition deref_da :: "world \<Rightarrow> nat \<Rightarrow> (JSDualArena \<Rightarrow> 'a res) \<Rightarrow> 'a res" where
  "deref_da w d k = (case das w d of None \<Rightarrow> Inl BadPointer | Some da \<Rightarrow> k da)"

abbreviation JS_ARENA_RANGES_MAX :: nat where "JS_ARENA_RANGES_MAX \<equiv> 16"
abbreviation JS_ARENA_REQ_EXTENT_DEFAULT :: size_t where "JS_ARENA_REQ_EXTENT_DEFAULT \<equiv> 0x40000"
abbreviation JS_ARENA_REQUEST_SLOT_SIZE :: size_t where "JS_ARENA_REQUEST_SLOT_SIZE \<equiv> 512"
abbreviation REQ_MFAIL :: ptr where "REQ_MFAIL \<equiv> 0xFFFFFFFFFFFFFFFF"

section \<open>Base ranges\<close>

definition js_arena_register_base :: "ptr \<Rightarrow> ptr \<Rightarrow> (ptr \<times> ptr) list \<Rightarrow> (ptr \<times> ptr) list \<times> bool" where
  "js_arena_register_base lo hi rs =
     (if length rs \<ge> JS_ARENA_RANGES_MAX then (rs, False) else (rs @ [(lo, hi)], True))"

definition js_arena_unregister_base :: "ptr \<Rightarrow> ptr \<Rightarrow> (ptr \<times> ptr) list \<Rightarrow> (ptr \<times> ptr) list" where
  "js_arena_unregister_base lo hi rs =
     (case find_index (\<lambda>r. r = (lo, hi)) rs of None \<Rightarrow> rs | Some i \<Rightarrow> butlast (rs[i := last rs]))"

definition js_arena_ptr_is_base :: "(ptr \<times> ptr) list \<Rightarrow> ptr \<Rightarrow> bool" where
  "js_arena_ptr_is_base rs p \<longleftrightarrow> find_index (\<lambda>(lo, hi). p \<ge> lo \<and> p < hi) rs \<noteq> None"

section \<open>Pages\<close>

definition page_round :: "env \<Rightarrow> size_t" where
  "page_round e = (if sc_pagesize e > 0 \<and> word_of_int (sc_pagesize e) > JS_ARENA_CHUNK_SIZE
                   then word_of_int (sc_pagesize e) else JS_ARENA_CHUNK_SIZE)"

definition pages_round :: "env \<Rightarrow> size_t \<Rightarrow> size_t" where
  "pages_round e sz = (sz + page_round e - 1) AND NOT (page_round e - 1)"

text \<open>The mapper hands out zeroed pages.\<close>

definition pages_map :: "env \<Rightarrow> size_t \<Rightarrow> world \<Rightarrow> ptr \<times> world" where
  "pages_map e sz w =
     (let p = map_pages e w sz
      in (p, if p = 0 then advance w else (advance w)\<lparr>memory := memset (memory w) p 0 (unat sz)\<rparr>))"

definition pages_unmap :: "ptr \<Rightarrow> size_t \<Rightarrow> world \<Rightarrow> world" where
  "pages_unmap p sz w = advance w"

text \<open>The capacity \<open>arena_init\<close> uses, and the whole of it.\<close>

definition base_capacity :: "env \<Rightarrow> size_t \<Rightarrow> size_t" where
  "base_capacity e sz = pages_round e (if sz = 0 then ARENA_DEFAULT_SIZE else sz)"

definition arena_init :: "env \<Rightarrow> size_t \<Rightarrow> world \<Rightarrow> JSArena option \<times> world" where
  "arena_init e sz w =
     (let c = base_capacity e sz
      in if c < ARENA_PREFIX_LEN + ARENA_HEADER_SIZE + ARENA_ALIGN then (None, w)
         else
           (case pages_map e c w of (p, w1) \<Rightarrow>
              if p = 0 then (None, w1)
              else (case arena_setup (memory w1) p c of (m, a) \<Rightarrow> (Some a, w1\<lparr>memory := m\<rparr>))))"

definition arena_destroy :: "JSArena \<Rightarrow> world \<Rightarrow> world" where
  "arena_destroy a w = (if buf a \<noteq> 0 then pages_unmap (buf a) (capacity a) w else w)"

end
