(* ===== verification/RequestArena.thy ===== *)
theory RequestArena
  imports ArenaState
begin

text \<open>
  The operations on one request arena (\<open>src/qjs-arena.c\<close>, \<open>default_acquire\<close> to
  \<open>js_request_arena_slot\<close>, and \<open>js_arena_morecore\<close>): the built-in provider with its cache, acquiring
  and releasing extents, the bump allocator over the extent list, and the call-back of the mspace.
\<close>

section \<open>Providers\<close>

fun cache_take :: "size_t \<Rightarrow> JSReqCacheEntry list \<Rightarrow> (ptr \<times> JSReqCacheEntry list) option" where
  "cache_take sz [] = None"
| "cache_take sz (x # xs) =
     (if e_size x = sz then Some (e_buf x, xs)
      else map_option (\<lambda>(p, ys). (p, x # ys)) (cache_take sz xs))"

definition default_acquire :: "env \<Rightarrow> nat \<Rightarrow> size_t \<Rightarrow> world \<Rightarrow> (ptr \<times> world) res" where
  "default_acquire e d sz w =
     deref_da w d (\<lambda>da.
       case cache_take sz (cache da) of
         Some (p, c) \<Rightarrow> Inr (p, upd_da d (\<lambda>da. da\<lparr>cache := c\<rparr>) w)
       | None \<Rightarrow> Inr (pages_map e sz w))"

definition default_release :: "env \<Rightarrow> nat \<Rightarrow> ptr \<Rightarrow> size_t \<Rightarrow> world \<Rightarrow> world res" where
  "default_release e d p sz w =
     deref_da w d (\<lambda>da.
       if sz = JS_ARENA_REQ_EXTENT_DEFAULT \<and> libc_ok e w
       then Inr (advance (upd_da d (\<lambda>da. da\<lparr>cache := \<lparr>e_buf = p, e_size = sz\<rparr> # cache da\<rparr>) w))
       else Inr (pages_unmap p sz w))"

definition default_cache_drain :: "nat \<Rightarrow> world \<Rightarrow> world" where
  "default_cache_drain d w =
     upd_da d (\<lambda>da. da\<lparr>cache := []\<rparr>)
       (fold (\<lambda>x. pages_unmap (e_buf x) (e_size x)) (case das w d of None \<Rightarrow> [] | Some da \<Rightarrow> cache da) w)"

fun prov_acquire :: "env \<Rightarrow> JSArenaChunkProvider \<Rightarrow> size_t \<Rightarrow> world \<Rightarrow> (ptr \<times> world) res" where
  "prov_acquire e (DefaultProvider d) sz w = default_acquire e d sz w"
| "prov_acquire e (HostProvider h) sz w = Inr (host_acquire e w h sz, advance w)"

fun prov_release :: "env \<Rightarrow> JSArenaChunkProvider \<Rightarrow> ptr \<Rightarrow> size_t \<Rightarrow> world \<Rightarrow> world res" where
  "prov_release e (DefaultProvider d) p sz w = default_release e d p sz w"
| "prov_release e (HostProvider h) p sz w = Inr (advance w)"

section \<open>Extents\<close>

text \<open>The size an acquisition asks for, \<open>None\<close> when the budget refuses it.\<close>

definition acquire_size :: "env \<Rightarrow> JSRequestArena \<Rightarrow> size_t \<Rightarrow> size_t option" where
  "acquire_size e ra need =
     (let size0 = pages_round e need;
          sz = (if size0 < JS_ARENA_REQ_EXTENT_DEFAULT then JS_ARENA_REQ_EXTENT_DEFAULT else size0)
      in if held ra + sz > cap ra
         then (if held ra + size0 > cap ra then None else Some size0)
         else Some sz)"

definition append_chunk :: "JSReqChunk \<Rightarrow> JSRequestArena \<Rightarrow> JSRequestArena" where
  "append_chunk c ra =
     ra\<lparr>ra_list := ra_list ra @ [c], extents := extents ra + 1, held := held ra + c_size c\<rparr>"

text \<open>Returns the index of the new extent.\<close>

definition req_acquire :: "env \<Rightarrow> nat \<Rightarrow> size_t \<Rightarrow> world \<Rightarrow> (nat option \<times> world) res" where
  "req_acquire e r need w =
     deref_ra w r (\<lambda>ra.
       case acquire_size e ra need of
         None \<Rightarrow> Inr (None, w)
       | Some sz \<Rightarrow>
           if \<not> libc_ok e w then Inr (None, advance w)
           else
             res_bind (prov_acquire e (prov ra) sz (advance w)) (\<lambda>(p, w1).
               if p = 0 then Inr (None, w1)
               else if p AND (JS_ARENA_CHUNK_SIZE - 1) \<noteq> 0 then Inl AssertFailed
               else
                 res_bind (js_arena_register_request (libc_ok e w1) (chunks w1) p (p + sz) (Some r)) (\<lambda>(cs, ok).
                   let w2 = (advance w1)\<lparr>chunks := cs\<rparr>
                   in if \<not> ok then res_bind (prov_release e (prov ra) p sz w2) (\<lambda>w3. Inr (None, w3))
                      else Inr (Some (length (ra_list ra)),
                                upd_ra r (append_chunk \<lparr>c_buf = p, c_size = sz\<rparr>) w2))))"

definition req_release_chunk :: "env \<Rightarrow> JSArenaChunkProvider \<Rightarrow> JSReqChunk \<Rightarrow> world \<Rightarrow> world res" where
  "req_release_chunk e pv c w =
     res_bind (js_arena_unregister_request_range (chunks w) (c_buf c) (c_buf c + c_size c)) (\<lambda>cs.
       prov_release e pv (c_buf c) (c_size c) (w\<lparr>chunks := cs\<rparr>))"

fun release_all :: "env \<Rightarrow> JSArenaChunkProvider \<Rightarrow> JSReqChunk list \<Rightarrow> world \<Rightarrow> world res" where
  "release_all e pv [] w = Inr w"
| "release_all e pv (c # cs) w = res_bind (req_release_chunk e pv c w) (release_all e pv cs)"

definition keep_head :: "JSRequestArena \<Rightarrow> JSRequestArena" where
  "keep_head ra =
     (case ra_list ra of
        [] \<Rightarrow> ra\<lparr>extents := 0, held := 0, brk := 0\<rparr>
      | c # _ \<Rightarrow> ra\<lparr>ra_list := [c], extents := 1, held := c_size c, brk := 0\<rparr>)"

definition req_release_extents :: "env \<Rightarrow> nat \<Rightarrow> world \<Rightarrow> world res" where
  "req_release_extents e r w =
     deref_ra w r (\<lambda>ra.
       res_bind (release_all e (prov ra) (drop 1 (ra_list ra)) w) (\<lambda>w1.
         Inr (upd_ra r keep_head w1)))"

section \<open>The bump allocator of a request\<close>

definition req_bump_reset :: "JSRequestArena \<Rightarrow> JSRequestArena" where
  "req_bump_reset ra =
     ra\<lparr>cur_chunk := 0, cursor := ra_floor ra, bump_used := 0, ra_last_ptr := 0, ra_last_aligned := 0\<rparr>"

text \<open>The part of \<open>req_bump_alloc\<close> after room has been found.\<close>

definition bump_take :: "nat \<Rightarrow> size_t \<Rightarrow> world \<Rightarrow> (ptr \<times> world) res" where
  "bump_take r sz w =
     deref_ra w r (\<lambda>ra.
       let aligned = align_up sz;
           total = ARENA_HEADER_SIZE + aligned;
           header = c_buf (ra_list ra ! cur_chunk ra) + cursor ra;
           user_ptr = header + ARENA_HEADER_SIZE
       in Inr (user_ptr,
               (upd_ra r (\<lambda>ra. ra\<lparr>cursor := cursor ra + total, bump_used := bump_used ra + aligned,
                                  ra_last_ptr := user_ptr, ra_last_aligned := aligned\<rparr>) w)
                 \<lparr>memory := store64 (memory w) header sz\<rparr>))"

definition req_bump_alloc :: "env \<Rightarrow> nat \<Rightarrow> size_t \<Rightarrow> world \<Rightarrow> (ptr \<times> world) res" where
  "req_bump_alloc e r sz w =
     (if sz = 0 then Inr (0, w)
      else
        deref_ra w r (\<lambda>ra.
          let total = ARENA_HEADER_SIZE + align_up sz
          in if cursor ra + total > c_size (ra_list ra ! cur_chunk ra)
             then
               res_bind (req_acquire e r total w) (\<lambda>(c, w1).
                 case c of
                   None \<Rightarrow> Inr (0, w1)
                 | Some i \<Rightarrow> bump_take r sz (upd_ra r (\<lambda>ra. ra\<lparr>cur_chunk := i, cursor := 0\<rparr>) w1))
             else bump_take r sz w))"

definition req_bump_realloc :: "env \<Rightarrow> nat \<Rightarrow> ptr \<Rightarrow> size_t \<Rightarrow> size_t \<Rightarrow> world \<Rightarrow> (ptr \<times> world) res" where
  "req_bump_realloc e r p sz old_size w =
     deref_ra w r (\<lambda>ra.
       let aligned = align_up sz;
           old_aligned = ra_last_aligned ra;
           copy =
             res_bind (req_bump_alloc e r sz w) (\<lambda>(np, w1).
               if np = 0 then Inr (0, w1)
               else Inr (np, w1\<lparr>memory := memcpy (memory w1) np p (unat (if sz < old_size then sz else old_size))\<rparr>))
       in if p = ra_last_ptr ra then
            (if aligned \<le> old_aligned
             then Inr (p, (upd_ra r (\<lambda>ra. ra\<lparr>cursor := cursor ra - (old_aligned - aligned),
                                             bump_used := bump_used ra - (old_aligned - aligned),
                                             ra_last_aligned := aligned\<rparr>) w)
                            \<lparr>memory := arena_set_user_size (memory w) p sz\<rparr>)
             else if cursor ra + (aligned - old_aligned) \<le> c_size (ra_list ra ! cur_chunk ra)
             then Inr (p, (upd_ra r (\<lambda>ra. ra\<lparr>cursor := cursor ra + (aligned - old_aligned),
                                             bump_used := bump_used ra + (aligned - old_aligned),
                                             ra_last_aligned := aligned\<rparr>) w)
                            \<lparr>memory := arena_set_user_size (memory w) p sz\<rparr>)
             else copy)
          else copy)"

section \<open>Modes and the OOM record\<close>

definition no_oom :: JSArenaOOM where
  "no_oom = \<lparr>hit = False, requested = 0, oom_used = 0, oom_limit = 0\<rparr>"

definition request_mode_apply :: "env \<Rightarrow> nat \<Rightarrow> world \<Rightarrow> world res" where
  "request_mode_apply e r w =
     deref_ra w r (\<lambda>ra.
       if length (ra_list ra) \<noteq> 1 then Inl AssertFailed
       else
         let w1 = upd_ra r (\<lambda>ra. ra\<lparr>ra_mode := mode_next ra\<rparr>) w;
             h = hd (ra_list ra)
         in if mode_next ra = JS_ARENA_REQ_MODE_GC
            then
              (case create_mspace e (memory w) (c_buf h + ra_floor ra) (c_size h - ra_floor ra) of (q, m) \<Rightarrow>
                 if q = 0 then Inl AssertFailed
                 else Inr ((upd_ra r (\<lambda>ra. ra\<lparr>msp := q, used := 0\<rparr>) w1)\<lparr>memory := m\<rparr>))
            else Inr (upd_ra r (\<lambda>ra. req_bump_reset (ra\<lparr>msp := 0\<rparr>)) w1))"

definition oom_clear :: "JSRequestArena \<Rightarrow> JSRequestArena" where
  "oom_clear ra = ra\<lparr>oom := no_oom\<rparr>"

section \<open>The call-back of the mspace\<close>

definition js_arena_morecore :: "env \<Rightarrow> int \<Rightarrow> world \<Rightarrow> (ptr \<times> world) res" where
  "js_arena_morecore e n w =
     (case morecore_ra w of
        None \<Rightarrow> Inr (REQ_MFAIL, w)
      | Some r \<Rightarrow>
          deref_ra w r (\<lambda>ra.
            if n = 0 then Inr (if brk ra \<noteq> 0 then brk ra else REQ_MFAIL, w)
            else if n < 0 then Inr (REQ_MFAIL, w)
            else
              res_bind (req_acquire e r (word_of_int n) w) (\<lambda>(c, w1).
                case c of
                  None \<Rightarrow> Inr (REQ_MFAIL, w1)
                | Some i \<Rightarrow>
                    deref_ra w1 r (\<lambda>ra1.
                      let ch = ra_list ra1 ! i
                      in Inr (c_buf ch, upd_ra r (\<lambda>ra. ra\<lparr>brk := c_buf ch + c_size ch\<rparr>) w1)))))"

primrec ms_run :: "env \<Rightarrow> ms_act \<Rightarrow> world \<Rightarrow> (ptr \<times> world) res" where
  "ms_run e (MsDone p m) w = Inr (p, w\<lparr>memory := m\<rparr>)"
| "ms_run e (MsMore n k) w =
     res_bind (js_arena_morecore e n w) (\<lambda>(p, w1). (\<lambda>q m. ms_run e (k q m)) p (memory w1) w1)"

end
