(* ===== verification/DualArena.thy ===== *)
theory DualArena
  imports RequestArena
begin

text \<open>
  The dual arena (\<open>src/qjs-arena.c\<close>, \<open>js_request_arena_new\<close> to \<open>jda_usable_size\<close>): creating, selecting,
  resetting and freeing request arenas, the freeze, the OOM record, the queries, and the five
  functions of \<open>JSMallocFunctions\<close> through which the engine allocates.
\<close>

section \<open>Request arenas of a dual arena\<close>

definition fresh_ra :: "nat \<Rightarrow> JSArenaChunkProvider option \<Rightarrow> size_t \<Rightarrow> JSRequestArena" where
  "fresh_ra d pv c =
     \<lparr>ra_da = d, prov = (case pv of None \<Rightarrow> DefaultProvider d | Some x \<Rightarrow> x), ra_list = [], extents = 0,
      cap = c, held = 0, ra_floor = ARENA_PREFIX_LEN + JS_ARENA_REQUEST_SLOT_SIZE, cur_chunk = 0, cursor = 0,
      bump_used = 0, ra_last_ptr = 0, ra_last_aligned = 0, brk = 0, msp = 0, used = 0, oom = no_oom,
      ra_mode = JS_ARENA_REQ_MODE_GC, mode_next = JS_ARENA_REQ_MODE_GC\<rparr>"

definition js_request_arena_new :: "env \<Rightarrow> nat \<Rightarrow> size_t \<Rightarrow> JSArenaChunkProvider option \<Rightarrow> world
    \<Rightarrow> (nat option \<times> world) res" where
  "js_request_arena_new e d request_cap pv w =
     deref_da w d (\<lambda>da.
       if \<not> libc_ok e w then Inr (None, advance w)
       else
         let r = next_ra w;
             c0 = (if request_cap = 0 then ARENA_DEFAULT_SIZE else request_cap);
             c = (if c0 = SIZE_MAX then SIZE_MAX else pages_round e c0);
             ra = fresh_ra d pv c;
             head = (if JS_ARENA_REQ_EXTENT_DEFAULT > c then c else JS_ARENA_REQ_EXTENT_DEFAULT);
             w1 = (advance w)\<lparr>ras := (ras w)(r \<mapsto> ra), next_ra := r + 1\<rparr>;
             drop_ra = (\<lambda>w. w\<lparr>ras := (ras w)(r := None)\<rparr>)
         in if head < ra_floor ra + ARENA_HEADER_SIZE + ARENA_ALIGN then Inr (None, drop_ra w1)
            else
              res_bind (req_acquire e r head w1) (\<lambda>(ci, w2).
                if ci = None then Inr (None, drop_ra w2)
                else
                  deref_ra w2 r (\<lambda>ra2.
                    let w3 = (upd_ra r req_bump_reset w2)
                               \<lparr>memory := memset (memory w2) (c_buf (hd (ra_list ra2))) 0 (unat ARENA_PREFIX_LEN)\<rparr>
                    in res_bind (if da_mode da = JS_ARENA_MODE_REQUEST then request_mode_apply e r w3 else Inr w3)
                         (\<lambda>w4. Inr (Some r, upd_da d (\<lambda>da. da\<lparr>requests := r # requests da\<rparr>) w4)))))"

definition js_request_arena_free :: "env \<Rightarrow> nat \<Rightarrow> world \<Rightarrow> world res" where
  "js_request_arena_free e r w =
     deref_ra w r (\<lambda>ra. deref_da w (ra_da ra) (\<lambda>_.
       let d = ra_da ra;
           w1 = upd_da d (\<lambda>da. da\<lparr>requests := remove1 r (requests da)\<rparr>) w;
           w2 = upd_da d (\<lambda>da. if da_cur da = Some r then da\<lparr>da_cur := None, state_cell := 0\<rparr> else da) w1
       in res_bind (req_release_extents e r w2) (\<lambda>w3.
          res_bind (case ra_list ra of [] \<Rightarrow> Inr w3 | c # _ \<Rightarrow> req_release_chunk e (prov ra) c w3) (\<lambda>w4.
          res_bind (js_arena_unregister_request (libc_ok e w4) (chunks w4) r) (\<lambda>cs.
          Inr (w4\<lparr>chunks := cs, ras := (ras w4)(r := None)\<rparr>))))))"

definition js_request_arena_dual :: "world \<Rightarrow> nat \<Rightarrow> nat res" where
  "js_request_arena_dual w r = deref_ra w r (\<lambda>ra. Inr (ra_da ra))"

definition js_request_arena_slot :: "world \<Rightarrow> nat \<Rightarrow> ptr res" where
  "js_request_arena_slot w r =
     deref_ra w r (\<lambda>ra. case ra_list ra of [] \<Rightarrow> Inl BadPointer | c # _ \<Rightarrow> Inr (c_buf c + ARENA_PREFIX_LEN))"

definition js_dual_arena_select_request :: "nat \<Rightarrow> nat option \<Rightarrow> world \<Rightarrow> world res" where
  "js_dual_arena_select_request d ro w =
     deref_da w d (\<lambda>_. case ro of
        None \<Rightarrow> Inr (upd_da d (\<lambda>da. da\<lparr>da_cur := None, state_cell := 0\<rparr>) w)
      | Some r \<Rightarrow>
          deref_ra w r (\<lambda>ra.
            if ra_da ra \<noteq> d then Inl AssertFailed
            else
              res_bind (js_request_arena_slot w r) (\<lambda>p.
                Inr (upd_da d (\<lambda>da. da\<lparr>da_cur := Some r, state_cell := p\<rparr>) w))))"

definition js_dual_arena_current_request :: "world \<Rightarrow> nat \<Rightarrow> nat option res" where
  "js_dual_arena_current_request w d = deref_da w d (\<lambda>da. Inr (da_cur da))"

definition js_dual_arena_state_cell :: "world \<Rightarrow> nat \<Rightarrow> ptr res" where
  "js_dual_arena_state_cell w d = deref_da w d (\<lambda>da. Inr (state_cell da))"

section \<open>Dual arenas\<close>

definition js_dual_arena_new2 :: "env \<Rightarrow> size_t \<Rightarrow> size_t \<Rightarrow> JSArenaChunkProvider option \<Rightarrow> world
    \<Rightarrow> (nat option \<times> world) res" where
  "js_dual_arena_new2 e base_size request_cap pv w =
     (if \<not> libc_ok e w then Inr (None, advance w)
      else
        (case arena_init e base_size (advance w) of
           (None, w1) \<Rightarrow> Inr (None, w1)
         | (Some a, w1) \<Rightarrow>
             let d = next_da w1;
                 da = \<lparr>base = a, da_mode = JS_ARENA_MODE_BASE, da_cur = None, requests = [], state_cell = 0, cache = []\<rparr>;
                 w2 = w1\<lparr>das := (das w1)(d \<mapsto> da), next_da := d + 1\<rparr>
             in res_bind (js_request_arena_new e d request_cap pv w2) (\<lambda>(ro, w3).
                  case ro of
                    None \<Rightarrow> Inr (None, arena_destroy a (w3\<lparr>das := (das w3)(d := None)\<rparr>))
                  | Some r \<Rightarrow>
                      res_bind (js_dual_arena_select_request d (Some r) w3) (\<lambda>w4. Inr (Some d, w4)))))"

definition js_dual_arena_new :: "env \<Rightarrow> size_t \<Rightarrow> size_t \<Rightarrow> world \<Rightarrow> (nat option \<times> world) res" where
  "js_dual_arena_new e base_size request_cap w = js_dual_arena_new2 e base_size request_cap None w"

fun free_requests :: "nat \<Rightarrow> env \<Rightarrow> nat \<Rightarrow> world \<Rightarrow> world res" where
  "free_requests n e d w =
     deref_da w d (\<lambda>da.
       case requests da of
         [] \<Rightarrow> Inr w
       | r # _ \<Rightarrow> (case n of 0 \<Rightarrow> Inl LoopsForever
                   | Suc k \<Rightarrow> res_bind (js_request_arena_free e r w) (free_requests k e d)))"

definition js_dual_arena_unharden :: "nat \<Rightarrow> world \<Rightarrow> (bool \<times> world) res" where
  "js_dual_arena_unharden d w =
     deref_da w d (\<lambda>da.
       case js_dual_arena_unharden_range (buf (base da)) (unat (capacity (base da))) (therm w) of
         (t, ok) \<Rightarrow> Inr (ok, w\<lparr>therm := t\<rparr>))"

definition js_dual_arena_harden :: "therm_env \<Rightarrow> nat \<Rightarrow> world \<Rightarrow> (bool \<times> world) res" where
  "js_dual_arena_harden te d w =
     deref_da w d (\<lambda>da.
       case js_dual_arena_harden_range te (da_mode da = JS_ARENA_MODE_REQUEST)
              (buf (base da)) (unat (capacity (base da))) (therm w) of
         (t, ok) \<Rightarrow> Inr (ok, w\<lparr>therm := t\<rparr>))"

definition js_dual_arena_is_hardened :: "world \<Rightarrow> nat \<Rightarrow> bool res" where
  "js_dual_arena_is_hardened w d = deref_da w d (\<lambda>da. Inr (is_hardened_range (buf (base da)) (therm w)))"

definition js_dual_arena_free :: "env \<Rightarrow> nat \<Rightarrow> world \<Rightarrow> world res" where
  "js_dual_arena_free e d w =
     deref_da w d (\<lambda>da.
       let lo = buf (base da);
           hi = buf (base da) + capacity (base da);
           w1 = w\<lparr>therm := js_arena_thermometer_disable_range lo hi (therm w)\<rparr>
       in res_bind (js_dual_arena_unharden d w1) (\<lambda>(_, w2).
          let w3 = w2\<lparr>ranges := js_arena_unregister_base lo hi (ranges w2)\<rparr>
          in res_bind (free_requests (length (requests da)) e d w3) (\<lambda>w4.
               Inr ((arena_destroy (base da) (default_cache_drain d w4))\<lparr>das := (das w4)(d := None)\<rparr>))))"

fun apply_modes :: "env \<Rightarrow> nat list \<Rightarrow> world \<Rightarrow> world res" where
  "apply_modes e [] w = Inr w"
| "apply_modes e (r # rs) w = res_bind (request_mode_apply e r w) (apply_modes e rs)"

definition js_dual_arena_freeze :: "env \<Rightarrow> nat \<Rightarrow> world \<Rightarrow> world res" where
  "js_dual_arena_freeze e d w =
     deref_da w d (\<lambda>da.
       res_bind (apply_modes e (requests da) (upd_da d (\<lambda>da. da\<lparr>da_mode := JS_ARENA_MODE_REQUEST\<rparr>) w)) (\<lambda>w1.
         Inr (w1\<lparr>ranges := fst (js_arena_register_base (buf (base da)) (buf (base da) + capacity (base da)) (ranges w1))\<rparr>)))"

definition js_dual_arena_set_request_mode :: "nat \<Rightarrow> JSArenaReqMode \<Rightarrow> world \<Rightarrow> world res" where
  "js_dual_arena_set_request_mode d md w =
     deref_da w d (\<lambda>da.
       case da_cur da of None \<Rightarrow> Inr w | Some r \<Rightarrow> Inr (upd_ra r (\<lambda>ra. ra\<lparr>mode_next := md\<rparr>) w))"

definition js_dual_arena_request_mode :: "world \<Rightarrow> nat \<Rightarrow> JSArenaReqMode res" where
  "js_dual_arena_request_mode w d =
     deref_da w d (\<lambda>da.
       case da_cur da of None \<Rightarrow> Inr JS_ARENA_REQ_MODE_GC | Some r \<Rightarrow> deref_ra w r (\<lambda>ra. Inr (ra_mode ra)))"

definition js_request_arena_reset :: "env \<Rightarrow> nat \<Rightarrow> world \<Rightarrow> world res" where
  "js_request_arena_reset e r w =
     res_bind (req_release_extents e r w) (\<lambda>w1.
       deref_ra w1 r (\<lambda>ra. deref_da w1 (ra_da ra) (\<lambda>da.
         res_bind (if da_mode da = JS_ARENA_MODE_REQUEST then request_mode_apply e r w1
                   else Inr (upd_ra r req_bump_reset w1)) (\<lambda>w2.
           Inr (upd_ra r oom_clear w2)))))"

definition js_dual_arena_reset_request :: "env \<Rightarrow> nat \<Rightarrow> world \<Rightarrow> world res" where
  "js_dual_arena_reset_request e d w =
     deref_da w d (\<lambda>da. case da_cur da of None \<Rightarrow> Inr w | Some r \<Rightarrow> js_request_arena_reset e r w)"

section \<open>The OOM record and the queries\<close>

definition note_oom :: "nat \<Rightarrow> size_t \<Rightarrow> world \<Rightarrow> world res" where
  "note_oom r n w =
     deref_ra w r (\<lambda>ra. deref_da w (ra_da ra) (\<lambda>da.
       if da_mode da \<noteq> JS_ARENA_MODE_REQUEST \<or> hit (oom ra) then Inr w
       else Inr (upd_ra r (\<lambda>ra. ra\<lparr>oom :=
              \<lparr>hit = True, requested = n,
               oom_used = (if ra_mode ra = JS_ARENA_REQ_MODE_GC then used ra else bump_used ra),
               oom_limit = (if cap ra = SIZE_MAX then SIZE_MAX else cap ra - ra_floor ra)\<rparr>\<rparr>) w)))"

definition js_request_arena_oom_hit :: "world \<Rightarrow> nat \<Rightarrow> bool res" where
  "js_request_arena_oom_hit w r = deref_ra w r (\<lambda>ra. Inr (hit (oom ra)))"

definition js_request_arena_oom_requested :: "world \<Rightarrow> nat \<Rightarrow> size_t res" where
  "js_request_arena_oom_requested w r = deref_ra w r (\<lambda>ra. Inr (requested (oom ra)))"

definition js_request_arena_oom_used :: "world \<Rightarrow> nat \<Rightarrow> size_t res" where
  "js_request_arena_oom_used w r = deref_ra w r (\<lambda>ra. Inr (oom_used (oom ra)))"

definition js_request_arena_oom_limit :: "world \<Rightarrow> nat \<Rightarrow> size_t res" where
  "js_request_arena_oom_limit w r = deref_ra w r (\<lambda>ra. Inr (oom_limit (oom ra)))"

text \<open>A query of the selected request arena, with its value when none is selected.\<close>

definition selected :: "world \<Rightarrow> nat \<Rightarrow> 'a \<Rightarrow> (nat \<Rightarrow> 'a res) \<Rightarrow> 'a res" where
  "selected w d z k = deref_da w d (\<lambda>da. case da_cur da of None \<Rightarrow> Inr z | Some r \<Rightarrow> k r)"

definition js_dual_arena_oom_hit :: "world \<Rightarrow> nat \<Rightarrow> bool res" where
  "js_dual_arena_oom_hit w d = selected w d False (js_request_arena_oom_hit w)"

definition js_dual_arena_oom_requested :: "world \<Rightarrow> nat \<Rightarrow> size_t res" where
  "js_dual_arena_oom_requested w d = selected w d 0 (js_request_arena_oom_requested w)"

definition js_dual_arena_oom_used :: "world \<Rightarrow> nat \<Rightarrow> size_t res" where
  "js_dual_arena_oom_used w d = selected w d 0 (js_request_arena_oom_used w)"

definition js_dual_arena_oom_limit :: "world \<Rightarrow> nat \<Rightarrow> size_t res" where
  "js_dual_arena_oom_limit w d = selected w d 0 (js_request_arena_oom_limit w)"

definition js_dual_arena_request_slot :: "world \<Rightarrow> nat \<Rightarrow> ptr res" where
  "js_dual_arena_request_slot w d =
     selected w d 0 (js_request_arena_slot w)"

definition js_dual_arena_is_frozen :: "world \<Rightarrow> nat \<Rightarrow> bool res" where
  "js_dual_arena_is_frozen w d = deref_da w d (\<lambda>da. Inr (da_mode da = JS_ARENA_MODE_REQUEST))"

definition js_dual_arena_in_base :: "world \<Rightarrow> nat \<Rightarrow> ptr \<Rightarrow> bool res" where
  "js_dual_arena_in_base w d p = deref_da w d (\<lambda>da. Inr (arena_contains (base da) p))"

definition js_request_arena_contains :: "world \<Rightarrow> nat \<Rightarrow> ptr \<Rightarrow> bool res" where
  "js_request_arena_contains w r p =
     res_bind (js_arena_ptr_request_owner (chunks w) p) (\<lambda>own. Inr (own = Some r))"

definition js_dual_arena_in_request :: "world \<Rightarrow> nat \<Rightarrow> ptr \<Rightarrow> bool res" where
  "js_dual_arena_in_request w d p =
     res_bind (js_arena_ptr_request_owner (chunks w) p) (\<lambda>own.
       case own of None \<Rightarrow> Inr False | Some r \<Rightarrow> deref_ra w r (\<lambda>ra. Inr (ra_da ra = d)))"

definition js_dual_arena_base_used :: "world \<Rightarrow> nat \<Rightarrow> size_t res" where
  "js_dual_arena_base_used w d =
     deref_da w d (\<lambda>da. Inr (arena_cursor (memory w) (base da) - ARENA_PREFIX_LEN))"

definition js_request_arena_used :: "world \<Rightarrow> nat \<Rightarrow> size_t res" where
  "js_request_arena_used w r =
     deref_ra w r (\<lambda>ra. deref_da w (ra_da ra) (\<lambda>da.
       Inr (if da_mode da = JS_ARENA_MODE_REQUEST \<and> ra_mode ra = JS_ARENA_REQ_MODE_GC then used ra else bump_used ra)))"

definition js_dual_arena_request_used :: "world \<Rightarrow> nat \<Rightarrow> size_t res" where
  "js_dual_arena_request_used w d =
     selected w d 0 (js_request_arena_used w)"

definition js_request_arena_held :: "world \<Rightarrow> nat \<Rightarrow> size_t res" where
  "js_request_arena_held w r = deref_ra w r (\<lambda>ra. Inr (held ra))"

definition js_request_arena_extents :: "world \<Rightarrow> nat \<Rightarrow> nat res" where
  "js_request_arena_extents w r = deref_ra w r (\<lambda>ra. Inr (extents ra))"

definition js_dual_arena_request_held :: "world \<Rightarrow> nat \<Rightarrow> size_t res" where
  "js_dual_arena_request_held w d = selected w d 0 (js_request_arena_held w)"

definition js_dual_arena_request_extents :: "world \<Rightarrow> nat \<Rightarrow> nat res" where
  "js_dual_arena_request_extents w d = selected w d 0 (js_request_arena_extents w)"

section \<open>The allocation functions\<close>

definition owner_mode :: "world \<Rightarrow> nat option \<Rightarrow> JSArenaReqMode option res" where
  "owner_mode w own =
     (case own of None \<Rightarrow> Inr None | Some r \<Rightarrow> deref_ra w r (\<lambda>ra. Inr (Some (ra_mode ra))))"

definition req_ptr_size :: "env \<Rightarrow> world \<Rightarrow> nat option \<Rightarrow> ptr \<Rightarrow> size_t res" where
  "req_ptr_size e w own p =
     res_bind (owner_mode w own) (\<lambda>md.
       Inr (if md = Some JS_ARENA_REQ_MODE_GC then mspace_usable_size e (memory w) p
            else arena_user_size (memory w) p))"

definition base_alloc :: "nat \<Rightarrow> JSDualArena \<Rightarrow> size_t \<Rightarrow> world \<Rightarrow> ptr \<times> world" where
  "base_alloc d da sz w =
     (case arena_alloc (memory w) (base da) sz of
        (m, a, p) \<Rightarrow> (p, (upd_da d (\<lambda>da. da\<lparr>base := a\<rparr>) w)\<lparr>memory := m\<rparr>))"

text \<open>The end of an allocation: count the bytes of a result, latch the refusal otherwise.\<close>

definition count_used :: "env \<Rightarrow> nat \<Rightarrow> size_t \<Rightarrow> ptr \<times> world \<Rightarrow> (ptr \<times> world) res" where
  "count_used e r n pw =
     (case pw of (p, w) \<Rightarrow>
        if p \<noteq> 0
        then Inr (p, upd_ra r (\<lambda>ra. ra\<lparr>used := used ra + mspace_usable_size e (memory w) p\<rparr>) w)
        else res_bind (note_oom r n w) (\<lambda>w1. Inr (0, w1)))"

definition jda_calloc :: "env \<Rightarrow> nat \<Rightarrow> size_t \<Rightarrow> size_t \<Rightarrow> world \<Rightarrow> (ptr \<times> world) res" where
  "jda_calloc e d count sz w =
     deref_da w d (\<lambda>da.
       if count = 0 \<or> sz = 0 then Inr (0, w)
       else if count > SIZE_MAX div sz then Inr (0, w)
       else
         let total = count * sz
         in if da_mode da = JS_ARENA_MODE_BASE
            then
              (case base_alloc d da total w of (p, w1) \<Rightarrow>
                 Inr (p, if p \<noteq> 0 then w1\<lparr>memory := memset (memory w1) p 0 (unat total)\<rparr> else w1))
            else
              (case da_cur da of
                 None \<Rightarrow> Inr (0, w)
               | Some r \<Rightarrow>
                   deref_ra w r (\<lambda>ra.
                     if ra_mode ra = JS_ARENA_REQ_MODE_BUMP
                     then
                       res_bind (req_bump_alloc e r total w) (\<lambda>(p, w1).
                         if p \<noteq> 0 then Inr (p, w1\<lparr>memory := memset (memory w1) p 0 (unat total)\<rparr>)
                         else res_bind (note_oom r total w1) (\<lambda>w2. Inr (0, w2)))
                     else
                       let w1 = w\<lparr>morecore_ra := Some r\<rparr>
                       in res_bind (ms_run e (mspace_calloc e (memory w1) (msp ra) count sz) w1) (count_used e r total))))"

definition jda_malloc :: "env \<Rightarrow> nat \<Rightarrow> size_t \<Rightarrow> world \<Rightarrow> (ptr \<times> world) res" where
  "jda_malloc e d sz w =
     deref_da w d (\<lambda>da.
       if da_mode da = JS_ARENA_MODE_BASE then Inr (base_alloc d da sz w)
       else
         (case da_cur da of
            None \<Rightarrow> Inr (0, w)
          | Some r \<Rightarrow>
              deref_ra w r (\<lambda>ra.
                if ra_mode ra = JS_ARENA_REQ_MODE_BUMP
                then
                  res_bind (req_bump_alloc e r sz w) (\<lambda>(p, w1).
                    if p \<noteq> 0 then Inr (p, w1) else res_bind (note_oom r sz w1) (\<lambda>w2. Inr (0, w2)))
                else
                  let w1 = w\<lparr>morecore_ra := Some r\<rparr>
                  in res_bind (ms_run e (mspace_malloc e (memory w1) (msp ra) sz) w1) (count_used e r sz))))"

definition jda_free :: "env \<Rightarrow> nat \<Rightarrow> ptr \<Rightarrow> world \<Rightarrow> world res" where
  "jda_free e d p w =
     deref_da w d (\<lambda>da.
       if p = 0 \<or> da_mode da = JS_ARENA_MODE_BASE then Inr w
       else
         res_bind (js_arena_ptr_request_owner (chunks w) p) (\<lambda>own.
           case own of
             None \<Rightarrow> Inr w
           | Some r \<Rightarrow>
               deref_ra w r (\<lambda>ra.
                 if ra_mode ra = JS_ARENA_REQ_MODE_BUMP then Inr w
                 else Inr ((upd_ra r (\<lambda>ra. ra\<lparr>used := used ra - mspace_usable_size e (memory w) p\<rparr>) w)
                             \<lparr>memory := mspace_free e (memory w) (msp ra) p\<rparr>))))"

definition jda_realloc :: "env \<Rightarrow> nat \<Rightarrow> ptr \<Rightarrow> size_t \<Rightarrow> world \<Rightarrow> (ptr \<times> world) res" where
  "jda_realloc e d p sz w =
     deref_da w d (\<lambda>da.
       if da_mode da = JS_ARENA_MODE_BASE
       then (case arena_realloc (memory w) (base da) p sz of
               (m, a, q) \<Rightarrow> Inr (q, (upd_da d (\<lambda>da. da\<lparr>base := a\<rparr>) w)\<lparr>memory := m\<rparr>))
       else if p = 0 then jda_malloc e d sz w
       else if sz = 0 then Inr (0, w)
       else
         (case da_cur da of
            None \<Rightarrow> Inr (0, w)
          | Some r \<Rightarrow>
              res_bind (js_arena_ptr_request_owner (chunks w) p) (\<lambda>own.
              res_bind (req_ptr_size e w own p) (\<lambda>old_size.
              deref_ra w r (\<lambda>ra.
                if ra_mode ra = JS_ARENA_REQ_MODE_BUMP
                then
                  res_bind (req_bump_realloc e r p sz old_size w) (\<lambda>(q, w1).
                    if q \<noteq> 0 then Inr (q, w1) else res_bind (note_oom r sz w1) (\<lambda>w2. Inr (0, w2)))
                else
                  let w1 = w\<lparr>morecore_ra := Some r\<rparr>
                  in if own = Some r
                     then
                       res_bind (ms_run e (mspace_realloc e (memory w1) (msp ra) p sz) w1) (\<lambda>(q, w2).
                         if q = 0 then res_bind (note_oom r sz w2) (\<lambda>w3. Inr (0, w3))
                         else Inr (q, upd_ra r (\<lambda>ra. ra\<lparr>used := used ra + (mspace_usable_size e (memory w2) q - old_size)\<rparr>) w2))
                     else
                       res_bind (ms_run e (mspace_malloc e (memory w1) (msp ra) sz) w1) (\<lambda>(q, w2).
                         if q = 0 then res_bind (note_oom r sz w2) (\<lambda>w3. Inr (0, w3))
                         else
                           let m = memcpy (memory w2) q p (unat (if sz < old_size then sz else old_size))
                           in Inr (q, (upd_ra r (\<lambda>ra. ra\<lparr>used := used ra + mspace_usable_size e m q\<rparr>) w2)
                                        \<lparr>memory := m\<rparr>)))))))"

definition jda_usable_size :: "env \<Rightarrow> world \<Rightarrow> ptr \<Rightarrow> size_t res" where
  "jda_usable_size e w p =
     (if p = 0 then Inr 0
      else res_bind (js_arena_ptr_request_owner (chunks w) p) (\<lambda>own. req_ptr_size e w own p))"

end
