(* ===== verification/ArenaHeap.thy ===== *)
theory ArenaHeap
  imports Layout DualArena
begin

text \<open>
  The address space of the dual-region allocator. \<open>lay\<close> reads off a state which blocks the base
  arenas, the provider caches and the request arenas hold; \<open>heap_inv\<close> says that no two of them
  overlap and that the chunk set of \<open>src/qjs-arena.c\<close> answers exactly with the request arena an address
  belongs to. Acquiring and releasing extents, through the cache, the page mapper or the host, always
  returns and keeps \<open>heap_inv\<close>; \<open>touch r\<close> is what such an operation leaves alone.
\<close>

section \<open>Blocks of a state\<close>

definition chunk_blk :: "JSReqChunk \<Rightarrow> block" where
  "chunk_blk c = (c_buf c, unat (c_size c))"

definition cache_blk :: "JSReqCacheEntry \<Rightarrow> block" where
  "cache_blk x = (e_buf x, unat (e_size x))"

definition base_blk :: "JSArena \<Rightarrow> block" where
  "base_blk a = (buf a, unat (capacity a))"

fun lay :: "world \<Rightarrow> layout" where
  "lay w (OBase d) = (case das w d of None \<Rightarrow> [] | Some da \<Rightarrow> [base_blk (base da)])"
| "lay w (OCache d) = (case das w d of None \<Rightarrow> [] | Some da \<Rightarrow> map cache_blk (cache da))"
| "lay w (OReq r) = (case ras w r of None \<Rightarrow> [] | Some ra \<Rightarrow> map chunk_blk (ra_list ra))"

definition in_use :: "layout \<Rightarrow> ptr set" where
  "in_use f = (\<Union>q. covers (f q))"

definition request_space :: "layout \<Rightarrow> ptr set" where
  "request_space f = (\<Union>r. covers (f (OReq r)))"

text \<open>A block that overlaps nothing and keeps the mapped bytes within four tebibytes.\<close>

definition room :: "layout \<Rightarrow> block \<Rightarrow> bool" where
  "room f b \<longleftrightarrow> fresh f b \<and> card (in_use f) + snd b \<le> 2 ^ 42"

definition heap_ok :: "layout \<Rightarrow> chunk_set \<Rightarrow> bool" where
  "heap_ok f cs \<longleftrightarrow>
     layout_ok f \<and> chunk_inv cs \<and>
     (\<forall>p r. chunk_owner cs (chunk_key p) = Some r \<longleftrightarrow> p \<in> covers (f (OReq r))) \<and>
     js_arena_chunk_count cs * 4096 \<le> card (request_space f) \<and> card (in_use f) \<le> 2 ^ 42"

definition heap_inv :: "world \<Rightarrow> bool" where
  "heap_inv w \<longleftrightarrow> heap_ok (lay w) (chunks w)"

section \<open>Counting bytes\<close>

lemma finite_addrs [simp]: "finite (A :: ptr set)"
  by (rule finite_subset [OF subset_UNIV]) simp

lemma card_blk:
  assumes "blk_ok b"
  shows "card (blk_set b) = snd b"
proof -
  obtain p n where b: "b = (p, n)" by (cases b)
  have "unat ` blk_set b = ival b"
  proof (intro set_eqI iffI)
    fix x assume "x \<in> ival b"
    then have "x < 2 ^ 64" and x: "unat p \<le> x" "x < unat p + n"
      using assms by (auto simp: ival_def blk_ok_def b)
    then have "unat (of_nat x :: u64) = x" by (intro unat_of_nat_u64) simp
    moreover from this have "of_nat x \<in> blk_set b" using x assms blk_set_iff [of p n "of_nat x"] by (simp add: b)
    ultimately show "x \<in> unat ` blk_set b" by (metis imageI)
  qed (use assms blk_set_iff [of p n] in \<open>auto simp: ival_def b\<close>)
  moreover have "card (unat ` blk_set b) = card (blk_set b)" by (intro card_image inj_onI) (simp add: word_unat_eq_iff)
  ultimately show ?thesis by (simp add: ival_def)
qed

lemma in_use_upd:
  assumes "covers zs = blk_set b \<union> covers (f q)"
  shows "in_use (f(q := zs)) = blk_set b \<union> in_use f"
    "request_space (f(q := zs)) = (case q of OReq r \<Rightarrow> blk_set b \<union> request_space f | _ \<Rightarrow> request_space f)"
  using assms unfolding in_use_def request_space_def
  by (auto split: region_owner.splits if_splits)

lemma fresh_use:
  assumes "fresh f b"
  shows "card (blk_set b \<union> in_use f) = card (in_use f) + snd b"
    "card (blk_set b \<union> request_space f) = card (request_space f) + snd b"
proof -
  have d: "blk_set b \<inter> in_use f = {}" "blk_set b \<inter> request_space f = {}"
    using assms unfolding fresh_def apart_def in_use_def request_space_def covers_def by blast+
  then show "card (blk_set b \<union> in_use f) = card (in_use f) + snd b"
    "card (blk_set b \<union> request_space f) = card (request_space f) + snd b"
    using card_blk [of b] assms by (simp_all add: card_Un_disjoint fresh_def)
qed

section \<open>Moves of blocks\<close>

lemma heap_okD:
  assumes "heap_ok f cs"
  shows "layout_ok f" "chunk_inv cs" "chunk_owner cs (chunk_key p) = Some r \<longleftrightarrow> p \<in> covers (f (OReq r))"
    "js_arena_chunk_count cs * 4096 \<le> card (request_space f)" "card (in_use f) \<le> 2 ^ 42"
  using assms unfolding heap_ok_def by blast+

lemma heap_add:
  assumes "heap_ok f cs" "room f b" "\<And>r. q \<noteq> OReq r" "f q = xs @ ys"
  shows "heap_ok (f(q := xs @ b # ys)) cs"
proof -
  have c: "covers (xs @ b # ys) = blk_set b \<union> covers (f q)" using assms(4) by auto
  have "request_space (f(q := xs @ b # ys)) = request_space f"
    using in_use_upd(2) [of _ b f q, OF c] assms(3) by (cases q) auto
  moreover have "card (in_use (f(q := xs @ b # ys))) \<le> 2 ^ 42"
    using assms(2) fresh_use(1) [of f b] unfolding in_use_upd(1) [of _ b f q, OF c] by (simp add: room_def)
  ultimately show ?thesis
    using assms heap_okD [OF assms(1)] layout_insert [OF heap_okD(1) [OF assms(1)], of b q xs ys]
    by (auto simp: heap_ok_def room_def)
qed

lemma heap_take:
  assumes "heap_ok f cs" "f q = xs @ b # ys" "\<And>r. q \<noteq> OReq r"
  shows "heap_ok (f(q := xs @ ys)) cs" "room (f(q := xs @ ys)) b"
proof -
  let ?g = "f(q := xs @ ys)"
  note L = layout_remove [OF heap_okD(1) [OF assms(1)] assms(2)]
  have c: "covers (f q) = blk_set b \<union> covers (?g q)" using assms(2) by auto
  have f: "f = ?g(q := f q)" by (simp add: fun_eq_iff)
  note U = in_use_upd [of _ b ?g q, OF c, folded f] and F = fresh_use [OF L(2)]
  have "request_space f = request_space ?g" using U(2) assms(3) by (cases q) auto
  moreover have u: "card (in_use f) = card (in_use ?g) + snd b" unfolding U(1) by (rule F(1))
  ultimately show "heap_ok ?g cs" "room ?g b"
    using L heap_okD [OF assms(1)] assms(3) by (auto simp: heap_ok_def room_def)
qed

lemma heap_clear:
  assumes "heap_ok f cs" "\<And>r. q \<noteq> OReq r"
  shows "heap_ok (f(q := [])) cs"
proof -
  note H = heap_okD [OF assms(1)]
  have "layout_ok (f(q := []))" using layoutD(2) [OF H(1)] by (intro layout_fewer [OF H(1)]) auto
  moreover have "in_use (f(q := [])) \<subseteq> in_use f" by (auto simp: in_use_def split: if_splits)
  then have "card (in_use (f(q := []))) \<le> card (in_use f)" by (intro card_mono) simp_all
  moreover have "request_space (f(q := [])) = request_space f"
    by (simp add: request_space_def assms(2) [symmetric])
  ultimately show ?thesis using H by (simp add: heap_ok_def assms(2) [symmetric])
qed

lemma blk_chunks:
  assumes "blk_ok (p, unat n)"
  shows "chunks_of p (p + n) * 4096 = unat n"
proof -
  have "unat (p + n) div 4096 - unat p div 4096 = unat n div 4096"
    using assms div_plus_div_distrib_dvd_left [of 4096 "unat p" "unat n"] unfolding blk_end [OF assms]
    by (simp add: blk_ok_def mod_eq_0_iff_dvd)
  then show ?thesis using chunks_of_eq [OF blk_aligned(3) [OF assms]] assms by (auto simp: blk_ok_def)
qed

lemma room_count:
  assumes "heap_ok f cs" "room f (p, unat n)"
  shows "js_arena_chunk_count cs + chunks_of p (p + n) \<le> 2 ^ 30"
proof -
  have "blk_ok (p, unat n)" using assms(2) by (simp add: room_def fresh_def)
  moreover have "card (request_space f) \<le> card (in_use f)"
    by (intro card_mono) (auto simp: request_space_def in_use_def)
  ultimately have "(js_arena_chunk_count cs + chunks_of p (p + n)) * 4096 \<le> 2 ^ 42"
    using heap_okD(4) [OF assms(1)] assms(2) blk_chunks [of p n] by (simp add: room_def add_mult_distrib)
  then show ?thesis by simp
qed

lemma heap_register:
  assumes "heap_ok f cs" "room f (p, unat n)"
  obtains cs' ok where "js_arena_register_request al cs p (p + n) (Some r) = Inr (cs', ok)" "al \<Longrightarrow> ok"
    "heap_ok (if ok then f(OReq r := f (OReq r) @ [(p, unat n)]) else f) cs'"
proof -
  note H = heap_okD [OF assms(1)]
  let ?g = "f(OReq r := f (OReq r) @ [(p, unat n)])"
  have b: "blk_ok (p, unat n)" and fr: "fresh f (p, unat n)" using assms(2) by (simp_all add: room_def fresh_def)
  obtain cs' ok where R: "js_arena_register_request al cs p (p + n) (Some r) = Inr (cs', ok)" "chunk_inv cs'"
    "al \<Longrightarrow> ok" "js_arena_chunk_count cs' \<le> js_arena_chunk_count cs + (if ok then chunks_of p (p + n) else 0)"
    "\<And>a. chunk_owner cs' (chunk_key a) = (if ok \<and> p \<le> a \<and> a < p + n then Some r else chunk_owner cs (chunk_key a))"
    using register_request_any [OF H(2) blk_aligned [OF b] room_count [OF assms], of al "Some r"] by blast
  have c: "covers (f (OReq r) @ [(p, unat n)]) = blk_set (p, unat n) \<union> covers (f (OReq r))" by auto
  note U = in_use_upd [of _ "(p, unat n)" f "OReq r", OF c] and F = fresh_use [OF fr]
  have "heap_ok ?g cs'" if ok
    unfolding heap_ok_def
  proof (intro conjI allI)
    show "layout_ok ?g" using layout_insert [OF H(1) fr, of "OReq r" "f (OReq r)" "[]"] by simp
    show "js_arena_chunk_count cs' * 4096 \<le> card (request_space ?g)"
      using R(4) that H(4) blk_chunks [OF b] F(2) U(2) mult_le_mono1 [OF R(4), of 4096]
      by (simp add: add_mult_distrib)
    show "card (in_use ?g) \<le> 2 ^ 42" using F(1) assms(2) unfolding U(1) by (simp add: room_def)
    fix a r'
    have "a \<in> covers (f (OReq r')) \<longrightarrow> a \<notin> blk_set (p, unat n)"
      using fr unfolding fresh_def apart_def covers_def by blast
    then show "chunk_owner cs' (chunk_key a) = Some r' \<longleftrightarrow> a \<in> covers (?g (OReq r'))"
      using R(5) [of a] that H(3) [of a r'] blk_range [OF b, of a] by auto
  qed (rule R(2))
  moreover have "heap_ok f cs'" if "\<not> ok"
    using R that H unfolding heap_ok_def by auto
  ultimately show thesis using that [OF R(1,3)] by simp
qed

lemma heap_unregister:
  assumes "heap_ok f cs" "f (OReq r) = xs @ (p, unat n) # ys"
  obtains cs' where "js_arena_unregister_request_range cs p (p + n) = Inr cs'"
    "heap_ok (f(OReq r := xs @ ys)) cs'" "room (f(OReq r := xs @ ys)) (p, unat n)"
proof -
  note H = heap_okD [OF assms(1)]
  let ?g = "f(OReq r := xs @ ys)"
  note L = layout_remove [OF H(1) assms(2)]
  have b: "blk_ok (p, unat n)" using L(2) by (simp add: fresh_def)
  obtain cs' where R: "js_arena_unregister_request_range cs p (p + n) = Inr cs'" "chunk_inv cs'"
    "\<And>a. chunk_owner cs' (chunk_key a) = (if p \<le> a \<and> a < p + n then None else chunk_owner cs (chunk_key a))"
    using unregister_range_owner [OF H(2) blk_aligned [OF b]] by blast
  have "chunk_owner cs (chunk_key a) \<noteq> None" if "p \<le> a" "a < p + n" for a
    using H(3) [of a r] that blk_range [OF b, of a] assms(2) by simp
  then have cnt: "js_arena_chunk_count cs' + chunks_of p (p + n) = js_arena_chunk_count cs"
    by (rule unregister_range_count [OF H(2) blk_aligned [OF b] _ R(1)])
  have c: "covers (f (OReq r)) = blk_set (p, unat n) \<union> covers (?g (OReq r))" using assms(2) by auto
  have f: "f = ?g(OReq r := f (OReq r))" by (simp add: fun_eq_iff)
  note U = in_use_upd [of _ "(p, unat n)" ?g "OReq r", OF c, folded f] and F = fresh_use [OF L(2)]
  have u: "card (in_use f) = card (in_use ?g) + unat n" "card (request_space f) = card (request_space ?g) + unat n"
    unfolding U region_owner.case using F by simp_all
  have rm: "room ?g (p, unat n)" using L(2) u(1) H(5) by (simp add: room_def)
  have "heap_ok ?g cs'"
    unfolding heap_ok_def
  proof (intro conjI allI)
    show "js_arena_chunk_count cs' * 4096 \<le> card (request_space ?g)"
      using H(4) u(2) blk_chunks [OF b] arg_cong [OF cnt, of "\<lambda>x. x * 4096"] by (simp add: add_mult_distrib)
    show "card (in_use ?g) \<le> 2 ^ 42" using u(1) H(5) by simp
    fix a r'
    have out: "a \<in> covers (?g (OReq r')) \<longrightarrow> a \<notin> blk_set (p, unat n)"
      using L(2) unfolding fresh_def apart_def covers_def by blast
    have split: "a \<in> covers (f (OReq r')) \<longleftrightarrow> a \<in> covers (?g (OReq r')) \<or> r' = r \<and> a \<in> blk_set (p, unat n)"
      using assms(2) by auto
    show "chunk_owner cs' (chunk_key a) = Some r' \<longleftrightarrow> a \<in> covers (?g (OReq r'))"
    proof (cases "a \<in> blk_set (p, unat n)")
      case True
      then have "chunk_owner cs' (chunk_key a) = None" using R(3) [of a] blk_range [OF b, of a] by simp
      then show ?thesis using True out by simp
    next
      case False
      then have "chunk_owner cs' (chunk_key a) = chunk_owner cs (chunk_key a)"
        using R(3) [of a] blk_range [OF b, of a] by auto
      then show ?thesis using H(3) [of a r'] split False by simp
    qed
  qed (rule L(1) R(2))+
  then show thesis using that R(1) rm by blast
qed

section \<open>The environment's promises on memory\<close>

text \<open>
  The page size is a power of two, and the page mapper and the host's provider hand out, for a size in
  whole chunks, nothing or a block of that size that overlaps nothing in use.
\<close>

definition pages_ok :: "env \<Rightarrow> bool" where
  "pages_ok e \<longleftrightarrow>
     (\<exists>k. 12 \<le> k \<and> k \<le> 30 \<and> page_round e = 2 ^ k) \<and>
     (\<forall>w sz. unat sz mod 4096 = 0 \<longrightarrow> map_pages e w sz \<noteq> 0 \<longrightarrow> room (lay w) (map_pages e w sz, unat sz)) \<and>
     (\<forall>w h sz. unat sz mod 4096 = 0 \<longrightarrow> host_acquire e w h sz \<noteq> 0 \<longrightarrow> room (lay w) (host_acquire e w h sz, unat sz))"

lemma pages_round_props:
  assumes "pages_ok e"
  shows "unat (pages_round e sz) mod 4096 = 0" "unat sz < 2 ^ 63 + 2 ^ 32 \<Longrightarrow> unat sz \<le> unat (pages_round e sz)"
proof -
  obtain k where k: "12 \<le> k" "k \<le> 30" "page_round e = 2 ^ k" using assms unfolding pages_ok_def by blast
  have r: "pages_round e sz = round_up k sz" by (simp add: pages_round_def round_up_def k(3) algebra_simps)
  have "(2 :: nat) ^ 12 dvd 2 ^ k" using k(1) by (rule le_imp_power_dvd)
  then show "unat (pages_round e sz) mod 4096 = 0"
    unfolding r round_up_def unat_and_not_low_bits by (simp add: dvd_mult)
  assume "unat sz < 2 ^ 63 + 2 ^ 32"
  moreover have "(2 :: nat) ^ k \<le> 2 ^ 30" using k(2) by (intro power_increasing) simp_all
  ultimately show "unat sz \<le> unat (pages_round e sz)"
    unfolding r using k(2) by (intro round_up_bounds(1)) simp_all
qed

section \<open>What an operation on one request leaves alone\<close>

definition same_da :: "JSDualArena \<Rightarrow> JSDualArena \<Rightarrow> bool" where
  "same_da a b \<longleftrightarrow> a\<lparr>cache := []\<rparr> = b\<lparr>cache := []\<rparr>"

definition touch :: "nat \<Rightarrow> world \<Rightarrow> world \<Rightarrow> bool" where
  "touch r w w' \<longleftrightarrow>
     (\<forall>d. rel_option same_da (das w d) (das w' d)) \<and> (\<forall>r'. r' \<noteq> r \<longrightarrow> ras w' r' = ras w r') \<and>
     next_da w' = next_da w \<and> next_ra w' = next_ra w \<and> ranges w' = ranges w \<and> therm w' = therm w \<and>
     (\<forall>d. \<forall>a \<in> covers (lay w (OBase d)). memory w' a = memory w a) \<and>
     (\<forall>r'. r' \<noteq> r \<longrightarrow> (\<forall>a \<in> covers (lay w (OReq r')). memory w' a = memory w a))"

definition kept :: "nat \<Rightarrow> world \<Rightarrow> world \<Rightarrow> bool" where
  "kept r w w' \<longleftrightarrow> (\<forall>a \<in> covers (lay w (OReq r)). memory w' a = memory w a)"

lemma same_da_refl [simp]: "same_da a a" by (simp add: same_da_def)

lemma same_da_cache [simp]: "same_da a (b\<lparr>cache := c\<rparr>) \<longleftrightarrow> same_da a b" "same_da (b\<lparr>cache := c\<rparr>) a \<longleftrightarrow> same_da b a"
  by (simp_all add: same_da_def)

lemma same_da_fields:
  assumes "same_da a b"
  shows "base a = base b" "da_mode a = da_mode b" "da_cur a = da_cur b" "requests a = requests b" "state_cell a = state_cell b"
proof -
  have "base (a\<lparr>cache := []\<rparr>) = base (b\<lparr>cache := []\<rparr>)" "da_mode (a\<lparr>cache := []\<rparr>) = da_mode (b\<lparr>cache := []\<rparr>)"
    "da_cur (a\<lparr>cache := []\<rparr>) = da_cur (b\<lparr>cache := []\<rparr>)" "requests (a\<lparr>cache := []\<rparr>) = requests (b\<lparr>cache := []\<rparr>)"
    "state_cell (a\<lparr>cache := []\<rparr>) = state_cell (b\<lparr>cache := []\<rparr>)"
    using assms by (simp_all only: same_da_def)
  then show "base a = base b" "da_mode a = da_mode b" "da_cur a = da_cur b" "requests a = requests b" "state_cell a = state_cell b"
    by simp_all
qed

lemma rel_same_refl [simp]: "rel_option same_da x x"
  by (cases x) simp_all

lemma rel_same_trans: "rel_option same_da x y \<Longrightarrow> rel_option same_da y z \<Longrightarrow> rel_option same_da x z"
  by (cases x; cases y; cases z) (simp_all add: same_da_def)

lemma touch_refl [simp]: "touch r w w" by (simp add: touch_def)

lemma kept_refl [simp]: "kept r w w" by (simp add: kept_def)

lemma touchD:
  assumes "touch r w w'"
  shows "rel_option same_da (das w d) (das w' d)" "r' \<noteq> r \<Longrightarrow> ras w' r' = ras w r'"
    "next_da w' = next_da w" "next_ra w' = next_ra w" "ranges w' = ranges w" "therm w' = therm w"
    "a \<in> covers (lay w (OBase d)) \<Longrightarrow> memory w' a = memory w a"
    "r' \<noteq> r \<Longrightarrow> a \<in> covers (lay w (OReq r')) \<Longrightarrow> memory w' a = memory w a"
  using assms unfolding touch_def by blast+

lemma touch_lay:
  assumes "touch r w w'"
  shows "lay w' (OBase d) = lay w (OBase d)" "r' \<noteq> r \<Longrightarrow> lay w' (OReq r') = lay w (OReq r')"
  using touchD(1) [OF assms, of d] touchD(2) [OF assms, of r']
  by (auto simp: rel_option_iff same_da_fields split: option.splits)

lemma touch_trans:
  assumes "touch r w w1" "touch r w1 w2"
  shows "touch r w w2"
  unfolding touch_def
proof (intro conjI allI impI ballI)
  note A = touchD [OF assms(1)] and B = touchD [OF assms(2)] and L = touch_lay [OF assms(1)]
  fix d r' a
  show "rel_option same_da (das w d) (das w2 d)" by (rule rel_same_trans [OF A(1) B(1)])
  show "ras w2 r' = ras w r'" if "r' \<noteq> r" using A(2) B(2) that by simp
  show "next_da w2 = next_da w" "next_ra w2 = next_ra w" "ranges w2 = ranges w" "therm w2 = therm w"
    using A B by simp_all
  show "memory w2 a = memory w a" if "a \<in> covers (lay w (OBase d))"
    using A(7) [OF that] B(7) [of a d] that L(1) by simp
  show "memory w2 a = memory w a" if "r' \<noteq> r" "a \<in> covers (lay w (OReq r'))"
    using A(8) [OF that] B(8) [OF that(1), of a] that L(2) by simp
qed

lemma touch_das: "touch r w w' \<Longrightarrow> das w d = Some da \<Longrightarrow> \<exists>da'. das w' d = Some da' \<and> same_da da da'"
  using touchD(1) [of r w w' d] by (auto simp: option_rel_Some1)

lemma touch_das_None: "touch r w w' \<Longrightarrow> das w' d = None \<longleftrightarrow> das w d = None"
  using touchD(1) [of r w w' d] by (cases "das w d"; cases "das w' d") auto

end
