(* ===== verification/ArenaAcquire.thy ===== *)
theory ArenaAcquire
  imports ArenaHeap
begin

text \<open>
  Acquiring and releasing extents (\<open>src/qjs-arena.c\<close>, \<open>default_acquire\<close> to \<open>req_release_extents\<close>):
  through the cache, the page mapper or the host, each of these returns, keeps \<open>heap_inv\<close> and leaves
  every other request arena and every base arena alone.
\<close>

section \<open>The layout after an update\<close>

lemma lay_simps [simp]:
  "lay (advance w) = lay w" "lay (w\<lparr>memory := m\<rparr>) = lay w" "lay (w\<lparr>chunks := cs\<rparr>) = lay w"
  "lay (w\<lparr>ranges := rs\<rparr>) = lay w" "lay (w\<lparr>therm := t\<rparr>) = lay w" "lay (w\<lparr>morecore_ra := x\<rparr>) = lay w"
  by (rule ext, rename_tac q, case_tac q, simp_all add: advance_def)+

lemma advance_fields [simp]:
  "memory (advance w) = memory w" "ranges (advance w) = ranges w" "chunks (advance w) = chunks w"
  "das (advance w) = das w" "ras (advance w) = ras w" "next_da (advance w) = next_da w"
  "next_ra (advance w) = next_ra w" "morecore_ra (advance w) = morecore_ra w" "therm (advance w) = therm w"
  by (simp_all add: advance_def)

lemma upd_da_fields [simp]:
  "memory (upd_da d f w) = memory w" "ranges (upd_da d f w) = ranges w" "chunks (upd_da d f w) = chunks w"
  "das (upd_da d f w) = (das w)(d := map_option f (das w d))" "ras (upd_da d f w) = ras w"
  "next_da (upd_da d f w) = next_da w" "next_ra (upd_da d f w) = next_ra w"
  "morecore_ra (upd_da d f w) = morecore_ra w" "therm (upd_da d f w) = therm w"
  by (simp_all add: upd_da_def)

lemma upd_ra_fields [simp]:
  "memory (upd_ra r f w) = memory w" "ranges (upd_ra r f w) = ranges w" "chunks (upd_ra r f w) = chunks w"
  "das (upd_ra r f w) = das w" "ras (upd_ra r f w) = (ras w)(r := map_option f (ras w r))"
  "next_da (upd_ra r f w) = next_da w" "next_ra (upd_ra r f w) = next_ra w"
  "morecore_ra (upd_ra r f w) = morecore_ra w" "therm (upd_ra r f w) = therm w"
  by (simp_all add: upd_ra_def)

lemma lay_upd_cache:
  assumes "das w d = Some da"
  shows "lay (upd_da d (\<lambda>da. da\<lparr>cache := c da\<rparr>) w) = (lay w)(OCache d := map cache_blk (c da))"
proof
  fix q show "lay (upd_da d (\<lambda>da. da\<lparr>cache := c da\<rparr>) w) q = ((lay w)(OCache d := map cache_blk (c da))) q"
    using assms by (cases q) (auto split: option.splits)
qed

lemma lay_upd_ra:
  assumes "ras w r = Some ra"
  shows "lay (upd_ra r f w) = (lay w)(OReq r := map chunk_blk (ra_list (f ra)))"
proof
  fix q show "lay (upd_ra r f w) q = ((lay w)(OReq r := map chunk_blk (ra_list (f ra)))) q"
    using assms by (cases q) auto
qed

lemma touch_same:
  assumes "\<And>d. rel_option same_da (das w d) (das w' d)" "\<And>r'. r' \<noteq> r \<Longrightarrow> ras w' r' = ras w r'"
    "next_da w' = next_da w" "next_ra w' = next_ra w" "ranges w' = ranges w" "therm w' = therm w"
    "memory w' = memory w"
  shows "touch r w w'"
  using assms by (simp add: touch_def)

lemma kept_same: "memory w' = memory w \<Longrightarrow> kept r w w'"
  by (simp add: kept_def)

lemma pages_okD:
  assumes "pages_ok e" "unat sz mod 4096 = 0"
  shows "map_pages e w sz \<noteq> 0 \<Longrightarrow> room (lay w) (map_pages e w sz, unat sz)"
    "host_acquire e w h sz \<noteq> 0 \<Longrightarrow> room (lay w) (host_acquire e w h sz, unat sz)"
  using assms by (simp_all add: pages_ok_def)

section \<open>Taking a block from a provider\<close>

lemma cache_take_split:
  "cache_take sz xs = Some (p, ys) \<Longrightarrow>
     \<exists>us x vs. xs = us @ x # vs \<and> ys = us @ vs \<and> e_buf x = p \<and> e_size x = sz"
proof (induction xs arbitrary: ys)
  case (Cons x xs)
  show ?case
  proof (cases "e_size x = sz")
    case True
    then show ?thesis using Cons.prems by (intro exI [of _ "[]"] exI [of _ x] exI [of _ xs]) simp
  next
    case False
    then obtain zs where z: "cache_take sz xs = Some (p, zs)" "ys = x # zs" using Cons.prems by auto
    then obtain us y vs where "xs = us @ y # vs" "zs = us @ vs" "e_buf y = p" "e_size y = sz"
      using Cons.IH by blast
    then show ?thesis using z(2) by (intro exI [of _ "x # us"] exI [of _ y] exI [of _ vs]) simp
  qed
qed simp

definition prov_live :: "world \<Rightarrow> JSArenaChunkProvider \<Rightarrow> bool" where
  "prov_live w pv \<longleftrightarrow> (case pv of DefaultProvider d \<Rightarrow> das w d \<noteq> None | HostProvider h \<Rightarrow> True)"

lemma touch_prov_live: "touch r w w' \<Longrightarrow> prov_live w' pv \<longleftrightarrow> prov_live w pv"
  by (auto simp: prov_live_def touch_das_None split: JSArenaChunkProvider.splits)

text \<open>The outcome of an acquisition: nothing, or a block outside everything in use.\<close>

definition acquired :: "nat \<Rightarrow> world \<Rightarrow> size_t \<Rightarrow> ptr \<Rightarrow> world \<Rightarrow> bool" where
  "acquired r w sz p w' \<longleftrightarrow>
     heap_inv w' \<and> touch r w w' \<and> kept r w w' \<and> ras w' = ras w \<and> morecore_ra w' = morecore_ra w \<and> (p \<noteq> 0 \<longrightarrow> room (lay w') (p, unat sz))"

lemma fresh_not_used:
  assumes "fresh f b" "a \<in> covers (f q)"
  shows "a \<notin> blk_set b"
  using assms unfolding fresh_def apart_def covers_def by blast

lemma pages_map_acquired:
  assumes "heap_inv w" "pages_ok e" "unat sz mod 4096 = 0"
  shows "acquired r w sz (fst (pages_map e sz w)) (snd (pages_map e sz w))"
proof (cases "map_pages e w sz = 0")
  case True
  then show ?thesis using assms(1) by (auto simp: acquired_def pages_map_def Let_def heap_inv_def intro: touch_same kept_same)
next
  case False
  then have rm: "room (lay w) (map_pages e w sz, unat sz)" by (rule pages_okD(1) [OF assms(2,3)])
  let ?w = "(advance w)\<lparr>memory := memset (memory w) (map_pages e w sz) 0 (unat sz)\<rparr>"
  have m: "memory ?w a = memory w a" if "a \<in> covers (lay w q)" for a q
    using fresh_not_used [of "lay w" "(map_pages e w sz, unat sz)" a q] that rm
    by (simp add: room_def blk_set_def memset_outside del: lay.simps)
  have "touch r w ?w" unfolding touch_def using m by (simp del: lay.simps)
  moreover have "kept r w ?w" unfolding kept_def using m by blast
  ultimately show ?thesis
    using False assms(1) rm by (simp add: acquired_def pages_map_def Let_def heap_inv_def)
qed

lemma default_acquire_acquired:
  assumes "heap_inv w" "pages_ok e" "das w d = Some da" "unat sz mod 4096 = 0"
  obtains p w' where "default_acquire e d sz w = Inr (p, w')" "acquired r w sz p w'"
proof (cases "cache_take sz (cache da)")
  case None
  then have "default_acquire e d sz w = Inr (pages_map e sz w)"
    using assms(3) by (simp add: default_acquire_def deref_da_def)
  then show thesis using that [of "fst (pages_map e sz w)" "snd (pages_map e sz w)"] pages_map_acquired [OF assms(1,2,4)] by simp
next
  case (Some py)
  obtain p ys where py: "py = (p, ys)" by (cases py)
  obtain us x vs where x: "cache da = us @ x # vs" "ys = us @ vs" "e_buf x = p" "e_size x = sz"
    using cache_take_split [of sz "cache da" p ys] Some py by blast
  let ?w = "upd_da d (\<lambda>da. da\<lparr>cache := ys\<rparr>) w"
  have l: "lay w (OCache d) = map cache_blk us @ (p, unat sz) # map cache_blk vs"
    using assms(3) x by (simp add: cache_blk_def)
  have lw: "lay ?w = (lay w)(OCache d := map cache_blk us @ map cache_blk vs)"
    using lay_upd_cache [OF assms(3), of "\<lambda>_. ys"] x(2) by simp
  note T = heap_take [OF assms(1) [unfolded heap_inv_def] l]
  have "heap_inv ?w" "room (lay ?w) (p, unat sz)" using T unfolding heap_inv_def lw by simp_all
  moreover have "touch r w ?w" using assms(3) by (intro touch_same) auto
  ultimately have "acquired r w sz p ?w" by (simp add: acquired_def kept_def)
  moreover have "default_acquire e d sz w = Inr (p, ?w)"
    using assms(3) Some py by (simp add: default_acquire_def deref_da_def)
  ultimately show thesis by (rule that [rotated])
qed

lemma prov_acquire_acquired:
  assumes "heap_inv w" "pages_ok e" "prov_live w pv" "unat sz mod 4096 = 0"
  obtains p w' where "prov_acquire e pv sz w = Inr (p, w')" "acquired r w sz p w'"
proof (cases pv)
  case (DefaultProvider d)
  then obtain da where "das w d = Some da" using assms(3) by (auto simp: prov_live_def)
  from default_acquire_acquired [OF assms(1,2) this assms(4)] show thesis
    using that DefaultProvider by auto
next
  case (HostProvider h)
  have "host_acquire e w h sz \<noteq> 0 \<longrightarrow> room (lay w) (host_acquire e w h sz, unat sz)"
    using pages_okD(2) [OF assms(2,4)] by blast
  then have "acquired r w sz (host_acquire e w h sz) (advance w)"
    using assms(1) by (auto simp: acquired_def heap_inv_def kept_def intro: touch_same kept_same)
  then show thesis using that HostProvider by simp
qed

section \<open>Giving a block back\<close>

text \<open>The state while extents of request \<open>r\<close> are being released: \<open>bs\<close> are those still held.\<close>

definition heap_with :: "nat \<Rightarrow> block list \<Rightarrow> world \<Rightarrow> bool" where
  "heap_with r bs w \<longleftrightarrow> heap_ok ((lay w)(OReq r := bs)) (chunks w)"

definition released :: "nat \<Rightarrow> world \<Rightarrow> world \<Rightarrow> bool" where
  "released r w w' \<longleftrightarrow> touch r w w' \<and> ras w' = ras w \<and> memory w' = memory w \<and> morecore_ra w' = morecore_ra w"

lemma released_trans: "released r w w1 \<Longrightarrow> released r w1 w2 \<Longrightarrow> released r w w2"
  using touch_trans by (auto simp: released_def)

lemma prov_release_ok:
  assumes "heap_with r bs w" "room ((lay w)(OReq r := bs)) (p, unat sz)" "prov_live w pv"
  obtains w' where "prov_release e pv p sz w = Inr w'" "heap_with r bs w'" "released r w w'"
proof -
  have quiet: "heap_with r bs (advance w)" "released r w (advance w)"
    using assms(1) by (auto simp: heap_with_def released_def intro: touch_same kept_same)
  show thesis
  proof (cases pv)
    case (DefaultProvider d)
    then obtain da where da: "das w d = Some da" using assms(3) by (auto simp: prov_live_def)
    show thesis
    proof (cases "sz = JS_ARENA_REQ_EXTENT_DEFAULT \<and> libc_ok e w")
      case False
      then have "prov_release e pv p sz w = Inr (advance w)"
        using DefaultProvider da by (auto simp add: default_release_def deref_da_def pages_unmap_def)
      then show thesis using that quiet by blast
    next
      case True
      let ?f = "\<lambda>da. da\<lparr>cache := \<lparr>e_buf = p, e_size = sz\<rparr> # cache da\<rparr>"
      let ?w = "advance (upd_da d ?f w)"
      have l: "lay ?w = (lay w)(OCache d := (p, unat sz) # lay w (OCache d))"
        using lay_upd_cache [OF da, of "\<lambda>da. \<lparr>e_buf = p, e_size = sz\<rparr> # cache da"] da by (simp add: cache_blk_def)
      have "heap_ok (((lay w)(OReq r := bs))(OCache d := [] @ (p, unat sz) # lay w (OCache d))) (chunks w)"
        using assms(1,2) unfolding heap_with_def by (intro heap_add) simp_all
      then have "heap_with r bs ?w" unfolding heap_with_def l by (simp add: fun_upd_twist)
      moreover have "released r w ?w" using da by (auto simp: released_def intro!: touch_same)
      moreover have "prov_release e pv p sz w = Inr ?w"
        using DefaultProvider da True by (simp add: default_release_def deref_da_def)
      ultimately show thesis using that by blast
    qed
  next
    case (HostProvider h)
    then show thesis using that [of "advance w"] quiet by simp
  qed
qed

lemma req_release_chunk_ok:
  assumes "heap_with r (xs @ chunk_blk c # ys) w" "prov_live w pv"
  obtains w' where "req_release_chunk e pv c w = Inr w'" "heap_with r (xs @ ys) w'" "released r w w'"
proof -
  let ?f = "(lay w)(OReq r := xs @ chunk_blk c # ys)"
  obtain cs where cs: "js_arena_unregister_request_range (chunks w) (c_buf c) (c_buf c + c_size c) = Inr cs"
    "heap_ok (?f(OReq r := xs @ ys)) cs" "room (?f(OReq r := xs @ ys)) (chunk_blk c)"
    using heap_unregister [OF assms(1) [unfolded heap_with_def], of r xs "c_buf c" "c_size c" ys]
    by (auto simp: chunk_blk_def)
  let ?w = "w\<lparr>chunks := cs\<rparr>"
  have "heap_with r (xs @ ys) ?w" "room ((lay ?w)(OReq r := xs @ ys)) (c_buf c, unat (c_size c))"
    using cs by (simp_all add: heap_with_def chunk_blk_def)
  moreover have "prov_live ?w pv" using assms(2) by (cases pv) (simp_all add: prov_live_def)
  ultimately obtain w' where "prov_release e pv (c_buf c) (c_size c) ?w = Inr w'" "heap_with r (xs @ ys) w'" "released r ?w w'"
    using prov_release_ok [of r "xs @ ys" ?w "c_buf c" "c_size c" pv e] by blast
  moreover have "released r w ?w" by (auto simp: released_def intro: touch_same kept_same)
  ultimately show thesis using that [of w'] cs(1) by (auto simp: req_release_chunk_def intro: released_trans)
qed

lemma release_all_ok:
  "heap_with r (xs @ map chunk_blk cs) w \<Longrightarrow> prov_live w pv \<Longrightarrow>
     \<exists>w'. release_all e pv cs w = Inr w' \<and> heap_with r xs w' \<and> released r w w'"
proof (induction cs arbitrary: w)
  case (Cons c cs)
  obtain w1 where w1: "req_release_chunk e pv c w = Inr w1" "heap_with r (xs @ map chunk_blk cs) w1" "released r w w1"
    using req_release_chunk_ok [of r xs c "map chunk_blk cs" w pv] Cons.prems by auto
  then have "prov_live w1 pv" using touch_prov_live Cons.prems(2) by (auto simp: released_def)
  then obtain w' where "release_all e pv cs w1 = Inr w'" "heap_with r xs w'" "released r w1 w'"
    using Cons.IH [OF w1(2)] by blast
  then show ?case using w1 released_trans by auto
qed (auto simp: released_def)

section \<open>The extents of a request arena\<close>

text \<open>The two counters the code keeps, and the budget.\<close>

definition extents_ok :: "JSRequestArena \<Rightarrow> bool" where
  "extents_ok ra \<longleftrightarrow>
     extents ra = length (ra_list ra) \<and> unat (held ra) = sum_list (map (\<lambda>c. unat (c_size c)) (ra_list ra)) \<and>
     held ra \<le> cap ra"

lemma held_bound:
  assumes "heap_inv w" "ras w r = Some ra" "extents_ok ra"
  shows "unat (held ra) \<le> 2 ^ 47"
proof -
  note L = heap_okD(1) [OF assms(1) [unfolded heap_inv_def]]
  have "sum_list (map snd (lay w (OReq r))) \<le> 2 ^ 47"
    using layoutD(1,2) [OF L] by (intro total_bound) blast+
  moreover have "map snd (lay w (OReq r)) = map (\<lambda>c. unat (c_size c)) (ra_list ra)"
    using assms(2) by (simp add: chunk_blk_def comp_def)
  ultimately show ?thesis using assms(3) by (simp add: extents_ok_def)
qed

lemma acquire_size_props:
  assumes "acquire_size e ra need = Some sz" "pages_ok e"
  shows "unat sz mod 4096 = 0" "pages_round e need \<le> sz" "held ra + sz \<le> cap ra"
  using assms(1) pages_round_props(1) [OF assms(2), of need]
  by (auto simp: acquire_size_def Let_def not_less split: if_splits)

lemma append_extents_ok:
  assumes "heap_inv w" "ras w r = Some ra" "extents_ok ra" "held ra + sz \<le> cap ra" "blk_ok (p, unat sz)"
  shows "extents_ok (append_chunk \<lparr>c_buf = p, c_size = sz\<rparr> ra)"
proof -
  have "unat (held ra + sz) = unat (held ra) + unat sz"
    using held_bound [OF assms(1-3)] assms(5) by (intro unat_add_no_wrap) (simp add: blk_ok_def)
  then show ?thesis using assms(3,4) by (simp add: extents_ok_def append_chunk_def)
qed

text \<open>The outcome of \<open>req_acquire\<close>: the request unchanged, or one more extent within the budget.\<close>

definition grown :: "env \<Rightarrow> size_t \<Rightarrow> JSRequestArena \<Rightarrow> nat option \<Rightarrow> JSRequestArena option \<Rightarrow> bool" where
  "grown e need ra c ro =
     (case c of
        None \<Rightarrow> ro = Some ra
      | Some i \<Rightarrow> i = length (ra_list ra) \<and>
          (\<exists>p sz. ro = Some (append_chunk \<lparr>c_buf = p, c_size = sz\<rparr> ra) \<and> pages_round e need \<le> sz \<and>
             blk_ok (p, unat sz) \<and> extents_ok (append_chunk \<lparr>c_buf = p, c_size = sz\<rparr> ra)))"

lemma acquiredD:
  assumes "acquired r w sz p w'"
  shows "heap_inv w'" "touch r w w'" "kept r w w'" "ras w' = ras w" "morecore_ra w' = morecore_ra w"
    "p \<noteq> 0 \<Longrightarrow> room (lay w') (p, unat sz)"
  using assms by (simp_all add: acquired_def)

lemma heap_with_self: "heap_with r (lay w (OReq r)) w = heap_inv w"
  by (simp only: heap_with_def heap_inv_def fun_upd_triv)

lemma kept_trans: "kept r w w1 \<Longrightarrow> kept r w1 w2 \<Longrightarrow> lay w1 (OReq r) = lay w (OReq r) \<Longrightarrow> kept r w w2"
  by (simp add: kept_def del: lay.simps)

lemma register_extent:
  assumes w1: "heap_inv w1" "ras w1 r = Some ra" "prov_live w1 (prov ra)" "extents_ok ra"
    and rm: "room (lay w1) (p, unat sz)" and sz: "held ra + sz \<le> cap ra" "pages_round e need \<le> sz"
  obtains c w' where
    "res_bind (js_arena_register_request (libc_ok e w1) (chunks w1) p (p + sz) (Some r)) (\<lambda>(cs, ok).
       let w2 = (advance w1)\<lparr>chunks := cs\<rparr>
       in if \<not> ok then res_bind (prov_release e (prov ra) p sz w2) (\<lambda>w3. Inr (None, w3))
          else Inr (Some (length (ra_list ra)), upd_ra r (append_chunk \<lparr>c_buf = p, c_size = sz\<rparr>) w2)) = Inr (c, w')"
    "heap_inv w'" "touch r w1 w'" "memory w' = memory w1" "morecore_ra w' = morecore_ra w1" "grown e need ra c (ras w' r)"
proof -
  note H = w1(1) [unfolded heap_inv_def]
  obtain cs ok where R: "js_arena_register_request (libc_ok e w1) (chunks w1) p (p + sz) (Some r) = Inr (cs, ok)"
    "heap_ok (if ok then (lay w1)(OReq r := lay w1 (OReq r) @ [(p, unat sz)]) else lay w1) cs"
    using heap_register [OF H rm, of "libc_ok e w1" r] by blast
  let ?w2 = "(advance w1)\<lparr>chunks := cs\<rparr>"
  have b: "blk_ok (p, unat sz)" using rm by (simp add: room_def fresh_def)
  show thesis
  proof (cases ok)
    case True
    let ?w' = "upd_ra r (append_chunk \<lparr>c_buf = p, c_size = sz\<rparr>) ?w2"
    have l: "lay ?w' = (lay w1)(OReq r := lay w1 (OReq r) @ [(p, unat sz)])"
      using lay_upd_ra [of ?w2 r ra] w1(2) by (simp add: append_chunk_def chunk_blk_def)
    have "heap_inv ?w'" using R(2) True unfolding heap_inv_def l by simp
    moreover have "touch r w1 ?w'" by (intro touch_same) auto
    moreover have "grown e need ra (Some (length (ra_list ra))) (ras ?w' r)"
      using w1(2) b sz(2) append_extents_ok [OF w1(1,2,4) sz(1) b] by (auto simp: grown_def)
    ultimately show thesis using that [of "Some (length (ra_list ra))" ?w'] R(1) True by (simp add: Let_def)
  next
    case False
    have "heap_with r (lay w1 (OReq r)) ?w2" "room ((lay ?w2)(OReq r := lay w1 (OReq r))) (p, unat sz)"
      using R(2) False rm by (simp_all add: heap_with_def fun_upd_triv del: lay.simps fun_upd_apply)
    moreover have "prov_live ?w2 (prov ra)" using w1(3) by (cases "prov ra") (simp_all add: prov_live_def)
    ultimately obtain w' where w': "prov_release e (prov ra) p sz ?w2 = Inr w'" "heap_with r (lay w1 (OReq r)) w'" "released r ?w2 w'"
      using prov_release_ok by blast
    have "touch r w1 ?w2" by (intro touch_same) auto
    then have t: "touch r w1 w'" using w'(3) touch_trans by (auto simp: released_def)
    have "lay w' (OReq r) = lay w1 (OReq r)" using w'(3) by (simp add: released_def)
    then have "heap_inv w'" using w'(2) heap_with_self [of r w'] by simp
    then show thesis using that [of None w'] R(1) False w'(1,3) t w1(2) by (simp add: Let_def grown_def released_def)
  qed
qed

lemma req_acquire_ok:
  assumes "heap_inv w" "pages_ok e" "ras w r = Some ra" "prov_live w (prov ra)" "extents_ok ra"
  obtains c w' where "req_acquire e r need w = Inr (c, w')" "heap_inv w'" "touch r w w'" "kept r w w'"
    "morecore_ra w' = morecore_ra w" "grown e need ra c (ras w' r)"
proof (cases "acquire_size e ra need")
  case None
  then show thesis using that [of None w] assms by (simp add: req_acquire_def deref_ra_def grown_def)
next
  case (Some sz)
  note S = acquire_size_props [OF Some assms(2)]
  have aw: "heap_inv (advance w)" "touch r w (advance w)" "prov_live (advance w) (prov ra)"
    using assms(1,4) by (auto simp: heap_inv_def prov_live_def intro: touch_same split: JSArenaChunkProvider.splits)
  show thesis
  proof (cases "libc_ok e w")
    case False
    then show thesis using that [of None "advance w"] aw assms(3) Some
      by (simp add: req_acquire_def deref_ra_def grown_def kept_def)
  next
    case True
    obtain p w1 where P: "prov_acquire e (prov ra) sz (advance w) = Inr (p, w1)" "acquired r (advance w) sz p w1"
      using prov_acquire_acquired [OF aw(1) assms(2) aw(3) S(1)] by blast
    note A = acquiredD [OF P(2)]
    have t: "touch r w w1" by (rule touch_trans [OF aw(2) A(2)])
    have k: "kept r w w1" using A(3) by (simp add: kept_def del: lay.simps)
    show thesis
    proof (cases "p = 0")
      case True
      then show thesis using that [of None w1] A t k assms(3) Some \<open>libc_ok e w\<close> P(1)
        by (simp add: req_acquire_def deref_ra_def grown_def)
    next
      case False
      note rm = A(6) [OF False]
      have b: "blk_ok (p, unat sz)" using rm by (simp add: room_def fresh_def)
      then have al: "p AND (JS_ARENA_CHUNK_SIZE - 1) = 0" using blk_aligned(1) [OF b] by (simp add: chunk_aligned_def)
      have ra1: "ras w1 r = Some ra" "prov_live w1 (prov ra)"
        using A(4) assms(3) touch_prov_live [OF t] assms(4) by simp_all
      obtain c w' where R: "res_bind (js_arena_register_request (libc_ok e w1) (chunks w1) p (p + sz) (Some r)) (\<lambda>(cs, ok).
         let w2 = (advance w1)\<lparr>chunks := cs\<rparr>
         in if \<not> ok then res_bind (prov_release e (prov ra) p sz w2) (\<lambda>w3. Inr (None, w3))
            else Inr (Some (length (ra_list ra)), upd_ra r (append_chunk \<lparr>c_buf = p, c_size = sz\<rparr>) w2)) = Inr (c, w')"
        "heap_inv w'" "touch r w1 w'" "memory w' = memory w1" "morecore_ra w' = morecore_ra w1" "grown e need ra c (ras w' r)"
        using register_extent [OF A(1) ra1 assms(5) rm S(3,2)] by blast
      have "req_acquire e r need w = Inr (c, w')"
        using assms(3) Some \<open>libc_ok e w\<close> P(1) False al R(1) by (simp add: req_acquire_def deref_ra_def)
      moreover have "kept r w w'" using k R(4) by (simp add: kept_def del: lay.simps)
      ultimately show thesis using that R(2,5,6) touch_trans [OF t R(3)] A(5) by simp
    qed
  qed
qed

text \<open>Releasing every extent but the first.\<close>

lemma req_release_extents_ok:
  assumes "heap_inv w" "ras w r = Some ra" "prov_live w (prov ra)" "ra_list ra = h # cs"
  obtains w' where "req_release_extents e r w = Inr w'" "heap_inv w'" "touch r w w'" "memory w' = memory w"
    "morecore_ra w' = morecore_ra w" "ras w' r = Some (keep_head ra)"
proof -
  have "heap_with r ([chunk_blk h] @ map chunk_blk cs) w"
    using assms(1,2,4) heap_with_self [of r w] by simp
  then obtain w1 where w1: "release_all e (prov ra) cs w = Inr w1" "heap_with r [chunk_blk h] w1" "released r w w1"
    using release_all_ok [OF _ assms(3)] by blast
  let ?w = "upd_ra r keep_head w1"
  have r1: "ras w1 r = Some ra" using w1(3) assms(2) by (simp add: released_def)
  have "lay ?w = (lay w1)(OReq r := [chunk_blk h])"
    using lay_upd_ra [OF r1, of keep_head] assms(4) by (simp add: keep_head_def)
  then have "heap_inv ?w" using w1(2) by (simp add: heap_inv_def heap_with_def)
  moreover have "touch r w1 ?w" by (intro touch_same) auto
  then have "touch r w ?w" using w1(3) touch_trans by (auto simp: released_def)
  moreover have "req_release_extents e r w = Inr ?w"
    using assms(2,4) w1(1) by (simp add: req_release_extents_def deref_ra_def)
  ultimately show thesis using that w1(3) r1 by (simp add: released_def)
qed

end
