(* ===== verification/BumpRequest.thy ===== *)
theory BumpRequest
  imports ArenaAcquire
begin

text \<open>
  The bump allocator over the extents of one request arena (\<open>src/qjs-arena.c\<close>, \<open>req_bump_reset\<close>,
  \<open>req_bump_alloc\<close>, \<open>req_bump_realloc\<close>). \<open>spent\<close> is the memory it has handed out since the last reset.
  An allocation always returns; its block lies in the request's extents, outside everything handed out
  before, whose bytes it keeps.
\<close>

declare lay.simps [simp del]

section \<open>The state of one request arena\<close>

abbreviation req_floor :: nat where "req_floor \<equiv> 528"

definition ra_ok :: "JSRequestArena \<Rightarrow> bool" where
  "ra_ok ra \<longleftrightarrow> ra_list ra \<noteq> [] \<and> extents_ok ra \<and> ra_floor ra = of_nat req_floor"

definition cur_blk :: "JSRequestArena \<Rightarrow> block" where
  "cur_blk ra = chunk_blk (ra_list ra ! cur_chunk ra)"

definition last_at :: "JSRequestArena \<Rightarrow> bool" where
  "last_at ra \<longleftrightarrow>
     (let off = unat (ra_last_ptr ra - fst (cur_blk ra)) in
      16 \<le> off \<and> off mod 16 = 0 \<and> (cur_chunk ra = 0 \<longrightarrow> req_floor + 16 \<le> off) \<and>
      off + unat (ra_last_aligned ra) = unat (cursor ra))"

definition bump_at :: "JSRequestArena \<Rightarrow> bool" where
  "bump_at ra \<longleftrightarrow>
     cur_chunk ra < length (ra_list ra) \<and> unat (cursor ra) \<le> snd (cur_blk ra) \<and> unat (cursor ra) mod 16 = 0 \<and>
     (cur_chunk ra = 0 \<longrightarrow> req_floor \<le> unat (cursor ra))"

definition bump_ok :: "JSRequestArena \<Rightarrow> bool" where
  "bump_ok ra \<longleftrightarrow> bump_at ra \<and> (ra_last_ptr ra \<noteq> 0 \<longrightarrow> last_at ra)"

definition spent :: "JSRequestArena \<Rightarrow> ptr set" where
  "spent ra = covers (map chunk_blk (take (cur_chunk ra) (ra_list ra))) \<union> region (fst (cur_blk ra)) (unat (cursor ra))"

text \<open>What growing and allocating keep of a request arena.\<close>

definition ra_same :: "JSRequestArena \<Rightarrow> JSRequestArena \<Rightarrow> bool" where
  "ra_same ra ra' \<longleftrightarrow>
     ra_da ra' = ra_da ra \<and> prov ra' = prov ra \<and> cap ra' = cap ra \<and> msp ra' = msp ra \<and> used ra' = used ra \<and>
     oom ra' = oom ra \<and> ra_mode ra' = ra_mode ra \<and> mode_next ra' = mode_next ra \<and>
     (\<exists>xs. ra_list ra' = ra_list ra @ xs)"

definition local_ok :: "world \<Rightarrow> nat \<Rightarrow> JSRequestArena \<Rightarrow> bool" where
  "local_ok w r ra \<longleftrightarrow> heap_inv w \<and> ras w r = Some ra \<and> prov_live w (prov ra) \<and> ra_ok ra"

definition local_step :: "nat \<Rightarrow> world \<Rightarrow> JSRequestArena \<Rightarrow> world \<Rightarrow> JSRequestArena \<Rightarrow> bool" where
  "local_step r w ra w' ra' \<longleftrightarrow> local_ok w' r ra' \<and> touch r w w' \<and> ra_same ra ra' \<and> morecore_ra w' = morecore_ra w"

lemma ra_same_refl [simp]: "ra_same ra ra" by (simp add: ra_same_def)

lemma ra_same_trans: "ra_same a b \<Longrightarrow> ra_same b c \<Longrightarrow> ra_same a c"
  by (auto simp: ra_same_def)

lemma local_step_trans: "local_step r w a w1 b \<Longrightarrow> local_step r w1 b w2 c \<Longrightarrow> local_step r w a w2 c"
  using touch_trans ra_same_trans unfolding local_step_def by metis

lemma local_step_refl: "local_ok w r ra \<Longrightarrow> local_step r w ra w ra"
  by (simp add: local_step_def)

lemma local_okD:
  assumes "local_ok w r ra"
  shows "heap_inv w" "ras w r = Some ra" "prov_live w (prov ra)" "ra_ok ra" "layout_ok (lay w)"
  using assms heap_okD(1) by (auto simp: local_ok_def heap_inv_def)

lemma ra_okD:
  assumes "ra_ok ra"
  shows "ra_list ra \<noteq> []" "extents_ok ra" "unat (ra_floor ra) = req_floor"
  using assms by (simp_all add: ra_ok_def)

lemma upd_ra_id: "upd_ra r (\<lambda>x. x) w = w"
  by (simp add: upd_ra_def option.map_ident)

text \<open>A step of one request: its record is replaced and memory changes inside its extents only.\<close>

lemma local_updI:
  assumes ok: "local_ok w r ra" and ra': "ra_ok ra'" "prov ra' = prov ra" "ra_list ra' = ra_list ra"
    and m: "\<And>a. a \<notin> covers (lay w (OReq r)) \<Longrightarrow> m a = memory w a"
    and w': "w' = (upd_ra r f w)\<lparr>memory := m\<rparr>" "f ra = ra'"
  shows "local_ok w' r ra'" "touch r w w'" "morecore_ra w' = morecore_ra w"
proof -
  note D = local_okD [OF ok]
  have "lay (upd_ra r f w) = lay w"
    using lay_upd_ra [OF D(2), of f] w'(2) ra'(3) D(2) by (auto simp: fun_eq_iff lay.simps)
  then have l: "lay w' = lay w" using w'(1) by simp
  have "heap_inv w'" using D(1) l w'(1) by (simp add: heap_inv_def)
  moreover have "prov_live w' (prov ra')"
    using D(3) ra'(2) w'(1) by (cases "prov ra") (auto simp: prov_live_def)
  ultimately show "local_ok w' r ra'" using D(2) ra' w' by (simp add: local_ok_def)
  have "covers (lay w q) \<inter> covers (lay w (OReq r)) = {}" if "q \<noteq> OReq r" for q
    by (rule covers_apart [OF D(5) that])
  then have "memory w' a = memory w a" if "a \<in> covers (lay w q)" "q \<noteq> OReq r" for a q
    using m [of a] that w'(1) by auto
  then show "touch r w w'" using w'(1) D(2) by (simp add: touch_def)
  show "morecore_ra w' = morecore_ra w" using w'(1) by simp
qed

lemma local_stepI:
  assumes ok: "local_ok w r ra" and ra': "ra_ok ra'" "ra_same ra ra'" "ra_list ra' = ra_list ra"
    and m: "\<And>a. a \<notin> covers (lay w (OReq r)) \<Longrightarrow> m a = memory w a"
    and w': "w' = (upd_ra r f w)\<lparr>memory := m\<rparr>" "f ra = ra'"
  shows "local_step r w ra w' ra'"
  using local_updI [OF ok ra'(1) _ ra'(3) m w'] ra'(2) by (simp add: local_step_def ra_same_def)

lemma cur_blk_in:
  assumes "local_ok w r ra" "bump_at ra"
  shows "blk_ok (cur_blk ra)" "blk_set (cur_blk ra) \<subseteq> covers (lay w (OReq r))"
proof -
  note D = local_okD [OF assms(1)]
  have "cur_blk ra \<in> set (lay w (OReq r))" using D(2) assms(2) by (simp add: cur_blk_def bump_at_def lay.simps)
  then show "blk_ok (cur_blk ra)" "blk_set (cur_blk ra) \<subseteq> covers (lay w (OReq r))"
    using layoutD(1) [OF D(5)] by (auto simp: covers_def)
qed

lemma blk_part:
  assumes "blk_ok (b, n)" "off + k \<le> n"
  shows "region (b + of_nat off) k \<subseteq> blk_set (b, n)" "unat (b + of_nat off) = unat b + off"
    "region (b + of_nat off) k \<inter> region b off = {}"
proof -
  have o: "off < 2 ^ 48" "off + k \<le> 2 ^ 64" using assms by (simp_all add: blk_ok_def)
  have u: "unat (of_nat off :: u64) = off" using o(1) by (intro unat_of_nat_u64) simp
  show "region (b + of_nat off) k \<subseteq> blk_set (b, n)"
    unfolding blk_set_def using region_sub [of "of_nat off" k n b] u assms(2) by simp
  show "unat (b + of_nat off) = unat b + off"
    using assms u by (subst unat_add_no_wrap) (simp_all add: blk_ok_def)
  show "region (b + of_nat off) k \<inter> region b off = {}"
    using region_off [OF o(2)] region_off [of 0 off _ b] o(1) by auto
qed

lemma spent_prefix_apart:
  assumes "local_ok w r ra" "bump_at ra"
  shows "covers (map chunk_blk (take (cur_chunk ra) (ra_list ra))) \<inter> blk_set (cur_blk ra) = {}"
proof -
  let ?xs = "map chunk_blk (ra_list ra)" and ?i = "cur_chunk ra"
  have "all_apart ?xs" using layoutD(2) [OF local_okD(5) [OF assms(1)], of "OReq r"] local_okD(2) [OF assms(1)] by (simp add: lay.simps)
  moreover have i: "?i < length ?xs" using assms(2) by (simp add: bump_at_def)
  then have "?xs = take ?i ?xs @ ?xs ! ?i # drop (Suc ?i) ?xs" by (rule id_take_nth_drop)
  ultimately have "all_apart (take ?i ?xs @ ?xs ! ?i # drop (Suc ?i) ?xs)" by (rule subst [rotated])
  then have "\<forall>b \<in> set (take ?i ?xs). apart b (?xs ! ?i)" by (simp add: all_apart_append)
  then show ?thesis using i by (fastforce simp: covers_def apart_def cur_blk_def take_map)
qed

section \<open>Allocation\<close>

text \<open>The outcome of an allocation of \<open>sz\<close> bytes.\<close>

definition bump_step :: "nat \<Rightarrow> size_t \<Rightarrow> world \<Rightarrow> JSRequestArena \<Rightarrow> ptr \<Rightarrow> world \<Rightarrow> JSRequestArena \<Rightarrow> bool" where
  "bump_step r sz w ra p w' ra' \<longleftrightarrow>
     local_step r w ra w' ra' \<and> bump_ok ra' \<and> (\<forall>a \<in> spent ra. memory w' a = memory w a) \<and>
     spent ra \<subseteq> spent ra' \<and> (p = 0 \<longrightarrow> ra' = ra) \<and>
     (p \<noteq> 0 \<longrightarrow> unat p mod 16 = 0 \<and> region p (unat sz) \<subseteq> spent ra' - spent ra \<and> load64 (memory w') (p - 16) = sz)"

lemma bump_take_ok:
  assumes ok: "local_ok w r ra" "bump_at ra" and sz: "unat sz < 2 ^ 63"
    and fits: "unat (cursor ra) + 16 + unat (align_up sz) \<le> snd (cur_blk ra)"
  obtains p w' ra' where "bump_take r sz w = Inr (p, w')" "bump_step r sz w ra p w' ra'" "p \<noteq> 0"
proof -
  note D = local_okD [OF ok(1)] and B = cur_blk_in [OF ok] and A = align_up_bounds [OF sz]
  obtain b n where bn: "cur_blk ra = (b, n)" by (cases "cur_blk ra")
  define off where "off = unat (cursor ra)"
  have bk: "blk_ok (b, n)" and f: "off + 16 + unat (align_up sz) \<le> n" using B(1) fits bn by (simp_all add: off_def)
  have ol: "off < 2 ^ 62" using f bk by (simp add: blk_ok_def)
  have om: "off mod 16 = 0" using ok(2) by (simp add: bump_at_def off_def)
  note S = alloc_sums [OF ol [unfolded off_def] sz]
  have hd: "c_buf (ra_list ra ! cur_chunk ra) + cursor ra = b + of_nat off"
    using bn by (auto simp: cur_blk_def chunk_blk_def off_def)
  define p where "p = b + of_nat (off + 16)"
  have p16: "p - 16 = b + of_nat off" "p = b + of_nat off + 16" by (simp_all add: p_def)
  let ?f = "\<lambda>ra. ra\<lparr>cursor := cursor ra + (ARENA_HEADER_SIZE + align_up sz), bump_used := bump_used ra + align_up sz,
               ra_last_ptr := p, ra_last_aligned := align_up sz\<rparr>"
  define w' where "w' = (upd_ra r ?f w)\<lparr>memory := store64 (memory w) (b + of_nat off) sz\<rparr>"
  have run: "bump_take r sz w = Inr (p, w')"
    unfolding bump_take_def deref_ra_def D(2) option.case Let_def hd p16(2) [symmetric] w'_def ..
  note H = blk_part [OF bk, of off 8] and Q = blk_part [OF bk, of "off + 16" "unat sz"]
  have le: "off + 8 \<le> n" "off + 16 + unat sz \<le> n" using f A(1) by simp_all
  have cb: "cur_blk (?f ra) = (b, n)" using bn by (simp add: cur_blk_def)
  have off': "unat (cursor (?f ra)) = off + 16 + unat (align_up sz)" using S(2) by (simp add: off_def)
  have pb: "unat (p - b) = off + 16" unfolding p_def using ol by (intro unat_off) simp
  have bump': "bump_ok (?f ra)"
    unfolding bump_ok_def bump_at_def last_at_def Let_def cb off'
    using ok(2) f A(3) om pb by (auto simp: bump_at_def off_def mod_add_eq [symmetric])
  have out: "store64 (memory w) (b + of_nat off) sz a = memory w a" if "a \<notin> covers (lay w (OReq r))" for a
    using that H(1) [OF le(1)] B(2) bn by (intro store_le_outside) auto
  have "ra_same ra (?f ra)" by (simp add: ra_same_def)
  moreover have "ra_ok (?f ra)" using D(4) by (simp add: ra_ok_def extents_ok_def)
  ultimately have step: "local_step r w ra w' (?f ra)"
    using out by (intro local_stepI [OF ok(1) _ _ _ _ w'_def]) simp_all
  have pre: "covers (map chunk_blk (take (cur_chunk ra) (ra_list ra))) \<inter> blk_set (b, n) = {}"
    using spent_prefix_apart [OF ok] bn by simp
  have sp: "spent ra = covers (map chunk_blk (take (cur_chunk ra) (ra_list ra))) \<union> region b off"
    "spent (?f ra) = covers (map chunk_blk (take (cur_chunk ra) (ra_list ra))) \<union> region b (off + 16 + unat (align_up sz))"
    unfolding spent_def cb off' bn by (simp_all add: off_def)
  have "a \<notin> region (b + of_nat off) 8" if "a \<in> spent ra" for a
    using that H(1,3) [OF le(1)] pre unfolding sp by blast
  then have "store64 (memory w) (b + of_nat off) sz a = memory w a" if "a \<in> spent ra" for a
    using that by (intro store_le_outside) blast
  moreover have mw: "memory w' = store64 (memory w) (b + of_nat off) sz" by (simp add: w'_def)
  ultimately have keep: "\<forall>a \<in> spent ra. memory w' a = memory w a" by metis
  have "region p (unat sz) \<subseteq> blk_set (b, n)" "region p (unat sz) \<inter> region b (off + 16) = {}"
    unfolding p_def using Q(1,3) [OF le(2)] by simp_all
  then have "region p (unat sz) \<inter> spent ra = {}"
    using pre region_mono [of off "off + 16" b] unfolding sp by fastforce
  moreover have "region p (unat sz) \<subseteq> region b (off + 16 + unat (align_up sz))"
    unfolding p_def using A(1) ol by (intro region_sub) (simp add: unat_of_nat_u64 del: of_nat_add)
  ultimately have "region p (unat sz) \<subseteq> spent (?f ra) - spent ra" unfolding sp by blast
  moreover have "spent ra \<subseteq> spent (?f ra)" unfolding sp using region_mono [of off "off + 16 + unat (align_up sz)" b] by auto
  moreover
  have up: "unat p = unat b + (off + 16)" unfolding p_def by (rule Q(2) [OF le(2)])
  have "unat b mod 16 = 0" using bk mod_mod_cancel [of 16 4096 "unat b"] by (simp add: blk_ok_def)
  then have "unat p mod 16 = 0" using om unfolding up by presburger
  moreover have "load64 (memory w') (p - 16) = sz" unfolding p16 mw by simp
  moreover have "p \<noteq> 0" using up by auto
  ultimately have "bump_step r sz w ra p w' (?f ra)" "p \<noteq> 0" using step bump' keep by (simp_all add: bump_step_def)
  then show thesis using that run by blast
qed

lemma spent_covered:
  assumes "bump_at ra"
  shows "spent ra \<subseteq> covers (map chunk_blk (ra_list ra))"
proof -
  have i: "cur_chunk ra < length (ra_list ra)" using assms by (simp add: bump_at_def)
  have "region (fst (cur_blk ra)) (unat (cursor ra)) \<subseteq> blk_set (cur_blk ra)"
    unfolding blk_set_def using assms by (intro region_mono) (simp add: bump_at_def)
  moreover have "blk_set (cur_blk ra) \<subseteq> covers (map chunk_blk (ra_list ra))"
    using nth_mem [OF i] by (auto simp: covers_def cur_blk_def)
  moreover have "covers (map chunk_blk (take (cur_chunk ra) (ra_list ra))) \<subseteq> covers (map chunk_blk (ra_list ra))"
    by (auto simp: covers_def dest: in_set_takeD)
  ultimately show ?thesis unfolding spent_def by blast
qed

lemma local_grown:
  assumes "local_ok w r ra" "heap_inv w'" "touch r w w'" "morecore_ra w' = morecore_ra w" "grown e need ra c (ras w' r)"
  obtains ra' where "local_step r w ra w' ra'" "c = None \<Longrightarrow> ra' = ra"
    "\<And>i. c = Some i \<Longrightarrow> \<exists>p sz. ra' = append_chunk \<lparr>c_buf = p, c_size = sz\<rparr> ra \<and> i = length (ra_list ra) \<and>
       pages_round e need \<le> sz \<and> blk_ok (p, unat sz)"
proof -
  note D = local_okD [OF assms(1)]
  obtain ra' where ra': "ras w' r = Some ra'" "extents_ok ra'" "ra_same ra ra'" "ra_list ra' \<noteq> []" "ra_floor ra' = ra_floor ra"
    "c = None \<Longrightarrow> ra' = ra"
    "\<And>i. c = Some i \<Longrightarrow> \<exists>p sz. ra' = append_chunk \<lparr>c_buf = p, c_size = sz\<rparr> ra \<and> i = length (ra_list ra) \<and>
       pages_round e need \<le> sz \<and> blk_ok (p, unat sz)"
  proof (cases c)
    case None
    then show thesis using that [of ra] assms(5) ra_okD [OF D(4)] by (simp add: grown_def)
  next
    case (Some i)
    then obtain p sz where "ras w' r = Some (append_chunk \<lparr>c_buf = p, c_size = sz\<rparr> ra)" "i = length (ra_list ra)"
      "pages_round e need \<le> sz" "blk_ok (p, unat sz)" "extents_ok (append_chunk \<lparr>c_buf = p, c_size = sz\<rparr> ra)"
      using assms(5) by (auto simp: grown_def)
    then show thesis using that [of "append_chunk \<lparr>c_buf = p, c_size = sz\<rparr> ra"] Some
      by (auto simp: append_chunk_def ra_same_def)
  qed
  have "prov_live w' (prov ra')" using touch_prov_live [OF assms(3)] D(3) ra'(3) by (simp add: ra_same_def)
  then have "local_step r w ra w' ra'"
    using assms(2-4) ra' D(4) by (simp add: local_step_def local_ok_def ra_ok_def)
  then show thesis using that ra'(6,7) by blast
qed

lemma req_bump_alloc_ok:
  assumes ok: "local_ok w r ra" "bump_ok ra" and env: "pages_ok e" and sz: "unat sz < 2 ^ 63"
  obtains p w' ra' where "req_bump_alloc e r sz w = Inr (p, w')" "bump_step r sz w ra p w' ra'"
proof (cases "sz = 0")
  case True
  then show thesis using that [of 0 w ra] ok by (simp add: req_bump_alloc_def bump_step_def local_step_refl)
next
  case False
  note D = local_okD [OF ok(1)] and A = align_up_bounds [OF sz]
  have at: "bump_at ra" using ok(2) by (simp add: bump_ok_def)
  let ?total = "ARENA_HEADER_SIZE + align_up sz" and ?c = "ra_list ra ! cur_chunk ra"
  have c: "unat (cursor ra) \<le> unat (c_size ?c)" "unat (c_size ?c) \<le> 2 ^ 47"
    using at cur_blk_in(1) [OF ok(1) at] by (simp_all add: bump_at_def cur_blk_def chunk_blk_def blk_ok_def)
  have "unat (cursor ra) < 2 ^ 62" using c by simp
  note S = alloc_sums [OF this sz]
  show thesis
  proof (cases "cursor ra + ?total > c_size ?c")
    case fits: False
    then have "unat (cursor ra) + 16 + unat (align_up sz) \<le> snd (cur_blk ra)"
      using S(2) by (simp add: u64_less_iff cur_blk_def chunk_blk_def)
    then obtain p w' ra' where "bump_take r sz w = Inr (p, w')" "bump_step r sz w ra p w' ra'"
      using bump_take_ok [OF ok(1) at sz] by blast
    then show thesis using that D(2) False fits by (simp add: req_bump_alloc_def deref_ra_def Let_def)
  next
    case full: True
    obtain ci w1 where R: "req_acquire e r ?total w = Inr (ci, w1)" "heap_inv w1" "touch r w w1" "kept r w w1"
      "morecore_ra w1 = morecore_ra w" "grown e ?total ra ci (ras w1 r)"
      using req_acquire_ok [OF D(1) env D(2,3) ra_okD(2) [OF D(4)], of ?total] by metis
    obtain ra1 where G: "local_step r w ra w1 ra1" "ci = None \<Longrightarrow> ra1 = ra"
      "\<And>i. ci = Some i \<Longrightarrow> \<exists>p sz. ra1 = append_chunk \<lparr>c_buf = p, c_size = sz\<rparr> ra \<and> i = length (ra_list ra) \<and>
         pages_round e ?total \<le> sz \<and> blk_ok (p, unat sz)"
      by (rule local_grown [OF ok(1) R(2,3,5,6)]) blast
    have run: "req_bump_alloc e r sz w = (case ci of None \<Rightarrow> Inr (0, w1)
        | Some i \<Rightarrow> bump_take r sz (upd_ra r (\<lambda>ra. ra\<lparr>cur_chunk := i, cursor := 0\<rparr>) w1))"
      using D(2) False full R(1) by (simp add: req_bump_alloc_def deref_ra_def Let_def)
    have keep: "\<forall>a \<in> spent ra. memory w1 a = memory w a"
      using R(4) spent_covered [OF at] D(2) by (auto simp: kept_def lay.simps)
    show thesis
    proof (cases ci)
      case None
      then have "bump_step r sz w ra 0 w1 ra" using G(1,2) keep ok(2) by (simp add: bump_step_def)
      then show thesis using that run None by simp
    next
      case (Some i)
      then obtain p s where N: "ra1 = append_chunk \<lparr>c_buf = p, c_size = s\<rparr> ra" "i = length (ra_list ra)"
        "pages_round e ?total \<le> s" "blk_ok (p, unat s)" using G(3) by blast
      define ra2 where "ra2 = ra1\<lparr>cur_chunk := i, cursor := 0\<rparr>"
      let ?w2 = "upd_ra r (\<lambda>ra. ra\<lparr>cur_chunk := i, cursor := 0\<rparr>) w1"
      have l1: "local_ok w1 r ra1" using G(1) by (simp add: local_step_def)
      have s2: "local_step r w1 ra1 ?w2 ra2"
        using local_okD(4) [OF l1]
        by (intro local_stepI [OF l1, where m = "memory w1" and f = "\<lambda>ra. ra\<lparr>cur_chunk := i, cursor := 0\<rparr>"])
          (simp_all add: ra2_def ra_ok_def extents_ok_def ra_same_def)
      have cb: "cur_blk ra2 = (p, unat s)" using N(1,2) by (simp add: ra2_def cur_blk_def append_chunk_def chunk_blk_def nth_append)
      have ne: "i \<noteq> 0" using ra_okD(1) [OF D(4)] N(2) by simp
      have at2: "bump_at ra2"
        unfolding bump_at_def cb using N(1,2) ne by (simp add: ra2_def append_chunk_def)
      have "unat ?total \<le> unat s"
        using pages_round_props(2) [OF env, of ?total] N(3) S(1) A(2) sz by (simp add: u64_le_iff)
      then have "unat (cursor ra2) + 16 + unat (align_up sz) \<le> snd (cur_blk ra2)"
        unfolding cb using S(1) by (simp add: ra2_def)
      moreover have "local_ok ?w2 r ra2" using s2 by (simp add: local_step_def)
      ultimately obtain q w' ra' where T: "bump_take r sz ?w2 = Inr (q, w')" "bump_step r sz ?w2 ra2 q w' ra'"
        "q \<noteq> 0"
        using bump_take_ok [OF _ at2 sz] by blast
      have "spent ra2 = covers (map chunk_blk (ra_list ra))"
        unfolding spent_def cb using N(1,2) by (simp add: ra2_def append_chunk_def region_def)
      then have sp: "spent ra \<subseteq> spent ra2" using spent_covered [OF at] by simp
      have "local_step r w ra w' ra'"
        using local_step_trans [OF local_step_trans [OF G(1) s2], of w' ra'] T(2) by (simp add: bump_step_def)
      then have "bump_step r sz w ra q w' ra'"
        using T(2,3) sp keep by (auto simp: bump_step_def)
      then show thesis using that run Some T(1) by simp
    qed
  qed
qed

section \<open>Reallocation\<close>

text \<open>The addresses a request may read: what it was handed, the base arenas and the other requests.\<close>

definition readable :: "world \<Rightarrow> nat \<Rightarrow> JSRequestArena \<Rightarrow> ptr set" where
  "readable w r ra =
     spent ra \<union> (\<Union>d. covers (lay w (OBase d))) \<union> (\<Union>r' \<in> - {r}. covers (lay w (OReq r')))"

definition realloc_step :: "nat \<Rightarrow> ptr \<Rightarrow> size_t \<Rightarrow> size_t \<Rightarrow> world \<Rightarrow> JSRequestArena \<Rightarrow> ptr \<Rightarrow> world \<Rightarrow> JSRequestArena \<Rightarrow> bool" where
  "realloc_step r p old sz w ra q w' ra' \<longleftrightarrow>
     local_step r w ra w' ra' \<and> bump_ok ra' \<and>
     (\<forall>a \<in> spent ra. a \<notin> region (p - 16) 8 \<longrightarrow> memory w' a = memory w a) \<and>
     (q = 0 \<longrightarrow> ra' = ra \<and> (\<forall>a \<in> spent ra. memory w' a = memory w a)) \<and>
     (q \<noteq> 0 \<longrightarrow>
        unat q mod 16 = 0 \<and> region q (unat sz) \<subseteq> spent ra' \<and> (q = p \<or> region q (unat sz) \<inter> spent ra = {}) \<and>
        load64 (memory w') (q - 16) = sz \<and>
        (region p (unat old) \<subseteq> readable w r ra \<longrightarrow>
           (\<forall>i < min (unat old) (unat sz). memory w' (q + of_nat i) = memory w (p + of_nat i))))"

lemma bump_step_readable:
  assumes "bump_step r sz w ra p w' ra'" "a \<in> readable w r ra"
  shows "memory w' a = memory w a"
proof -
  have t: "touch r w w'" "\<forall>a \<in> spent ra. memory w' a = memory w a"
    using assms(1) by (simp_all add: bump_step_def local_step_def)
  consider "a \<in> spent ra" | d where "a \<in> covers (lay w (OBase d))" | r' where "r' \<noteq> r" "a \<in> covers (lay w (OReq r'))"
    using assms(2) by (auto simp: readable_def)
  then show ?thesis using t(2) touchD(7,8) [OF t(1)] by cases blast+
qed

lemma header_before: "i < 2 ^ 63 \<Longrightarrow> (p :: u64) + of_nat i \<notin> region (p - 16) 8"
proof -
  assume i: "i < 2 ^ 63"
  have "p + of_nat i - (p - 16) = (of_nat (i + 16) :: u64)" by simp
  moreover have "unat (of_nat (i + 16) :: u64) = i + 16" using i by (intro unat_of_nat_u64) simp
  ultimately show ?thesis by (simp add: region_def)
qed

lemma bump_in_place_ok:
  assumes ok: "local_ok w r ra" "bump_ok ra" and p: "p = ra_last_ptr ra" "p \<noteq> 0" and sz: "unat sz < 2 ^ 63"
    and cur: "unat cur' = unat (p - fst (cur_blk ra)) + unat (align_up sz)" "unat cur' \<le> snd (cur_blk ra)"
    and w': "w' = (upd_ra r f w)\<lparr>memory := arena_set_user_size (memory w) p sz\<rparr>"
    and ra': "f ra = ra\<lparr>cursor := cur', bump_used := u, ra_last_aligned := align_up sz\<rparr>"
  shows "realloc_step r p old sz w ra p w' (f ra)"
proof -
  note D = local_okD [OF ok(1)] and A = align_up_bounds [OF sz]
  have at: "bump_at ra" "last_at ra" using ok(2) p by (simp_all add: bump_ok_def)
  note B = cur_blk_in [OF ok(1) at(1)]
  obtain b n where bn: "cur_blk ra = (b, n)" by (cases "cur_blk ra")
  have bk: "blk_ok (b, n)" using B(1) bn by simp
  define h where "h = unat (p - b) - 16"
  have off: "unat (p - b) = h + 16" "(h + 16) mod 16 = 0" "cur_chunk ra = 0 \<longrightarrow> req_floor \<le> h" "h + 16 \<le> unat (cursor ra)"
    using at(2) p unfolding last_at_def Let_def bn by (auto simp: h_def)
  have c: "unat cur' = h + 16 + unat (align_up sz)" "h + 16 + unat (align_up sz) \<le> n"
    using cur off(1) bn by simp_all
  have pe: "p = b + of_nat (h + 16)" unfolding off(1) [symmetric] by simp
  then have p16: "p - 16 = b + of_nat h" by simp
  have le: "h + 8 \<le> n" "h + 16 + unat sz \<le> n" using c(2) A(1) by simp_all
  note H = blk_part [OF bk le(1)] and Q = blk_part [OF bk le(2)]
  let ?m = "arena_set_user_size (memory w) p sz"
  have m: "?m a = memory w a" if "a \<notin> region (p - 16) 8" for a
    using that by (simp add: arena_set_user_size_def store_le_outside)
  have out: "?m a = memory w a" if "a \<notin> covers (lay w (OReq r))" for a
    using that H(1) B(2) bn unfolding p16 [symmetric] by (intro m) auto
  have cb: "cur_blk (f ra) = (b, n)" using bn by (simp add: ra' cur_blk_def)
  have l: "ra_list (f ra) = ra_list ra" "cur_chunk (f ra) = cur_chunk ra" "cursor (f ra) = cur'"
    "ra_last_ptr (f ra) = p" "ra_last_aligned (f ra) = align_up sz"
    using p by (simp_all add: ra')
  have step: "local_step r w ra w' (f ra)"
    using D(4) out by (intro local_stepI [OF ok(1) _ _ l(1) _ w' refl]) (simp_all add: ra' ra_ok_def extents_ok_def ra_same_def)
  have "(h + 16 + unat (align_up sz)) mod 16 = 0" using off(2) A(3) by presburger
  then have bump: "bump_ok (f ra)"
    unfolding bump_ok_def bump_at_def last_at_def Let_def cb l using at(1) off c bn by (auto simp: bump_at_def)
  have "region p (unat sz) \<subseteq> region b (unat cur')"
    unfolding pe c(1) using A(1) le(2) bk by (intro region_sub) (simp add: unat_of_nat_u64 blk_ok_def del: of_nat_add)
  then have sp: "region p (unat sz) \<subseteq> spent (f ra)" unfolding spent_def cb l by auto
  have "unat b mod 16 = 0" using bk mod_mod_cancel [of 16 4096 "unat b"] by (simp add: blk_ok_def)
  then have pm: "unat p mod 16 = 0" unfolding pe Q(2) using off(2) by presburger
  have "?m (p + of_nat i) = memory w (p + of_nat i)" if "i < min (unat old) (unat sz)" for i
    using that sz by (intro m header_before) simp
  moreover have "load64 ?m (p - 16) = sz" by (simp add: arena_set_user_size_def)
  moreover have "memory w' = ?m" by (simp add: w')
  ultimately show ?thesis using step bump sp pm m p(2) by (simp add: realloc_step_def)
qed

lemma bump_copy_ok:
  assumes ok: "local_ok w r ra" "bump_ok ra" and env: "pages_ok e" and sz: "unat sz < 2 ^ 63"
  obtains q w' ra' where
    "res_bind (req_bump_alloc e r sz w) (\<lambda>(np, w1).
       if np = 0 then Inr (0, w1)
       else Inr (np, w1\<lparr>memory := memcpy (memory w1) np p (unat (if sz < old then sz else old))\<rparr>)) = Inr (q, w')"
    "realloc_step r p old sz w ra q w' ra'"
proof -
  obtain q w1 ra1 where A: "req_bump_alloc e r sz w = Inr (q, w1)" "bump_step r sz w ra q w1 ra1"
    by (rule req_bump_alloc_ok [OF ok env sz])
  note S = A(2) [unfolded bump_step_def]
  show thesis
  proof (cases "q = 0")
    case True
    then have "realloc_step r p old sz w ra 0 w1 ra1" using S by (auto simp: realloc_step_def)
    then show thesis using that [of 0 w1 ra1] A(1) True by simp
  next
    case False
    let ?n = "unat (if sz < old then sz else old)"
    let ?m = "memcpy (memory w1) q p ?n"
    define w' where "w' = w1\<lparr>memory := ?m\<rparr>"
    have n: "?n = min (unat old) (unat sz)" by (simp add: u64_less_iff min_def)
    have q: "region q (unat sz) \<subseteq> spent ra1 - spent ra" "unat q mod 16 = 0" "load64 (memory w1) (q - 16) = sz"
      using S False by simp_all
    have m: "?m a = memory w1 a" if "a \<notin> region q (unat sz)" for a
      using that region_mono [of ?n "unat sz" q] n by (intro memcpy_outside) auto
    have l1: "local_ok w1 r ra1" and b1: "bump_ok ra1" using S by (simp_all add: local_step_def)
    have "spent ra1 \<subseteq> covers (lay w1 (OReq r))"
      using spent_covered [of ra1] b1 local_okD(2) [OF l1] by (simp add: bump_ok_def lay.simps)
    then have "?m a = memory w1 a" if "a \<notin> covers (lay w1 (OReq r))" for a using q(1) that by (intro m) blast
    then have "local_step r w1 ra1 w' ra1"
      using local_okD(2,4) [OF l1]
      by (intro local_stepI [OF l1, where m = ?m and f = "\<lambda>x. x"]) (simp_all add: w'_def upd_ra_id)
    then have step: "local_step r w ra w' ra1" using S local_step_trans by blast
    have "load64 ?m (q - 16) = sz"
    proof -
      have "a \<notin> region q (unat sz)" if a: "a \<in> region (q - 16) 8" for a
      proof
        assume "a \<in> region q (unat sz)"
        then have "unat (a - q) < 2 ^ 63" using sz by (simp add: region_def)
        then have "q + of_nat (unat (a - q)) \<notin> region (q - 16) 8" by (rule header_before)
        then show False using a by simp
      qed
      then have "load64 ?m (q - 16) = load64 (memory w1) (q - 16)" using m by (intro load_le_outside) simp_all
      then show ?thesis using q(3) by simp
    qed
    moreover have "?m (q + of_nat i) = memory w (p + of_nat i)"
      if "region p (unat old) \<subseteq> readable w r ra" "i < min (unat old) (unat sz)" for i
    proof -
      have "?m (q + of_nat i) = memory w1 (p + of_nat i)" using that(2) n sz by (intro memcpy_bytes) simp_all
      moreover have "p + of_nat i \<in> readable w r ra" using that byte_in_block [of i old p] by auto
      ultimately show ?thesis using bump_step_readable [OF A(2)] by simp
    qed
    moreover have "?m a = memory w a" if "a \<in> spent ra" for a
      using m [of a] q(1) S that by (metis DiffD2 subsetD)
    moreover have "memory w' = ?m" by (simp add: w'_def)
    ultimately have "realloc_step r p old sz w ra q w' ra1"
      using step b1 q(1,2) False unfolding realloc_step_def by auto
    then show thesis using that [of q w' ra1] A(1) False by (simp add: w'_def)
  qed
qed

lemma req_bump_realloc_ok:
  assumes ok: "local_ok w r ra" "bump_ok ra" and env: "pages_ok e" and sz: "unat sz < 2 ^ 63" and p: "p \<noteq> 0"
  obtains q w' ra' where "req_bump_realloc e r p sz old w = Inr (q, w')" "realloc_step r p old sz w ra q w' ra'"
proof -
  note D = local_okD [OF ok(1)] and A = align_up_bounds [OF sz]
  let ?al = "align_up sz" and ?old = "ra_last_aligned ra" and ?cur = "cursor ra" and ?c = "c_size (ra_list ra ! cur_chunk ra)"
  obtain q1 w1 ra1 where C: "res_bind (req_bump_alloc e r sz w) (\<lambda>(np, w1).
       if np = 0 then Inr (0, w1)
       else Inr (np, w1\<lparr>memory := memcpy (memory w1) np p (unat (if sz < old then sz else old))\<rparr>)) = Inr (q1, w1)"
    "realloc_step r p old sz w ra q1 w1 ra1"
    by (rule bump_copy_ok [OF ok env sz])
  let ?shrink = "\<lambda>ra. ra\<lparr>cursor := cursor ra - (?old - ?al), bump_used := bump_used ra - (?old - ?al), ra_last_aligned := ?al\<rparr>"
  let ?grow = "\<lambda>ra. ra\<lparr>cursor := cursor ra + (?al - ?old), bump_used := bump_used ra + (?al - ?old), ra_last_aligned := ?al\<rparr>"
  have run: "req_bump_realloc e r p sz old w =
    (if p = ra_last_ptr ra \<and> ?al \<le> ?old then Inr (p, (upd_ra r ?shrink w)\<lparr>memory := arena_set_user_size (memory w) p sz\<rparr>)
     else if p = ra_last_ptr ra \<and> ?cur + (?al - ?old) \<le> ?c
     then Inr (p, (upd_ra r ?grow w)\<lparr>memory := arena_set_user_size (memory w) p sz\<rparr>)
     else Inr (q1, w1))"
    using C(1) D(2) by (simp add: req_bump_realloc_def deref_ra_def Let_def)
  show thesis
  proof (cases "p = ra_last_ptr ra")
    case False
    then show thesis using that [of q1 w1 ra1] C(2) run by simp
  next
    case True
    have at: "bump_at ra" "last_at ra" using ok(2) p True by (simp_all add: bump_ok_def)
    have l: "unat (p - fst (cur_blk ra)) + unat ?old = unat ?cur" using at(2) True by (simp add: last_at_def Let_def)
    have c: "unat ?cur \<le> snd (cur_blk ra)" "snd (cur_blk ra) \<le> 2 ^ 47" "snd (cur_blk ra) = unat ?c"
      using at(1) cur_blk_in(1) [OF ok(1) at(1)] by (simp_all add: bump_at_def blk_ok_def cur_blk_def chunk_blk_def)
    note place = bump_in_place_ok [OF ok True p sz, where old = old]
    show thesis
    proof (cases "?al \<le> ?old")
      case le: True
      have "?old - ?al \<le> ?cur" using l le by (simp add: u64_le_iff unat_sub_le)
      then have u: "unat (?cur - (?old - ?al)) = unat (p - fst (cur_blk ra)) + unat ?al"
        using l le by (simp add: unat_sub_le u64_le_iff)
      moreover have "unat (?cur - (?old - ?al)) \<le> snd (cur_blk ra)" using u l le c(1) by (simp add: u64_le_iff)
      ultimately have "realloc_step r p old sz w ra p ((upd_ra r ?shrink w)\<lparr>memory := arena_set_user_size (memory w) p sz\<rparr>) (?shrink ra)"
        by (rule place [where f = ?shrink, OF _ _ refl refl])
      moreover have "req_bump_realloc e r p sz old w = Inr (p, (upd_ra r ?shrink w)\<lparr>memory := arena_set_user_size (memory w) p sz\<rparr>)"
        unfolding run by (rule if_P) (use le True in simp)
      ultimately show thesis by (rule that [rotated])
    next
      case gt: False
      have d: "unat (?al - ?old) = unat ?al - unat ?old" using gt by (simp add: unat_sub_le u64_le_iff)
      have u: "unat (?cur + (?al - ?old)) = unat (p - fst (cur_blk ra)) + unat ?al"
        using l d gt c(1,2) A(2) sz by (subst unat_add_no_wrap) (simp_all add: u64_le_iff)
      show thesis
      proof (cases "?cur + (?al - ?old) \<le> ?c")
        case fits: True
        then have "unat (?cur + (?al - ?old)) \<le> snd (cur_blk ra)" using c(3) by (simp add: u64_le_iff)
        then have "realloc_step r p old sz w ra p ((upd_ra r ?grow w)\<lparr>memory := arena_set_user_size (memory w) p sz\<rparr>) (?grow ra)"
          by (rule place [where f = ?grow, OF u _ refl refl])
        moreover have "req_bump_realloc e r p sz old w = Inr (p, (upd_ra r ?grow w)\<lparr>memory := arena_set_user_size (memory w) p sz\<rparr>)"
          unfolding run using gt fits True by (simp only: simp_thms if_True if_False)
        ultimately show thesis by (rule that [rotated])
      next
        case False
        then show thesis using that [of q1 w1 ra1] C(2) run gt by simp
      qed
    qed
  qed
qed

lemma bump_reset_ok:
  assumes "ra_ok ra" "\<forall>c \<in> set (ra_list ra). blk_ok (chunk_blk c)"
  shows "bump_ok (req_bump_reset ra)" "ra_ok (req_bump_reset ra)"
proof -
  have "4096 \<le> unat (c_size (ra_list ra ! 0))" if "0 < length (ra_list ra)"
  proof -
    have "blk_ok (chunk_blk (ra_list ra ! 0))" using that assms(2) by simp
    then have "0 < unat (c_size (ra_list ra ! 0))" "unat (c_size (ra_list ra ! 0)) mod 4096 = 0"
      by (simp_all add: blk_ok_def chunk_blk_def)
    then show ?thesis by (metis mod_less not_less less_numeral_extra(3))
  qed
  then show "bump_ok (req_bump_reset ra)"
    using ra_okD [OF assms(1)] by (simp add: bump_ok_def bump_at_def req_bump_reset_def cur_blk_def chunk_blk_def)
  show "ra_ok (req_bump_reset ra)" using assms(1) by (simp add: req_bump_reset_def ra_ok_def extents_ok_def)
qed

end
