(* ===== verification/MspaceRequest.thy ===== *)
theory MspaceRequest
  imports BumpRequest
begin

text \<open>
  The garbage-collected request mode: a \<open>dlmalloc\<close> mspace inside the request's extents, which grows by
  calling \<open>js_arena_morecore\<close>. The mspace is not modelled; \<open>mspace_ok\<close> is what its documentation
  promises: a representation \<open>P\<close> that lives in the memory it was given, a map \<open>L\<close> of its live blocks
  with their usable sizes, and calls that write that memory only. The lemmas run such a call through
  the call-back and show that memory outside the request is left alone.
\<close>

section \<open>The contract of the mspace\<close>

type_synonym ms_rep = "mem \<Rightarrow> ptr \<Rightarrow> ptr set \<Rightarrow> bool"
type_synonym ms_live = "mem \<Rightarrow> ptr \<Rightarrow> ptr \<Rightarrow> nat option"

text \<open>
  The answers MORECORE may give to a call for \<open>n\<close> bytes when the mspace owns \<open>R\<close> and the break is \<open>b\<close>:
  a refusal, the break for \<open>n = 0\<close>, or a block of at least \<open>n\<close> bytes outside \<open>R\<close> that ends at the new break.
\<close>

definition ms_answer :: "int \<Rightarrow> mem \<Rightarrow> ptr set \<Rightarrow> ptr \<Rightarrow> ptr \<Rightarrow> mem \<Rightarrow> ptr set \<Rightarrow> ptr \<Rightarrow> bool" where
  "ms_answer n m R b p m' R' b' \<longleftrightarrow>
     (\<forall>a \<in> R. m' a = m a) \<and>
     (R' = R \<and> b' = b \<and> p = (if n = 0 then b else REQ_MFAIL) \<or>
      0 < n \<and> (\<exists>len. nat n \<le> len \<and> blk_ok (p, len) \<and> R \<inter> region p len = {} \<and> R' = R \<union> region p len \<and> b' = p + of_nat len))"

primrec ms_act_ok :: "(mem \<Rightarrow> ptr set \<Rightarrow> bool) \<Rightarrow> (ptr \<Rightarrow> mem \<Rightarrow> bool) \<Rightarrow> ms_act \<Rightarrow> mem \<Rightarrow> ptr set \<Rightarrow> ptr \<Rightarrow> bool" where
  "ms_act_ok I Q (MsDone p m') = (\<lambda>m R b. (\<forall>a. a \<notin> R \<longrightarrow> m' a = m a) \<and> I m' R \<and> Q p m')"
| "ms_act_ok I Q (MsMore n k) =
     (\<lambda>m R b. n < 2 ^ 63 \<and>
        (\<forall>p m' R' b'. ms_answer n m R b p m' R' b' \<longrightarrow> (\<lambda>q x. ms_act_ok I Q (k q x)) p m' m' R' b'))"

text \<open>The blocks of \<open>f\<close> are live with their bytes unchanged.\<close>

definition blocks_kept :: "(ptr \<Rightarrow> nat option) \<Rightarrow> mem \<Rightarrow> mem \<Rightarrow> bool" where
  "blocks_kept f m m' \<longleftrightarrow> (\<forall>x n. f x = Some n \<longrightarrow> (\<forall>a \<in> region x n. m' a = m a))"

definition ms_allocated :: "ms_live \<Rightarrow> mem \<Rightarrow> ptr \<Rightarrow> nat \<Rightarrow> ptr \<Rightarrow> mem \<Rightarrow> bool" where
  "ms_allocated L m q n p m' \<longleftrightarrow>
     blocks_kept (L m q) m m' \<and>
     (if p = 0 then L m' q = L m q else L m q p = None \<and> (\<exists>k \<ge> n. L m' q = (L m q)(p \<mapsto> k)))"

definition ms_resized :: "ms_live \<Rightarrow> mem \<Rightarrow> ptr \<Rightarrow> ptr \<Rightarrow> nat \<Rightarrow> nat \<Rightarrow> ptr \<Rightarrow> mem \<Rightarrow> bool" where
  "ms_resized L m q p old n p' m' \<longleftrightarrow>
     (if p' = 0 then L m' q = L m q \<and> blocks_kept (L m q) m m'
      else
        (p' = p \<or> L m q p' = None) \<and> (\<exists>k \<ge> n. L m' q = (L m q)(p := None, p' \<mapsto> k)) \<and>
        blocks_kept ((L m q)(p := None)) m m' \<and>
        (\<forall>i < min old n. m' (p' + of_nat i) = m (p + of_nat i)))"

text \<open>The representation and the live blocks depend on the memory of the mspace alone.\<close>

definition ms_local :: "ms_rep \<Rightarrow> ms_live \<Rightarrow> bool" where
  "ms_local P L \<longleftrightarrow> (\<forall>m m' q R. P m q R \<longrightarrow> (\<forall>a \<in> R. m' a = m a) \<longrightarrow> P m' q R \<and> L m' q = L m q)"

text \<open>A live block lies in that memory, the client may write it, and two of them do not overlap.\<close>

definition ms_blocks :: "env \<Rightarrow> ms_rep \<Rightarrow> ms_live \<Rightarrow> bool" where
  "ms_blocks e P L \<longleftrightarrow>
     (\<forall>m q R p n. P m q R \<longrightarrow> L m q p = Some n \<longrightarrow>
        p \<noteq> 0 \<and> region p n \<subseteq> R \<and> n < 2 ^ 63 \<and> mspace_usable_size e m p = of_nat n) \<and>
     (\<forall>m m' q R p n. P m q R \<longrightarrow> L m q p = Some n \<longrightarrow> (\<forall>a. a \<notin> region p n \<longrightarrow> m' a = m a) \<longrightarrow>
        P m' q R \<and> L m' q = L m q) \<and>
     (\<forall>m q R p n p' n'. P m q R \<longrightarrow> L m q p = Some n \<longrightarrow> L m q p' = Some n' \<longrightarrow> p \<noteq> p' \<longrightarrow>
        region p n \<inter> region p' n' = {})"

definition ms_creates :: "env \<Rightarrow> ms_rep \<Rightarrow> ms_live \<Rightarrow> bool" where
  "ms_creates e P L \<longleftrightarrow>
     (\<forall>m b n q m'. create_mspace e m b n = (q, m') \<longrightarrow> 2048 \<le> unat n \<longrightarrow> 0 < unat b \<longrightarrow> unat b mod 16 = 0 \<longrightarrow>
        unat b + unat n \<le> 2 ^ 47 \<longrightarrow>
        q \<noteq> 0 \<and> P m' q (region b (unat n)) \<and> L m' q = Map.empty \<and> (\<forall>a. a \<notin> region b (unat n) \<longrightarrow> m' a = m a))"

definition ms_allocates :: "env \<Rightarrow> ms_rep \<Rightarrow> ms_live \<Rightarrow> bool" where
  "ms_allocates e P L \<longleftrightarrow>
     (\<forall>m q R b n. P m q R \<longrightarrow>
        ms_act_ok (\<lambda>m. P m q) (ms_allocated L m q (unat n)) (mspace_malloc e m q n) m R b) \<and>
     (\<forall>m q R b k n. P m q R \<longrightarrow> unat k * unat n < 2 ^ 64 \<longrightarrow>
        ms_act_ok (\<lambda>m. P m q)
          (\<lambda>p m'. ms_allocated L m q (unat k * unat n) p m' \<and> (p \<noteq> 0 \<longrightarrow> (\<forall>a \<in> region p (unat k * unat n). m' a = 0)))
          (mspace_calloc e m q k n) m R b) \<and>
     (\<forall>m q R b p old n. P m q R \<longrightarrow> L m q p = Some old \<longrightarrow>
        ms_act_ok (\<lambda>m. P m q) (ms_resized L m q p old (unat n)) (mspace_realloc e m q p n) m R b)"

definition ms_frees :: "env \<Rightarrow> ms_rep \<Rightarrow> ms_live \<Rightarrow> bool" where
  "ms_frees e P L \<longleftrightarrow>
     (\<forall>m q R p n. P m q R \<longrightarrow> L m q p = Some n \<longrightarrow>
        P (mspace_free e m q p) q R \<and> L (mspace_free e m q p) q = (L m q)(p := None) \<and>
        blocks_kept ((L m q)(p := None)) m (mspace_free e m q p) \<and> (\<forall>a. a \<notin> R \<longrightarrow> mspace_free e m q p a = m a))"

definition mspace_ok :: "env \<Rightarrow> ms_rep \<Rightarrow> ms_live \<Rightarrow> bool" where
  "mspace_ok e P L \<longleftrightarrow> ms_local P L \<and> ms_blocks e P L \<and> ms_creates e P L \<and> ms_allocates e P L \<and> ms_frees e P L"

lemma mspace_local:
  assumes "mspace_ok e P L" "P m q R" "\<And>a. a \<in> R \<Longrightarrow> m' a = m a"
  shows "P m' q R" "L m' q = L m q"
proof -
  have "ms_local P L" using assms(1) by (simp add: mspace_ok_def)
  note B = this [unfolded ms_local_def, rule_format, OF assms(2,3)]
  show "P m' q R" "L m' q = L m q" using B by blast+
qed

lemma mspace_block:
  assumes "mspace_ok e P L" "P m q R" "L m q p = Some n"
  shows "p \<noteq> 0" "region p n \<subseteq> R" "n < 2 ^ 63" "mspace_usable_size e m p = of_nat n"
proof -
  have "ms_blocks e P L" using assms(1) by (simp add: mspace_ok_def)
  note B = this [unfolded ms_blocks_def, THEN conjunct1, rule_format, OF assms(2,3)]
  show "p \<noteq> 0" "region p n \<subseteq> R" "n < 2 ^ 63" "mspace_usable_size e m p = of_nat n" using B by blast+
qed

lemma mspace_payload:
  assumes "mspace_ok e P L" "P m q R" "L m q p = Some n" "\<And>a. a \<notin> region p n \<Longrightarrow> m' a = m a"
  shows "P m' q R" "L m' q = L m q"
proof -
  have "ms_blocks e P L" using assms(1) by (simp add: mspace_ok_def)
  note B = this [unfolded ms_blocks_def, THEN conjunct2, THEN conjunct1, rule_format, OF assms(2-4)]
  show "P m' q R" "L m' q = L m q" using B by blast+
qed

lemma mspace_apart:
  assumes "mspace_ok e P L" "P m q R" "L m q p = Some n" "L m q p' = Some n'" "p \<noteq> p'"
  shows "region p n \<inter> region p' n' = {}"
proof -
  have "ms_blocks e P L" using assms(1) by (simp add: mspace_ok_def)
  note B = this [unfolded ms_blocks_def, THEN conjunct2, THEN conjunct2, rule_format, OF assms(2-5)]
  show ?thesis by (rule B)
qed

lemma mspace_calls:
  assumes "mspace_ok e P L" "P m q R"
  shows "ms_act_ok (\<lambda>m. P m q) (ms_allocated L m q (unat k)) (mspace_malloc e m q k) m R b"
    "unat j * unat k < 2 ^ 64 \<Longrightarrow> ms_act_ok (\<lambda>m. P m q)
       (\<lambda>p m'. ms_allocated L m q (unat j * unat k) p m' \<and> (p \<noteq> 0 \<longrightarrow> (\<forall>a \<in> region p (unat j * unat k). m' a = 0)))
       (mspace_calloc e m q j k) m R b"
    "L m q p = Some n \<Longrightarrow> ms_act_ok (\<lambda>m. P m q) (ms_resized L m q p n (unat k)) (mspace_realloc e m q p k) m R b"
proof -
  have "ms_allocates e P L" using assms(1) by (simp add: mspace_ok_def)
  note A = this [unfolded ms_allocates_def]
  show "ms_act_ok (\<lambda>m. P m q) (ms_allocated L m q (unat k)) (mspace_malloc e m q k) m R b"
    using A [THEN conjunct1] assms(2) by simp
  show "ms_act_ok (\<lambda>m. P m q)
       (\<lambda>p m'. ms_allocated L m q (unat j * unat k) p m' \<and> (p \<noteq> 0 \<longrightarrow> (\<forall>a \<in> region p (unat j * unat k). m' a = 0)))
       (mspace_calloc e m q j k) m R b" if "unat j * unat k < 2 ^ 64"
    using A [THEN conjunct2, THEN conjunct1] assms(2) that by simp
  show "ms_act_ok (\<lambda>m. P m q) (ms_resized L m q p n (unat k)) (mspace_realloc e m q p k) m R b" if "L m q p = Some n"
    using A [THEN conjunct2, THEN conjunct2] assms(2) that by simp
qed

lemma mspace_frees:
  assumes "mspace_ok e P L" "P m q R" "L m q p = Some n"
  shows "P (mspace_free e m q p) q R" "L (mspace_free e m q p) q = (L m q)(p := None)"
    "blocks_kept ((L m q)(p := None)) m (mspace_free e m q p)" "a \<notin> R \<Longrightarrow> mspace_free e m q p a = m a"
proof -
  have "ms_frees e P L" using assms(1) by (simp add: mspace_ok_def)
  note B = this [unfolded ms_frees_def, rule_format, OF assms(2,3)]
  show "P (mspace_free e m q p) q R" "L (mspace_free e m q p) q = (L m q)(p := None)"
    "blocks_kept ((L m q)(p := None)) m (mspace_free e m q p)" "a \<notin> R \<Longrightarrow> mspace_free e m q p a = m a"
    using B by blast+
qed

lemma mspace_creates:
  assumes "mspace_ok e P L" "create_mspace e m b n = (q, m')" "2048 \<le> unat n" "0 < unat b" "unat b mod 16 = 0"
    "unat b + unat n \<le> 2 ^ 47"
  shows "q \<noteq> 0" "P m' q (region b (unat n))" "L m' q = Map.empty" "a \<notin> region b (unat n) \<Longrightarrow> m' a = m a"
proof -
  have "ms_creates e P L" using assms(1) by (simp add: mspace_ok_def)
  note B = this [unfolded ms_creates_def, rule_format, OF assms(2-6)]
  show "q \<noteq> 0" "P m' q (region b (unat n))" "L m' q = Map.empty" "a \<notin> region b (unat n) \<Longrightarrow> m' a = m a"
    using B by blast+
qed

section \<open>The memory of a mspace\<close>

definition gc_space :: "JSRequestArena \<Rightarrow> ptr set" where
  "gc_space ra = covers (map chunk_blk (ra_list ra)) - region (c_buf (hd (ra_list ra))) req_floor"

definition the_brk :: "JSRequestArena \<Rightarrow> ptr" where
  "the_brk ra = (if brk ra \<noteq> 0 then brk ra else REQ_MFAIL)"

lemma gc_space_append:
  assumes "ra_list ra \<noteq> []" "blk_set (p, unat n) \<inter> covers (map chunk_blk (ra_list ra)) = {}"
    "region (c_buf (hd (ra_list ra))) req_floor \<subseteq> covers (map chunk_blk (ra_list ra))"
  shows "gc_space (append_chunk \<lparr>c_buf = p, c_size = n\<rparr> ra) = gc_space ra \<union> region p (unat n)"
    "gc_space ra \<inter> region p (unat n) = {}"
  using assms by (auto simp: gc_space_def append_chunk_def chunk_blk_def blk_set_def)

lemma blk_size_4096: "blk_ok (b, n) \<Longrightarrow> 4096 \<le> n"
  by (rule ccontr) (auto simp: blk_ok_def)

lemma head_in:
  assumes "local_ok w r ra"
  shows "blk_ok (chunk_blk (hd (ra_list ra)))" "blk_set (chunk_blk (hd (ra_list ra))) \<subseteq> covers (map chunk_blk (ra_list ra))"
    "region (c_buf (hd (ra_list ra))) req_floor \<subseteq> covers (map chunk_blk (ra_list ra))"
proof -
  note D = local_okD [OF assms]
  have h: "hd (ra_list ra) \<in> set (ra_list ra)" using ra_okD(1) [OF D(4)] by simp
  then have "chunk_blk (hd (ra_list ra)) \<in> set (lay w (OReq r))" using D(2) by (simp add: lay.simps)
  then show b: "blk_ok (chunk_blk (hd (ra_list ra)))" by (rule layoutD(1) [OF D(5)])
  show s: "blk_set (chunk_blk (hd (ra_list ra))) \<subseteq> covers (map chunk_blk (ra_list ra))"
    using h by (auto simp: covers_def)
  have "region (c_buf (hd (ra_list ra))) req_floor \<subseteq> blk_set (chunk_blk (hd (ra_list ra)))"
    using b blk_size_4096 [of "c_buf (hd (ra_list ra))" "unat (c_size (hd (ra_list ra)))"]
    unfolding blk_set_def chunk_blk_def fst_conv snd_conv by (intro region_mono) simp
  then show "region (c_buf (hd (ra_list ra))) req_floor \<subseteq> covers (map chunk_blk (ra_list ra))" using s by blast
qed

section \<open>Running a call\<close>

lemma morecore_ok:
  assumes ok: "local_ok w r ra" "pages_ok e" "morecore_ra w = Some r" "n < 2 ^ 63"
  obtains p w' ra' where "js_arena_morecore e n w = Inr (p, w')" "local_step r w ra w' ra'"
    "ms_answer n (memory w) (gc_space ra) (the_brk ra) p (memory w') (gc_space ra') (the_brk ra')"
proof (cases "0 < n")
  case False
  then have "js_arena_morecore e n w = Inr (if n = 0 then the_brk ra else REQ_MFAIL, w)"
    using ok(3) local_okD(2) [OF ok(1)] by (auto simp: js_arena_morecore_def deref_ra_def the_brk_def)
  then show thesis using that [of _ w ra] local_step_refl [OF ok(1)] by (auto simp: ms_answer_def)
next
  case True
  note D = local_okD [OF ok(1)]
  have "(word_of_int n :: u64) = of_nat (nat n)" using True by simp
  moreover have "nat n < 2 ^ 63" using True ok(4) by (simp add: nat_less_iff)
  ultimately have un: "unat (word_of_int n :: u64) = nat n" using unat_of_nat_u64 [of "nat n"] by simp
  obtain ci w1 where R: "req_acquire e r (word_of_int n) w = Inr (ci, w1)" "heap_inv w1" "touch r w w1" "kept r w w1"
    "morecore_ra w1 = morecore_ra w" "grown e (word_of_int n) ra ci (ras w1 r)"
    using req_acquire_ok [OF D(1) ok(2) D(2,3) ra_okD(2) [OF D(4)], of "word_of_int n"] by metis
  obtain ra1 where G: "local_step r w ra w1 ra1" "ci = None \<Longrightarrow> ra1 = ra"
    "\<And>i. ci = Some i \<Longrightarrow> \<exists>p sz. ra1 = append_chunk \<lparr>c_buf = p, c_size = sz\<rparr> ra \<and> i = length (ra_list ra) \<and>
       pages_round e (word_of_int n) \<le> sz \<and> blk_ok (p, unat sz)"
    by (rule local_grown [OF ok(1) R(2,3,5,6)]) blast
  have keep: "\<forall>a \<in> gc_space ra. memory w1 a = memory w a"
    using R(4) D(2) by (auto simp: kept_def lay.simps gc_space_def)
  show thesis
  proof (cases ci)
    case None
    then have "js_arena_morecore e n w = Inr (REQ_MFAIL, w1)"
      using ok(3) D(2) True R(1) by (simp add: js_arena_morecore_def deref_ra_def)
    then show thesis using that G(1,2) None keep True by (auto simp: ms_answer_def)
  next
    case (Some i)
    then obtain p sz where N: "ra1 = append_chunk \<lparr>c_buf = p, c_size = sz\<rparr> ra" "i = length (ra_list ra)"
      "pages_round e (word_of_int n) \<le> sz" "blk_ok (p, unat sz)" using G(3) by blast
    let ?f = "\<lambda>ra. ra\<lparr>brk := p + sz\<rparr>"
    let ?w = "upd_ra r ?f w1"
    have l1: "local_ok w1 r ra1" using G(1) by (simp add: local_step_def)
    have "js_arena_morecore e n w = Inr (p, ?w)"
      using ok(3) D(2) True R(1) Some N(1,2) local_okD(2) [OF l1]
      by (simp add: js_arena_morecore_def deref_ra_def append_chunk_def Let_def nth_append)
    moreover have "local_step r w1 ra1 ?w (?f ra1)"
      using local_okD(4) [OF l1]
      by (intro local_stepI [OF l1, where m = "memory w1" and f = ?f]) (simp_all add: ra_ok_def extents_ok_def ra_same_def)
    then have "local_step r w ra ?w (?f ra1)" by (rule local_step_trans [OF G(1)])
    moreover have "ms_answer n (memory w) (gc_space ra) (the_brk ra) p (memory ?w) (gc_space (?f ra1)) (the_brk (?f ra1))"
    proof -
      have ap: "all_apart (map chunk_blk (ra_list ra) @ [(p, unat sz)])"
        using layoutD(2) [OF local_okD(5) [OF l1], of "OReq r"] local_okD(2) [OF l1] N(1)
        by (simp add: lay.simps append_chunk_def chunk_blk_def)
      have "blk_set (p, unat sz) \<inter> covers (map chunk_blk (ra_list ra)) = {}"
        using ap by (fastforce simp: all_apart_append covers_def apart_def)
      note S = gc_space_append [OF ra_okD(1) [OF D(4)] this head_in(3) [OF ok(1)]]
      have "nat n \<le> unat sz"
        using pages_round_props(2) [OF ok(2), of "word_of_int n"] N(3) un \<open>nat n < 2 ^ 63\<close> by (simp add: u64_le_iff)
      moreover have "gc_space (?f ra1) = gc_space ra \<union> region p (unat sz)"
        using S(1) unfolding N(1) by (simp add: gc_space_def)
      moreover have "unat (p + sz) = unat p + unat sz" by (rule blk_end [OF N(4)])
      then have "p + sz \<noteq> 0" using N(4) by (auto simp: blk_ok_def)
      then have "the_brk (?f ra1) = p + of_nat (unat sz)" by (simp add: the_brk_def)
      ultimately show ?thesis using True keep N(4) S(2) unfolding ms_answer_def by auto
    qed
    ultimately show thesis using that by blast
  qed
qed

text \<open>A call of the mspace returns, and its outcome satisfies what the contract says of the call.\<close>

lemma ms_run_ok:
  assumes "local_ok w r ra" "pages_ok e" "morecore_ra w = Some r"
    "ms_act_ok I Q act (memory w) (gc_space ra) (the_brk ra)"
  shows "\<exists>p w' ra'. ms_run e act w = Inr (p, w') \<and> local_step r w ra w' ra' \<and>
     I (memory w') (gc_space ra') \<and> Q p (memory w')"
  using assms
proof (induction act arbitrary: w ra)
  case (MsDone p m)
  have "m a = memory w a" if "a \<notin> covers (lay w (OReq r))" for a
    using MsDone.prems(4) that local_okD(2) [OF MsDone.prems(1)] by (auto simp: gc_space_def lay.simps)
  then have "local_step r w ra (w\<lparr>memory := m\<rparr>) ra"
    using local_okD(4) [OF MsDone.prems(1)]
    by (intro local_stepI [OF MsDone.prems(1), where m = m and f = "\<lambda>x. x"]) (simp_all add: upd_ra_id)
  then show ?case using MsDone.prems(4) by auto
next
  case (MsMore n k)
  have n: "n < 2 ^ 63"
    and more: "\<And>p m' R' b'. ms_answer n (memory w) (gc_space ra) (the_brk ra) p m' R' b' \<Longrightarrow> ms_act_ok I Q (k p m') m' R' b'"
    using MsMore.prems(4) by simp_all
  obtain p w1 ra1 where M: "js_arena_morecore e n w = Inr (p, w1)" "local_step r w ra w1 ra1"
    "ms_answer n (memory w) (gc_space ra) (the_brk ra) p (memory w1) (gc_space ra1) (the_brk ra1)"
    by (rule morecore_ok [OF MsMore.prems(1-3) n])
  have "local_ok w1 r ra1" "morecore_ra w1 = Some r" using M(2) MsMore.prems(3) by (simp_all add: local_step_def)
  then obtain p' w' ra' where "ms_run e (k p (memory w1)) w1 = Inr (p', w')" "local_step r w1 ra1 w' ra'"
    "I (memory w') (gc_space ra')" "Q p' (memory w')"
    using MsMore.IH [OF rangeI rangeI] MsMore.prems(2) more [OF M(3)] by blast
  then show ?case using M(1) local_step_trans [OF M(2)] by auto
qed

section \<open>Starting a mode\<close>

definition live_bytes :: "ms_live \<Rightarrow> mem \<Rightarrow> ptr \<Rightarrow> nat" where
  "live_bytes L m q = (\<Sum>p \<in> dom (L m q). the (L m q p))"

text \<open>
  A running request arena: in the garbage-collected mode its mspace is intact and \<open>used\<close> counts its
  live bytes, in the bump mode the cursor is where it should be.
\<close>

definition running :: "ms_rep \<Rightarrow> ms_live \<Rightarrow> mem \<Rightarrow> JSRequestArena \<Rightarrow> bool" where
  "running P L m ra =
     (if ra_mode ra = JS_ARENA_REQ_MODE_GC
      then P m (msp ra) (gc_space ra) \<and> used ra = of_nat (live_bytes L m (msp ra))
      else bump_ok ra)"

text \<open>What starting a mode keeps of a request arena.\<close>

definition ra_frame :: "JSRequestArena \<Rightarrow> JSRequestArena \<Rightarrow> bool" where
  "ra_frame ra ra' \<longleftrightarrow>
     ra_da ra' = ra_da ra \<and> prov ra' = prov ra \<and> cap ra' = cap ra \<and> ra_list ra' = ra_list ra \<and>
     extents ra' = extents ra \<and> held ra' = held ra \<and> oom ra' = oom ra \<and> mode_next ra' = mode_next ra"

lemma gc_space_single:
  assumes "ra_list ra = [c]" "blk_ok (chunk_blk c)"
  shows "gc_space ra = region (c_buf c + of_nat req_floor) (unat (c_size c) - req_floor)"
proof -
  let ?n = "unat (c_size c)"
  have n: "4096 \<le> ?n" "?n \<le> 2 ^ 47" using assms(2) blk_size_4096 [of "c_buf c" ?n] by (simp_all add: chunk_blk_def blk_ok_def)
  have "x \<in> region (c_buf c + of_nat req_floor) (?n - req_floor) \<longleftrightarrow> req_floor \<le> unat (x - c_buf c) \<and> unat (x - c_buf c) < ?n" for x
    using region_off [of req_floor "?n - req_floor" x "c_buf c"] n by simp
  then have "region (c_buf c + of_nat req_floor) (?n - req_floor) = {x. req_floor \<le> unat (x - c_buf c) \<and> unat (x - c_buf c) < ?n}"
    by blast
  moreover have "gc_space ra = {x. req_floor \<le> unat (x - c_buf c) \<and> unat (x - c_buf c) < ?n}"
    using assms(1) by (auto simp: gc_space_def chunk_blk_def blk_set_def region_def)
  ultimately show ?thesis by (simp only:)
qed

lemma request_mode_apply_ok:
  assumes ok: "local_ok w r ra" and ms: "mspace_ok e P L" and len: "length (ra_list ra) = 1"
  obtains w' ra' where "request_mode_apply e r w = Inr w'" "local_ok w' r ra'" "touch r w w'"
    "morecore_ra w' = morecore_ra w" "ra_frame ra ra'" "ra_mode ra' = mode_next ra" "running P L (memory w') ra'"
    "\<And>a. a \<notin> gc_space ra \<Longrightarrow> memory w' a = memory w a"
    "ra_mode ra' = JS_ARENA_REQ_MODE_BUMP \<Longrightarrow> bump_used ra' = 0"
    "ra_mode ra' = JS_ARENA_REQ_MODE_GC \<Longrightarrow> used ra' = 0 \<and> L (memory w') (msp ra') = Map.empty"
proof -
  note D = local_okD [OF ok]
  obtain c where c: "ra_list ra = [c]" using len by (auto simp: length_Suc_conv)
  have b: "blk_ok (chunk_blk c)" using head_in(1) [OF ok] c by simp
  have n: "4096 \<le> unat (c_size c)" using b blk_size_4096 by (simp add: chunk_blk_def)
  note G = gc_space_single [OF c b]
  have sub: "gc_space ra \<subseteq> covers (lay w (OReq r))" using D(2) by (auto simp: gc_space_def lay.simps)
  show thesis
  proof (cases "mode_next ra")
    case JS_ARENA_REQ_MODE_BUMP
    let ?f = "\<lambda>ra. req_bump_reset (ra\<lparr>ra_mode := mode_next ra, msp := 0\<rparr>)"
    have "request_mode_apply e r w = Inr (upd_ra r ?f w)"
      using D(2) len JS_ARENA_REQ_MODE_BUMP c
      by (simp add: request_mode_apply_def deref_ra_def Let_def upd_ra_def req_bump_reset_def)
    moreover have R: "bump_ok (?f ra)" "ra_ok (?f ra)"
      using bump_reset_ok [of "ra\<lparr>ra_mode := mode_next ra, msp := 0\<rparr>"] D(4) c b by (simp_all add: ra_ok_def extents_ok_def)
    moreover note U = local_updI [OF ok R(2), where m = "memory w" and f = ?f and w' = "upd_ra r ?f w"]
    ultimately show thesis
      using that [of "upd_ra r ?f w" "?f ra"] JS_ARENA_REQ_MODE_BUMP
      by (simp add: req_bump_reset_def ra_frame_def running_def)
  next
    case JS_ARENA_REQ_MODE_GC
    let ?b = "c_buf c + ra_floor ra" and ?n = "c_size c - ra_floor ra"
    have fl: "ra_floor ra = of_nat req_floor" using D(4) by (simp add: ra_ok_def)
    have un: "unat ?n = unat (c_size c) - req_floor" using n by (subst unat_sub_le) (simp_all add: fl u64_le_iff)
    have ub: "unat ?b = unat (c_buf c) + req_floor"
      using b n blk_part(2) [of "c_buf c" "unat (c_size c)" req_floor 0] fl by (simp add: chunk_blk_def)
    have "unat (c_buf c) mod 16 = 0" using b mod_mod_cancel [of 16 4096 "unat (c_buf c)"] by (simp add: blk_ok_def chunk_blk_def)
    then have args: "2048 \<le> unat ?n" "0 < unat ?b" "unat ?b mod 16 = 0" "unat ?b + unat ?n \<le> 2 ^ 47"
      using un ub n b by (simp_all add: blk_ok_def chunk_blk_def mod_add_eq [symmetric])
    obtain q m where cr: "create_mspace e (memory w) ?b ?n = (q, m)" by (cases "create_mspace e (memory w) ?b ?n")
    note C = mspace_creates [OF ms cr args]
    have reg: "region ?b (unat ?n) = gc_space ra" unfolding un G unfolding fl ..
    let ?f = "\<lambda>ra. ra\<lparr>ra_mode := mode_next ra, msp := q, used := 0\<rparr>"
    let ?w = "(upd_ra r ?f w)\<lparr>memory := m\<rparr>"
    have "request_mode_apply e r w = Inr ?w"
      using D(2) len JS_ARENA_REQ_MODE_GC c C(1) cr
      by (simp add: request_mode_apply_def deref_ra_def Let_def upd_ra_def)
    moreover have R: "ra_ok (?f ra)" using D(4) by (simp add: ra_ok_def extents_ok_def)
    moreover have same: "m a = memory w a" if "a \<notin> gc_space ra" for a using C(4) [of a] that reg by simp
    then have "m a = memory w a" if "a \<notin> covers (lay w (OReq r))" for a using that sub by blast
    note U = local_updI [OF ok R _ _ this, where f = ?f and w' = ?w]
    moreover have "running P L m (?f ra)"
      using C(2,3) reg JS_ARENA_REQ_MODE_GC by (simp add: running_def live_bytes_def gc_space_def)
    ultimately show thesis
      using that [of ?w "?f ra"] JS_ARENA_REQ_MODE_GC same C(3) by (simp add: ra_frame_def)
  qed
qed

end
