(* ===== verification/ArenaWorld.thy ===== *)
theory ArenaWorld
  imports MspaceRequest
begin

text \<open>
  The invariant of the whole allocator state and how it survives a step of one request arena or of one
  base arena: every request arena is linked to its dual arena, its extents and counters agree, the mode
  it runs in is intact, every base heap is well formed and the selected slot is the head extent's.
\<close>

section \<open>The base arena under a change of memory elsewhere\<close>

lemma arena_inv_cong:
  assumes inv: "arena_inv m a" and same: "\<And>x. x \<in> region (buf a) (unat (capacity a)) \<Longrightarrow> m' x = m x"
  shows "arena_inv m' a" "arena_blocks m' a = arena_blocks m a" "arena_cursor m' a = arena_cursor m a"
proof -
  note I = arena_invD [OF inv]
  let ?b = "buf a" and ?n = "unat (capacity a)" and ?c = "unat (arena_cursor m a)"
  have eq: "m' x = m x" if "unat (x - ?b) < ?c" for x
    using that I(6) by (intro same) (simp add: region_def)
  show cur: "arena_cursor m' a = arena_cursor m a"
    unfolding arena_cursor_def using I(5) by (intro load_le_outside eq) (auto simp: region_def)
  obtain bs where bs: "arena_blocks m a = Some bs" using I(8) by (auto split: option.splits)
  have walk: "heap_walk m' ?b 16 c = Some xs" if "heap_walk m ?b 16 c = Some xs" "c \<le> ?c" for c xs
    using that I(2,6) by (intro heap_walk_cong [OF that(1)] eq) simp_all
  then show blk: "arena_blocks m' a = arena_blocks m a"
    using bs unfolding arena_blocks_def cur by simp
  have "last_ok m' a"
  proof (cases "last_alloc_ptr a = 0")
    case True
    then show ?thesis by (simp add: last_ok_def)
  next
    case False
    let ?p = "last_alloc_ptr a"
    obtain bs0 where l: "heap_walk m ?b 16 (unat (?p - ?b) - 16) = Some bs0" "bs = bs0 @ [(?p, arena_user_size m ?p)]"
      "32 \<le> unat (?p - ?b)" "unat (?p - ?b) + unat (last_alloc_aligned a) = ?c"
      by (rule arena_last_block [OF inv bs False]) blast
    define h where "h = unat (?p - ?b) - 16"
    have pe: "?p = ?b + of_nat (h + 16)" "h + 16 \<le> ?c" using l(3,4) by (simp_all add: h_def)
    then have p16: "?p - 16 = ?b + of_nat h" by simp
    have "arena_user_size m' ?p = arena_user_size m ?p"
      unfolding arena_user_size_def p16
    proof (intro load_le_outside eq)
      fix x assume "x \<in> region (?b + of_nat h) 8"
      then show "unat (x - ?b) < ?c" using region_off [of h 8 x ?b] pe(2) I(2,6) by simp
    qed simp
    moreover have "heap_walk m' ?b 16 (unat (?p - ?b) - 16) \<noteq> None" using walk [OF l(1)] l(4) by simp
    ultimately show ?thesis using I(9) False unfolding last_ok_def Let_def cur by auto
  qed
  then show "arena_inv m' a" using inv bs unfolding arena_inv_def cur blk by simp
qed

lemma arena_alloc_frame:
  assumes inv: "arena_inv m a" and sz: "unat sz < 2 ^ 63" and run: "arena_alloc m a sz = (m', a', p)"
    and x: "x \<notin> region (buf a) (unat (capacity a))"
  shows "m' x = m x"
proof (cases "sz = 0 \<or> unat (arena_cursor m a) + 16 + unat (align_up sz) > unat (capacity a)")
  case True
  then show ?thesis using arena_alloc_none [OF inv sz True] run by simp
next
  case False
  note I = arena_invD [OF inv]
  obtain bs where bs: "arena_blocks m a = Some bs" using I(8) by (auto split: option.splits)
  let ?c = "unat (arena_cursor m a)"
  have fits: "sz \<noteq> 0" "?c + 16 + unat (align_up sz) \<le> unat (capacity a)" using False by simp_all
  obtain m1 a1 p1 where A: "arena_alloc m a sz = (m1, a1, p1)" "p1 = buf a + of_nat (?c + 16)"
    "\<And>x. x \<notin> region (buf a) 8 \<Longrightarrow> x \<notin> region (p1 - 16) 8 \<Longrightarrow> m1 x = m x"
    by (rule arena_alloc_some [OF inv sz fits bs]) blast
  have e: "m1 = m'" "p1 = p" using A(1) run by simp_all
  note p = A(2) [unfolded e] and same = A(3) [unfolded e]
  have p16: "p - 16 = buf a + of_nat ?c" by (simp add: p)
  have "region (buf a) 8 \<subseteq> region (buf a) (unat (capacity a))" using I(5,6) by (intro region_mono) simp
  moreover have "region (p - 16) 8 \<subseteq> region (buf a) (unat (capacity a))"
    unfolding p16 using False I(2) by (intro region_sub) (simp add: unat_of_nat_u64)
  ultimately show ?thesis using x by (intro same) blast+
qed

lemma arena_realloc_frame:
  assumes inv: "arena_inv m a" and bs: "arena_blocks m a = Some bs" and p: "(p, old) \<in> set bs" and sz: "unat sz < 2 ^ 63" "sz \<noteq> 0"
    and run: "arena_realloc m a p sz = (m', a', q)" and x: "x \<notin> region (buf a) (unat (capacity a))"
  shows "m' x = m x"
proof -
  note I = arena_invD [OF inv] and B = arena_blocks_at [OF inv bs p]
  have p0: "p \<noteq> 0" by (rule arena_block_pos [OF inv bs p])
  define h where "h = unat (p - buf a) - 16"
  have pe: "p = buf a + of_nat (h + 16)" "h + 16 \<le> unat (arena_cursor m a)" using B(1,2) by (simp_all add: h_def)
  then have p16: "p - 16 = buf a + of_nat h" by simp
  have "region (buf a) 8 \<subseteq> region (buf a) (unat (capacity a))" using I(5,6) by (intro region_mono) simp
  moreover have "region (p - 16) 8 \<subseteq> region (buf a) (unat (capacity a))"
    unfolding p16 using pe(2) I(2,6) by (intro region_sub) (simp add: unat_of_nat_u64)
  ultimately have "x \<notin> region (buf a) 8" "x \<notin> region (p - 16) 8" using x by blast+
  then have place: "arena_set_user_size (arena_set_cursor m a c) p s x = m x" for c s
    by (simp add: arena_set_user_size_def arena_set_cursor_def store_le_outside)
  obtain m1 a1 np where al: "arena_alloc m a sz = (m1, a1, np)" by (cases "arena_alloc m a sz")
  have frame: "m1 x = m x" by (rule arena_alloc_frame [OF inv sz(1) al x])
  have copy: "memcpy m1 np p n x = m x" if "np \<noteq> 0" "n \<le> unat sz" for n
  proof -
    have room: "unat (arena_cursor m a) + 16 + unat (align_up sz) \<le> unat (capacity a)"
      using arena_alloc_none [OF inv sz(1)] al that(1) by (metis not_le prod.inject)
    have np: "np = buf a + of_nat (unat (arena_cursor m a) + 16)"
      using arena_alloc_some [OF inv sz room bs] al by (metis prod.inject)
    have "region np n \<subseteq> region (buf a) (unat (capacity a))"
      unfolding np using room that(2) align_up_bounds(1) [OF sz(1)] I(2)
      by (intro region_sub) (simp add: unat_of_nat_u64 del: of_nat_add)
    then have "x \<notin> region np n" using x by blast
    then show ?thesis using frame by (simp add: memcpy_outside)
  qed
  show ?thesis
    using run p0 sz(2) al place frame copy
    by (auto simp: arena_realloc_def Let_def u64_less_iff split: if_splits)
qed

section \<open>The invariant\<close>

definition in_mode :: "ms_rep \<Rightarrow> ms_live \<Rightarrow> mem \<Rightarrow> JSDualArena \<Rightarrow> JSRequestArena \<Rightarrow> bool" where
  "in_mode P L m da ra =
     (if da_mode da = JS_ARENA_MODE_BASE then length (ra_list ra) = 1 else running P L m ra)"

definition request_ok :: "ms_rep \<Rightarrow> ms_live \<Rightarrow> world \<Rightarrow> nat \<Rightarrow> JSRequestArena \<Rightarrow> bool" where
  "request_ok P L w r ra \<longleftrightarrow>
     r < next_ra w \<and> ra_ok ra \<and> (\<forall>d. prov ra = DefaultProvider d \<longrightarrow> d = ra_da ra) \<and>
     (\<exists>da. das w (ra_da ra) = Some da \<and> r \<in> set (requests da) \<and> in_mode P L (memory w) da ra)"

definition slot_of :: "JSRequestArena \<Rightarrow> ptr" where
  "slot_of ra = c_buf (hd (ra_list ra)) + ARENA_PREFIX_LEN"

definition selection_ok :: "world \<Rightarrow> JSDualArena \<Rightarrow> bool" where
  "selection_ok w da =
     (case da_cur da of
        None \<Rightarrow> state_cell da = 0
      | Some r \<Rightarrow> r \<in> set (requests da) \<and> (\<exists>ra. ras w r = Some ra \<and> state_cell da = slot_of ra))"

definition dual_ok :: "world \<Rightarrow> nat \<Rightarrow> JSDualArena \<Rightarrow> bool" where
  "dual_ok w d da \<longleftrightarrow>
     d < next_da w \<and> distinct (requests da) \<and> (\<forall>r \<in> set (requests da). \<exists>ra. ras w r = Some ra \<and> ra_da ra = d) \<and>
     selection_ok w da \<and> arena_inv (memory w) (base da)"

definition world_inv :: "ms_rep \<Rightarrow> ms_live \<Rightarrow> world \<Rightarrow> bool" where
  "world_inv P L w \<longleftrightarrow>
     heap_inv w \<and> (\<forall>r ra. ras w r = Some ra \<longrightarrow> request_ok P L w r ra) \<and> (\<forall>d da. das w d = Some da \<longrightarrow> dual_ok w d da)"

text \<open>The same but for the requests of a set, which are being set up or taken down.\<close>

definition world_but :: "ms_rep \<Rightarrow> ms_live \<Rightarrow> nat set \<Rightarrow> world \<Rightarrow> bool" where
  "world_but P L S w \<longleftrightarrow>
     heap_inv w \<and> (\<forall>r ra. r \<notin> S \<longrightarrow> ras w r = Some ra \<longrightarrow> request_ok P L w r ra) \<and> (\<forall>d da. das w d = Some da \<longrightarrow> dual_ok w d da)"

lemma world_inv_but: "world_inv P L w \<longleftrightarrow> world_but P L {} w"
  by (simp add: world_inv_def world_but_def)

lemma world_butD:
  assumes "world_but P L S w"
  shows "heap_inv w" "r \<notin> S \<Longrightarrow> ras w r = Some ra \<Longrightarrow> request_ok P L w r ra" "das w d = Some da \<Longrightarrow> dual_ok w d da"
  using assms by (auto simp: world_but_def)

lemma world_but_done:
  "world_but P L (insert r S) w \<Longrightarrow> (\<And>ra. ras w r = Some ra \<Longrightarrow> request_ok P L w r ra) \<Longrightarrow> world_but P L S w"
  unfolding world_but_def by (metis insertE)

lemma world_but_more: "world_but P L S w \<Longrightarrow> S \<subseteq> T \<Longrightarrow> world_but P L T w"
  unfolding world_but_def by blast

lemma world_invD:
  assumes "world_inv P L w"
  shows "heap_inv w" "ras w r = Some ra \<Longrightarrow> request_ok P L w r ra" "das w d = Some da \<Longrightarrow> dual_ok w d da"
    "layout_ok (lay w)"
  using assms heap_okD(1) by (auto simp: world_inv_def heap_inv_def)

lemma dual_okD:
  assumes "dual_ok w d da"
  shows "d < next_da w" "distinct (requests da)" "r \<in> set (requests da) \<Longrightarrow> \<exists>ra. ras w r = Some ra \<and> ra_da ra = d"
    "selection_ok w da" "arena_inv (memory w) (base da)"
  using assms unfolding dual_ok_def by simp_all

lemma request_okD:
  assumes "request_ok P L w r ra"
  obtains da where "das w (ra_da ra) = Some da" "r \<in> set (requests da)" "in_mode P L (memory w) da ra"
    "r < next_ra w" "ra_ok ra" "\<And>d. prov ra = DefaultProvider d \<Longrightarrow> d = ra_da ra"
  using assms unfolding request_ok_def by blast

lemma world_local:
  assumes "world_inv P L w" "ras w r = Some ra"
  shows "local_ok w r ra"
proof -
  have "request_ok P L w r ra" by (rule world_invD(2) [OF assms])
  then show ?thesis
    using world_invD(1) [OF assms(1)] assms(2)
    by (auto simp: local_ok_def request_ok_def prov_live_def split: JSArenaChunkProvider.splits)
qed

lemma base_covers: "das w d = Some da \<Longrightarrow> covers (lay w (OBase d)) = region (buf (base da)) (unat (capacity (base da)))"
  by (simp add: lay.simps base_blk_def blk_set_def)

lemma gc_space_sub: "gc_space ra \<subseteq> covers (map chunk_blk (ra_list ra))"
  by (auto simp: gc_space_def)

text \<open>A request arena runs on when memory changes outside its extents.\<close>

lemma running_cong:
  assumes "mspace_ok e P L" "running P L m ra" "\<And>a. a \<in> covers (map chunk_blk (ra_list ra)) \<Longrightarrow> m' a = m a"
  shows "running P L m' ra"
proof (cases "ra_mode ra = JS_ARENA_REQ_MODE_GC")
  case True
  then have p: "P m (msp ra) (gc_space ra)" using assms(2) by (simp add: running_def)
  have "m' a = m a" if "a \<in> gc_space ra" for a using assms(3) gc_space_sub that by blast
  note X = mspace_local [OF assms(1) p this]
  show ?thesis using True assms(2) X by (simp add: running_def live_bytes_def)
next
  case False
  then show ?thesis using assms(2) by (simp add: running_def)
qed

lemma in_mode_same_da: "same_da da da' \<Longrightarrow> in_mode P L m da' ra = in_mode P L m da ra"
  by (simp add: in_mode_def same_da_fields(2))

text \<open>One request arena takes a step: the others and the dual arenas stay in order.\<close>

lemma world_but_request:
  assumes ms: "mspace_ok e P L" and inv: "world_but P L S w" and t: "touch r w w'"
    and r2: "r2 \<notin> S" "r2 \<noteq> r" "ras w' r2 = Some ra2"
  shows "request_ok P L w' r2 ra2"
proof -
  have r1: "ras w r2 = Some ra2" using r2 touchD(2) [OF t] by simp
  have q: "request_ok P L w r2 ra2" by (rule world_butD(2) [OF inv r2(1) r1])
  then obtain da where da: "das w (ra_da ra2) = Some da" "r2 \<in> set (requests da)" "in_mode P L (memory w) da ra2"
    by (auto simp: request_ok_def)
  obtain da' where da': "das w' (ra_da ra2) = Some da'" "same_da da da'" using touch_das [OF t da(1)] by blast
  have "running P L (memory w') ra2" if "running P L (memory w) ra2"
    using r1 touchD(8) [OF t r2(2)] by (intro running_cong [OF ms that]) (simp add: lay.simps)
  then have "in_mode P L (memory w') da' ra2"
    using da(3) in_mode_same_da [OF da'(2)] by (auto simp: in_mode_def)
  then show ?thesis
    using q da' da(2) touchD(4) [OF t] same_da_fields(4) [OF da'(2)] by (auto simp: request_ok_def)
qed

lemma world_but_step:
  assumes ms: "mspace_ok e P L" and inv: "world_but P L S w" and t: "touch r w w'" and heap: "heap_inv w'"
    and link: "\<And>d da. das w d = Some da \<Longrightarrow> r \<in> set (requests da) \<Longrightarrow>
      \<exists>ra ra'. ras w r = Some ra \<and> ras w' r = Some ra' \<and> ra_da ra' = ra_da ra \<and> slot_of ra' = slot_of ra"
  shows "world_but P L (insert r S) w'"
  unfolding world_but_def
proof (intro conjI allI impI)
  show "heap_inv w'" by (rule heap)
  fix r2 ra2 assume "r2 \<notin> insert r S" "ras w' r2 = Some ra2"
  then show "request_ok P L w' r2 ra2" using world_but_request [OF ms inv t] by simp
next
  fix d da' assume da': "das w' d = Some da'"
  then obtain da where da: "das w d = Some da" "same_da da da'"
    using touchD(1) [OF t, of d] by (auto simp: option_rel_Some2)
  note F = same_da_fields [OF da(2)]
  have q: "dual_ok w d da" by (rule world_butD(3) [OF inv da(1)])
  have links: "\<exists>ra. ras w' x = Some ra \<and> ra_da ra = ra_da y \<and> slot_of ra = slot_of y"
    if "ras w x = Some y" "x \<in> set (requests da)" for x y
    using that link [OF da(1)] touchD(2) [OF t, of x] by (cases "x = r") auto
  have "memory w' x = memory w x" if "x \<in> region (buf (base da)) (unat (capacity (base da)))" for x
    using touchD(7) [OF t, of x d] that base_covers [OF da(1)] by simp
  moreover have "arena_inv (memory w) (base da)" using q unfolding dual_ok_def by blast
  ultimately have "arena_inv (memory w') (base da)" by (metis arena_inv_cong(1))
  moreover have "selection_ok w' da'"
  proof (cases "da_cur da")
    case None
    then show ?thesis using q by (simp add: dual_ok_def selection_ok_def F [symmetric])
  next
    case (Some x)
    then obtain y where "ras w x = Some y" "state_cell da = slot_of y" "x \<in> set (requests da)"
      using q by (auto simp: dual_ok_def selection_ok_def)
    then show ?thesis using links [of x y] Some by (auto simp: selection_ok_def F [symmetric])
  qed
  moreover have "\<exists>ra. ras w' x = Some ra \<and> ra_da ra = d" if "x \<in> set (requests da')" for x
  proof -
    have "\<forall>r \<in> set (requests da). \<exists>ra. ras w r = Some ra \<and> ra_da ra = d" using q by (simp add: dual_ok_def)
    moreover have x: "x \<in> set (requests da)" using that F(4) by simp
    ultimately obtain y where "ras w x = Some y" "ra_da y = d" by blast
    then show ?thesis using links [of x y] x by auto
  qed
  ultimately show "dual_ok w' d da'" using q F touchD(3) [OF t] by (auto simp: dual_ok_def)
qed

lemma request_ok_step:
  assumes q: "request_ok P L w r ra" and t: "touch r w w'" and ok: "local_ok w' r ra'"
    and same: "ra_da ra' = ra_da ra" "prov ra' = prov ra"
    and mode: "\<And>da. das w (ra_da ra) = Some da \<Longrightarrow> in_mode P L (memory w') da ra'"
  shows "request_ok P L w' r ra'"
proof -
  obtain da where da: "das w (ra_da ra) = Some da" "r \<in> set (requests da)" using q by (auto simp: request_ok_def)
  obtain da' where da': "das w' (ra_da ra) = Some da'" "same_da da da'" using touch_das [OF t da(1)] by blast
  have "in_mode P L (memory w') da' ra'" using mode [OF da(1)] in_mode_same_da [OF da'(2)] by simp
  then show ?thesis
    using q da da' local_okD(4) [OF ok] touchD(4) [OF t] same same_da_fields(4) [OF da'(2)]
    by (auto simp: request_ok_def)
qed

lemma world_step:
  assumes ms: "mspace_ok e P L" and inv: "world_inv P L w" and r: "ras w r = Some ra"
    and t: "touch r w w'" and ok: "local_ok w' r ra'"
    and same: "ra_da ra' = ra_da ra" "prov ra' = prov ra" "hd (ra_list ra') = hd (ra_list ra)"
    and mode: "\<And>da. das w (ra_da ra) = Some da \<Longrightarrow> in_mode P L (memory w') da ra'"
  shows "world_inv P L w'"
proof -
  have "world_but P L {r} w'"
    using r same local_okD(2) [OF ok]
    by (intro world_but_step [OF ms inv [unfolded world_inv_but] t local_okD(1) [OF ok]]) (auto simp: slot_of_def)
  moreover have "request_ok P L w' r ra'" by (rule request_ok_step [OF world_invD(2) [OF inv r] t ok same(1,2) mode])
  ultimately show ?thesis
    unfolding world_inv_but using world_but_done [of P L r "{}" w'] local_okD(2) [OF ok] by simp
qed

text \<open>A base arena takes a step.\<close>

lemma world_base_step:
  assumes ms: "mspace_ok e P L" and inv: "world_inv P L w" and da: "das w d = Some da"
    and a': "arena_inv m a'" "buf a' = buf (base da)" "capacity a' = capacity (base da)"
    and m: "\<And>x. x \<notin> region (buf (base da)) (unat (capacity (base da))) \<Longrightarrow> m x = memory w x"
    and w': "w' = (upd_da d (\<lambda>da. da\<lparr>base := a'\<rparr>) w)\<lparr>memory := m\<rparr>"
  shows "world_inv P L w'"
  unfolding world_inv_def
proof (intro conjI allI impI)
  have l: "lay w' q = lay w q" for q
    using da a' by (cases q) (auto simp: w' lay.simps base_blk_def split: option.splits)
  then have lw: "lay w' = lay w" by (simp add: fun_eq_iff)
  show "heap_inv w'" using world_invD(1) [OF inv] lw by (simp add: heap_inv_def w')
  have off: "m x = memory w x" if "x \<in> covers (lay w q)" "q \<noteq> OBase d" for x q
    using covers_apart [OF world_invD(4) [OF inv] that(2)] that(1) base_covers [OF da] by (intro m) auto
  fix r ra assume "ras w' r = Some ra"
  then have r: "ras w r = Some ra" by (simp add: w')
  have q: "request_ok P L w r ra" by (rule world_invD(2) [OF inv r])
  have "running P L m ra" if "running P L (memory w) ra"
    using r off [of _ "OReq r"] by (intro running_cong [OF ms that]) (simp add: lay.simps)
  then have "in_mode P L m x ra" if "in_mode P L (memory w) x ra" for x
    using that by (auto simp: in_mode_def)
  then have "in_mode P L m (x\<lparr>base := a'\<rparr>) ra" "in_mode P L m x ra" if "in_mode P L (memory w) x ra" for x
    using that by (simp_all add: in_mode_def)
  then show "request_ok P L w' r ra" using q da by (auto simp: request_ok_def w')
next
  have off: "m x = memory w x" if "x \<in> covers (lay w q)" "q \<noteq> OBase d" for x q
    using covers_apart [OF world_invD(4) [OF inv] that(2)] that(1) base_covers [OF da] by (intro m) auto
  fix d2 da2 assume d2: "das w' d2 = Some da2"
  show "dual_ok w' d2 da2"
  proof (cases "d2 = d")
    case True
    then show ?thesis
      using d2 world_invD(3) [OF inv da] da a'(1) by (auto simp: w' dual_ok_def selection_ok_def split: option.splits)
  next
    case False
    then have x: "das w d2 = Some da2" using d2 by (simp add: w')
    have q: "dual_ok w d2 da2" by (rule world_invD(3) [OF inv x])
    have "m y = memory w y" if "y \<in> region (buf (base da2)) (unat (capacity (base da2)))" for y
      using off [of y "OBase d2"] that base_covers [OF x] False by simp
    moreover have "arena_inv (memory w) (base da2)" using q unfolding dual_ok_def by blast
    ultimately have "arena_inv m (base da2)" by (metis arena_inv_cong(1))
    then show ?thesis using q by (auto simp: w' dual_ok_def selection_ok_def split: option.splits)
  qed
qed

text \<open>The selected request arena of a dual arena.\<close>

lemma world_selected:
  assumes "world_inv P L w" "das w d = Some da" "da_cur da = Some r"
  obtains ra where "ras w r = Some ra" "ra_da ra = d" "r \<in> set (requests da)" "state_cell da = slot_of ra"
    "in_mode P L (memory w) da ra"
proof -
  have q: "dual_ok w d da" by (rule world_invD(3) [OF assms(1,2)])
  have "selection_ok w da" by (rule dual_okD(4) [OF q])
  then obtain ra where ra: "ras w r = Some ra" "r \<in> set (requests da)" "state_cell da = slot_of ra"
    using assms(3) by (auto simp: selection_ok_def)
  then have d: "ra_da ra = d" using dual_okD(3) [OF q] by fastforce
  have "request_ok P L w r ra" by (rule world_invD(2) [OF assms(1) ra(1)])
  then have "in_mode P L (memory w) da ra" using d assms(2) by (auto elim: request_okD)
  then show thesis using that ra d by blast
qed

section \<open>What an operation may change\<close>

text \<open>Base arenas outside \<open>D\<close> and request arenas outside \<open>R\<close> keep their state and their bytes.\<close>

definition frame :: "nat set \<Rightarrow> nat set \<Rightarrow> world \<Rightarrow> world \<Rightarrow> bool" where
  "frame D R w w' \<longleftrightarrow>
     (\<forall>d da. d \<notin> D \<longrightarrow> das w d = Some da \<longrightarrow>
        (\<exists>da'. das w' d = Some da' \<and> base da' = base da \<and> da_mode da' = da_mode da) \<and>
        (\<forall>a \<in> covers (lay w (OBase d)). memory w' a = memory w a)) \<and>
     (\<forall>r ra. r \<notin> R \<longrightarrow> ras w r = Some ra \<longrightarrow>
        ras w' r = Some ra \<and> (\<forall>a \<in> covers (lay w (OReq r)). memory w' a = memory w a))"

lemma frame_refl [simp]: "frame D R w w"
  by (simp add: frame_def)

lemma frame_mono: "frame D R w w' \<Longrightarrow> D \<subseteq> D' \<Longrightarrow> R \<subseteq> R' \<Longrightarrow> frame D' R' w w'"
  unfolding frame_def by (meson subsetD)

lemma frameD:
  assumes "frame D R w w'"
  shows "d \<notin> D \<Longrightarrow> das w d = Some da \<Longrightarrow> \<exists>da'. das w' d = Some da' \<and> base da' = base da \<and> da_mode da' = da_mode da"
    "d \<notin> D \<Longrightarrow> das w d = Some da \<Longrightarrow> a \<in> covers (lay w (OBase d)) \<Longrightarrow> memory w' a = memory w a"
    "r \<notin> R \<Longrightarrow> ras w r = Some ra \<Longrightarrow> ras w' r = Some ra"
    "r \<notin> R \<Longrightarrow> ras w r = Some ra \<Longrightarrow> a \<in> covers (lay w (OReq r)) \<Longrightarrow> memory w' a = memory w a"
  using assms unfolding frame_def by simp_all

lemma frame_trans:
  assumes "frame D R w w1" "frame D R w1 w2"
  shows "frame D R w w2"
  unfolding frame_def
proof (intro conjI allI impI ballI)
  fix d da assume d: "d \<notin> D" "das w d = Some da"
  obtain da1 where da1: "das w1 d = Some da1" "base da1 = base da" "da_mode da1 = da_mode da"
    using frameD(1) [OF assms(1) d] by blast
  obtain da2 where da2: "das w2 d = Some da2" "base da2 = base da1" "da_mode da2 = da_mode da1"
    using frameD(1) [OF assms(2) d(1) da1(1)] by blast
  then show "\<exists>da'. das w2 d = Some da' \<and> base da' = base da \<and> da_mode da' = da_mode da" using da1 by simp
  fix a assume a: "a \<in> covers (lay w (OBase d))"
  moreover have "lay w1 (OBase d) = lay w (OBase d)" using d(2) da1 by (simp add: lay.simps)
  ultimately show "memory w2 a = memory w a"
    using frameD(2) [OF assms(1) d a] frameD(2) [OF assms(2) d(1) da1(1), of a] by simp
next
  fix r ra assume r: "r \<notin> R" "ras w r = Some ra"
  note r1 = frameD(3) [OF assms(1) r]
  show "ras w2 r = Some ra" by (rule frameD(3) [OF assms(2) r(1) r1])
  fix a assume a: "a \<in> covers (lay w (OReq r))"
  moreover have "lay w1 (OReq r) = lay w (OReq r)" using r(2) r1 by (simp add: lay.simps)
  ultimately show "memory w2 a = memory w a"
    using frameD(4) [OF assms(1) r a] frameD(4) [OF assms(2) r(1) r1, of a] by simp
qed

lemma touch_frame:
  assumes "touch r w w'"
  shows "frame {} {r} w w'"
  unfolding frame_def
proof (intro conjI allI impI ballI)
  fix d da assume "das w d = Some da"
  then show "\<exists>da'. das w' d = Some da' \<and> base da' = base da \<and> da_mode da' = da_mode da"
    using touch_das [OF assms] same_da_fields by metis
  show "memory w' a = memory w a" if "a \<in> covers (lay w (OBase d))" for a by (rule touchD(7) [OF assms that])
next
  fix r2 ra assume "r2 \<notin> {r}" "ras w r2 = Some ra"
  then show "ras w' r2 = Some ra" using touchD(2) [OF assms] by simp
  show "memory w' a = memory w a" if "a \<in> covers (lay w (OReq r2))" for a
    using touchD(8) [OF assms _ that] \<open>r2 \<notin> {r}\<close> by simp
qed

section \<open>A step of a running request arena\<close>

definition req_result :: "ms_rep \<Rightarrow> ms_live \<Rightarrow> nat \<Rightarrow> world \<Rightarrow> JSRequestArena \<Rightarrow> world \<Rightarrow> JSRequestArena \<Rightarrow> bool" where
  "req_result P L r w ra w' ra' \<longleftrightarrow>
     local_ok w' r ra' \<and> touch r w w' \<and> ra_da ra' = ra_da ra \<and> prov ra' = prov ra \<and> cap ra' = cap ra \<and>
     hd (ra_list ra') = hd (ra_list ra) \<and> running P L (memory w') ra'"

lemma req_result_world:
  assumes "mspace_ok e P L" "world_inv P L w" "ras w r = Some ra" "req_result P L r w ra w' ra'"
    and "\<And>da. das w (ra_da ra) = Some da \<Longrightarrow> da_mode da = JS_ARENA_MODE_REQUEST"
  shows "world_inv P L w'" "frame {} {r} w w'"
proof -
  have "in_mode P L (memory w') da ra'" if "das w (ra_da ra) = Some da" for da
    using assms(4) assms(5) [OF that] by (simp add: in_mode_def req_result_def)
  then show "world_inv P L w'"
    using assms(4) by (intro world_step [OF assms(1-3)]) (simp_all add: req_result_def)
  show "frame {} {r} w w'" using assms(4) by (intro touch_frame) (simp add: req_result_def)
qed

lemma local_step_result:
  assumes "local_ok w r ra" "local_step r w ra w' ra'" "running P L (memory w') ra'"
  shows "req_result P L r w ra w' ra'"
proof -
  have "ra_list ra \<noteq> []" by (rule ra_okD(1) [OF local_okD(4) [OF assms(1)]])
  then show ?thesis using assms(2,3) by (auto simp: req_result_def local_step_def ra_same_def)
qed

lemma req_result_trans:
  "req_result P L r w ra w1 ra1 \<Longrightarrow> req_result P L r w1 ra1 w2 ra2 \<Longrightarrow> req_result P L r w ra w2 ra2"
  using touch_trans unfolding req_result_def by metis

lemma counters_simps [simp]:
  "gc_space (ra\<lparr>oom := x\<rparr>) = gc_space ra" "gc_space (ra\<lparr>used := u\<rparr>) = gc_space ra" "gc_space (ra\<lparr>mode_next := n\<rparr>) = gc_space ra"
  "bump_ok (ra\<lparr>oom := x\<rparr>) = bump_ok ra" "bump_ok (ra\<lparr>used := u\<rparr>) = bump_ok ra" "bump_ok (ra\<lparr>mode_next := n\<rparr>) = bump_ok ra"
  "ra_ok (ra\<lparr>oom := x\<rparr>) = ra_ok ra" "ra_ok (ra\<lparr>used := u\<rparr>) = ra_ok ra" "ra_ok (ra\<lparr>mode_next := n\<rparr>) = ra_ok ra"
  by (simp_all add: gc_space_def bump_ok_def bump_at_def cur_blk_def last_at_def ra_ok_def extents_ok_def)

text \<open>Latching a refusal changes the OOM record only.\<close>

lemma note_oom_result:
  assumes "local_ok w r ra" "das w (ra_da ra) \<noteq> None" "running P L (memory w) ra"
  obtains w' ra' where "note_oom r n w = Inr w'" "req_result P L r w ra w' ra'" "memory w' = memory w"
    "ra' = ra\<lparr>oom := oom ra'\<rparr>" "hit (oom ra) \<Longrightarrow> oom ra' = oom ra"
proof -
  note D = local_okD [OF assms(1)]
  obtain da where da: "das w (ra_da ra) = Some da" using assms(2) by blast
  show thesis
  proof (cases "da_mode da \<noteq> JS_ARENA_MODE_REQUEST \<or> hit (oom ra)")
    case True
    have "req_result P L r w ra w ra" using assms(1,3) by (simp add: req_result_def)
    then show thesis using that [of w ra] True D(2) da by (simp add: note_oom_def deref_ra_def deref_da_def)
  next
    case False
    let ?f = "\<lambda>ra. ra\<lparr>oom := \<lparr>hit = True, requested = n,
        oom_used = (if ra_mode ra = JS_ARENA_REQ_MODE_GC then used ra else bump_used ra),
        oom_limit = (if cap ra = SIZE_MAX then SIZE_MAX else cap ra - ra_floor ra)\<rparr>\<rparr>"
    have run: "note_oom r n w = Inr (upd_ra r ?f w)"
      using False D(2) da by (simp add: note_oom_def deref_ra_def deref_da_def)
    have "ra_ok (?f ra)" using D(4) by simp
    note U = local_updI [OF assms(1) this, where m = "memory w" and f = ?f and w' = "upd_ra r ?f w"]
    have "running P L (memory w) (?f ra)"
      using assms(3) by (simp add: running_def)
    then have "req_result P L r w ra (upd_ra r ?f w) (?f ra)" using U by (simp add: req_result_def)
    then show thesis using that [OF run] False by simp
  qed
qed

end
