(* ===== verification/ArenaAlloc.thy ===== *)
theory ArenaAlloc
  imports ArenaWorld
begin

text \<open>
  The allocation functions of the engine (\<open>src/qjs-arena.c\<close>, \<open>jda_calloc\<close> to \<open>jda_usable_size\<close>) on a
  frozen dual arena. \<open>handed\<close> is the memory the client of a request arena holds. An allocation returns
  \<open>NULL\<close> and latches the refusal, or a block outside that memory; it never changes a byte of it.
\<close>

section \<open>Memory in the hands of the client\<close>

definition handed :: "ms_live \<Rightarrow> mem \<Rightarrow> JSRequestArena \<Rightarrow> ptr set" where
  "handed L m ra =
     (if ra_mode ra = JS_ARENA_REQ_MODE_GC then (\<Union>x \<in> dom (L m (msp ra)). region x (the (L m (msp ra) x))) else spent ra)"

lemma handed_gc:
  "ra_mode ra = JS_ARENA_REQ_MODE_GC \<Longrightarrow>
     a \<in> handed L m ra \<longleftrightarrow> (\<exists>x n. L m (msp ra) x = Some n \<and> a \<in> region x n)"
  unfolding handed_def dom_def by (simp, metis option.sel not_None_eq)

definition blocks_space :: "(ptr \<Rightarrow> nat option) \<Rightarrow> ptr set" where
  "blocks_space f = {a. \<exists>x n. f x = Some n \<and> a \<in> region x n}"

lemma handed_blocks: "ra_mode ra = JS_ARENA_REQ_MODE_GC \<Longrightarrow> handed L m ra = blocks_space (L m (msp ra))"
  by (simp add: set_eq_iff handed_gc blocks_space_def)

lemma blocks_space_add: "f p = None \<Longrightarrow> blocks_space (f(p \<mapsto> k)) = blocks_space f \<union> region p k"
  by (auto simp: blocks_space_def split: if_splits) (metis option.distinct(1))

lemma handed_covered:
  assumes "mspace_ok e P L" "running P L m ra"
  shows "handed L m ra \<subseteq> covers (map chunk_blk (ra_list ra))"
proof (cases "ra_mode ra = JS_ARENA_REQ_MODE_GC")
  case True
  then have "P m (msp ra) (gc_space ra)" using assms(2) by (simp add: running_def)
  then have "region x n \<subseteq> gc_space ra" if "L m (msp ra) x = Some n" for x n
    by (rule mspace_block(2) [OF assms(1) _ that])
  then show ?thesis using gc_space_sub [of ra] by (fastforce simp: handed_gc [OF True])
next
  case False
  then show ?thesis using assms(2) spent_covered [of ra] by (simp add: running_def handed_def bump_ok_def)
qed

text \<open>The outcome of a request for \<open>n\<close> bytes.\<close>

definition alloc_step :: "ms_rep \<Rightarrow> ms_live \<Rightarrow> nat \<Rightarrow> world \<Rightarrow> JSRequestArena \<Rightarrow> nat \<Rightarrow> ptr \<Rightarrow> world \<Rightarrow> JSRequestArena \<Rightarrow> bool" where
  "alloc_step P L r w ra n p w' ra' \<longleftrightarrow>
     req_result P L r w ra w' ra' \<and> (\<forall>a \<in> handed L (memory w) ra. memory w' a = memory w a) \<and>
     (if p = 0 then handed L (memory w') ra' = handed L (memory w) ra
      else handed L (memory w) ra \<subseteq> handed L (memory w') ra' \<and>
           region p n \<subseteq> handed L (memory w') ra' - handed L (memory w) ra)"

lemma live_bytes_add:
  assumes "L m q p = None" "L m' q = (L m q)(p \<mapsto> k)"
  shows "live_bytes L m' q = live_bytes L m q + k"
proof -
  have "dom (L m' q) = insert p (dom (L m q))" using assms(2) by simp
  moreover have "p \<notin> dom (L m q)" using assms(1) by (simp add: domIff)
  ultimately have "live_bytes L m' q = k + (\<Sum>x \<in> dom (L m q). the (L m' q x))"
    using assms(2) by (simp add: live_bytes_def)
  also have "(\<Sum>x \<in> dom (L m q). the (L m' q x)) = live_bytes L m q"
    unfolding live_bytes_def using assms by (intro sum.cong) (auto simp: domIff)
  finally show ?thesis by simp
qed

lemma live_bytes_remove:
  assumes "L m q p = Some k" "L m' q = (L m q)(p := None)"
  shows "live_bytes L m q = live_bytes L m' q + k"
proof -
  have "L m q = (L m' q)(p \<mapsto> k)" "L m' q p = None" using assms by (simp_all add: fun_eq_iff)
  then show ?thesis by (intro live_bytes_add)
qed

section \<open>Allocation\<close>

lemma touch_morecore: "touch r w (w\<lparr>morecore_ra := x\<rparr>)"
  by (rule touch_same) simp_all

lemma local_morecore: "local_ok w r ra \<Longrightarrow> local_ok (w\<lparr>morecore_ra := x\<rparr>) r ra"
  using touch_prov_live [OF touch_morecore [of r w x]] by (simp add: local_ok_def heap_inv_def)

text \<open>Running a call of the mspace on behalf of request \<open>r\<close>.\<close>

lemma gc_call:
  assumes ok: "local_ok w r ra" "pages_ok e"
    and act: "ms_act_ok (\<lambda>m. P m (msp ra)) Q act (memory w) (gc_space ra) (the_brk ra)"
  obtains p w' ra' where "ms_run e act (w\<lparr>morecore_ra := Some r\<rparr>) = Inr (p, w')" "local_ok w' r ra'" "touch r w w'"
    "ra_same ra ra'" "P (memory w') (msp ra') (gc_space ra')" "Q p (memory w')"
proof -
  let ?w = "w\<lparr>morecore_ra := Some r\<rparr>"
  have "ms_act_ok (\<lambda>m. P m (msp ra)) Q act (memory ?w) (gc_space ra) (the_brk ra)" using act by simp
  then obtain p w' ra' where R: "ms_run e act ?w = Inr (p, w')" "local_step r ?w ra w' ra'"
    "P (memory w') (msp ra) (gc_space ra')" "Q p (memory w')"
    using ms_run_ok [OF local_morecore [OF ok(1), of "Some r"] ok(2), of "\<lambda>m. P m (msp ra)" Q act] by auto
  then show thesis
    using that [OF R(1)] touch_trans [OF touch_morecore [of r w "Some r"], of w'] by (auto simp: local_step_def ra_same_def)
qed

lemma upd_ra_memory [simp]: "(upd_ra r f w)\<lparr>memory := memory w\<rparr> = upd_ra r f w"
  by (cases w) (simp add: upd_ra_def)

lemma upd_used:
  assumes "local_ok w r ra"
  shows "local_ok (upd_ra r (\<lambda>ra. ra\<lparr>used := g ra\<rparr>) w) r (ra\<lparr>used := g ra\<rparr>)" "touch r w (upd_ra r (\<lambda>ra. ra\<lparr>used := g ra\<rparr>) w)"
  using local_updI [OF assms, of "ra\<lparr>used := g ra\<rparr>" "memory w" _ "\<lambda>ra. ra\<lparr>used := g ra\<rparr>"] local_okD(4) [OF assms] by auto

lemma ra_same_keep:
  assumes "local_ok w r ra" "ra_same ra ra1"
  shows "hd (ra_list ra1) = hd (ra_list ra)" "prov ra1 = prov ra" "cap ra1 = cap ra" "msp ra1 = msp ra"
    "ra_mode ra1 = ra_mode ra" "used ra1 = used ra" "ra_da ra1 = ra_da ra"
  using assms(2) ra_okD(1) [OF local_okD(4) [OF assms(1)]] by (auto simp: ra_same_def)

text \<open>A call of the mspace that refuses: the refusal is latched and the live blocks stay.\<close>

lemma gc_refused:
  assumes ok: "local_ok w r ra" "running P L (memory w) ra" "ra_mode ra = JS_ARENA_REQ_MODE_GC" "das w (ra_da ra) \<noteq> None"
    and st: "local_ok w1 r ra1" "touch r w w1" "ra_same ra ra1" "P (memory w1) (msp ra1) (gc_space ra1)"
    and l: "L (memory w1) (msp ra) = L (memory w) (msp ra)" "blocks_kept (L (memory w) (msp ra)) (memory w) (memory w1)"
  obtains w2 ra2 where "note_oom r sz w1 = Inr w2" "alloc_step P L r w ra n 0 w2 ra2" "memory w2 = memory w1"
proof -
  note q = ra_same_keep [OF ok(1) st(3)]
  have run1: "running P L (memory w1) ra1" using st(4) q ok(2,3) l(1) by (simp add: running_def live_bytes_def)
  have "das w1 (ra_da ra1) \<noteq> None" using ok(4) touch_das_None [OF st(2)] q(7) by simp
  then obtain w2 ra2 where N: "note_oom r sz w1 = Inr w2" "req_result P L r w1 ra1 w2 ra2" "memory w2 = memory w1" "ra2 = ra1\<lparr>oom := oom ra2\<rparr>"
    by (rule note_oom_result [OF st(1) _ run1])
  have "req_result P L r w ra w1 ra1" using st(1,2) run1 q by (simp add: req_result_def)
  then have "req_result P L r w ra w2 ra2" using N(2) req_result_trans by blast
  moreover have "msp ra2 = msp ra" "ra_mode ra2 = JS_ARENA_REQ_MODE_GC"
    using q ok(3) N(4) by (metis JSRequestArena.select_convs JSRequestArena.surjective JSRequestArena.update_convs(16))+
  then have "handed L (memory w2) ra2 = handed L (memory w) ra" using N(3) l(1) ok(3) by (simp add: handed_def)
  moreover have "\<forall>a \<in> handed L (memory w) ra. memory w1 a = memory w a"
    using l(2) by (auto simp: handed_gc [OF ok(3)] blocks_kept_def)
  ultimately have "alloc_step P L r w ra n 0 w2 ra2" using N(3) by (simp add: alloc_step_def)
  then show thesis using that N(1,3) by blast
qed

text \<open>A new live block is apart from the ones before.\<close>

lemma new_block_apart:
  assumes "mspace_ok e P L" "P m1 q R" "L m1 q p = Some k" "\<And>x j. L m q x = Some j \<Longrightarrow> x \<noteq> p' \<Longrightarrow> x \<noteq> p \<and> L m1 q x = Some j"
  shows "L m q x = Some j \<Longrightarrow> x \<noteq> p' \<Longrightarrow> region p k \<inter> region x j = {}"
proof -
  assume x: "L m q x = Some j" "x \<noteq> p'"
  have "x \<noteq> p" "L m1 q x = Some j" using assms(4) [OF x] by simp_all
  then show ?thesis using mspace_apart [OF assms(1-3)] by metis
qed

lemma gc_alloc_ok:
  assumes ok: "local_ok w r ra" "running P L (memory w) ra" "ra_mode ra = JS_ARENA_REQ_MODE_GC" "das w (ra_da ra) \<noteq> None"
    and env: "pages_ok e" "mspace_ok e P L"
    and act: "ms_act_ok (\<lambda>m. P m (msp ra)) (\<lambda>p m'. ms_allocated L (memory w) (msp ra) n p m' \<and> Z p m')
                act (memory w) (gc_space ra) (the_brk ra)"
  obtains p w' ra' where "res_bind (ms_run e act (w\<lparr>morecore_ra := Some r\<rparr>)) (count_used e r sz) = Inr (p, w')"
    "alloc_step P L r w ra n p w' ra'" "Z p (memory w')"
proof -
  obtain p w1 ra1 where R: "ms_run e act (w\<lparr>morecore_ra := Some r\<rparr>) = Inr (p, w1)" "local_ok w1 r ra1" "touch r w w1"
    "ra_same ra ra1" "P (memory w1) (msp ra1) (gc_space ra1)" "ms_allocated L (memory w) (msp ra) n p (memory w1) \<and> Z p (memory w1)"
    by (rule gc_call [where P = P, OF ok(1) env(1) act])
  let ?q = "msp ra" and ?m = "memory w" and ?m1 = "memory w1"
  note q = ra_same_keep [OF ok(1) R(4)]
  have u: "used ra = of_nat (live_bytes L ?m ?q)" using ok(2,3) by (simp add: running_def)
  have kept: "blocks_kept (L ?m ?q) ?m ?m1" using R(6) by (simp add: ms_allocated_def)
  show thesis
  proof (cases "p = 0")
    case True
    then have "L ?m1 ?q = L ?m ?q" using R(6) by (simp add: ms_allocated_def)
    then obtain w2 ra2 where "note_oom r sz w1 = Inr w2" "alloc_step P L r w ra n 0 w2 ra2" "memory w2 = ?m1"
      by (rule gc_refused [where P = P, OF ok R(2-5) _ kept])
    then show thesis using that [of 0 w2 ra2] R(1,6) True by (simp add: count_used_def)
  next
    case False
    then obtain k where k: "n \<le> k" "L ?m ?q p = None" "L ?m1 ?q = (L ?m ?q)(p \<mapsto> k)"
      using R(6) by (auto simp: ms_allocated_def)
    have p1: "P ?m1 ?q (gc_space ra1)" "L ?m1 ?q p = Some k" using R(5) q(4) k(3) by simp_all
    let ?g = "\<lambda>ra. used ra + mspace_usable_size e ?m1 p"
    let ?w2 = "upd_ra r (\<lambda>ra. ra\<lparr>used := ?g ra\<rparr>) w1" and ?ra2 = "ra1\<lparr>used := ?g ra1\<rparr>"
    note U = upd_used [OF R(2), of ?g]
    have "?g ra1 = of_nat (live_bytes L ?m1 ?q)"
      using mspace_block(4) [OF env(2) p1] live_bytes_add [of L ?m ?q p ?m1 k, OF k(2,3)] u q(6) by simp
    then have "running P L ?m1 ?ra2" using p1(1) q ok(3) by (simp add: running_def)
    then have "req_result P L r w ra ?w2 ?ra2"
      using U touch_trans [OF R(3) U(2)] q by (simp add: req_result_def)
    moreover have h: "handed L ?m1 ?ra2 = handed L ?m ra \<union> region p k"
      using blocks_space_add [of "L ?m ?q", OF k(2)] k(3) q ok(3) by (simp add: handed_blocks)
    have "x \<noteq> p \<and> L ?m1 ?q x = Some j" if "L ?m ?q x = Some j" for x j using that k(2,3) by auto
    then have "region p k \<inter> region x j = {}" if "L ?m ?q x = Some j" for x j
      using new_block_apart [where P = P and L = L and m = ?m, OF env(2) p1, of p x j] that k(2) by auto
    then have "region p k \<inter> handed L ?m ra = {}" by (fastforce simp: handed_gc [OF ok(3)])
    then have "region p n \<subseteq> handed L ?m1 ?ra2 - handed L ?m ra" unfolding h using region_mono [OF k(1), of p] by blast
    moreover have "\<forall>a \<in> handed L ?m ra. ?m1 a = ?m a"
      using kept by (auto simp: handed_gc [OF ok(3)] blocks_kept_def)
    ultimately have "alloc_step P L r w ra n p ?w2 ?ra2" using False h by (simp add: alloc_step_def)
    then show thesis using that [of p ?w2 ?ra2] R(1,6) False by (simp add: count_used_def)
  qed
qed

lemma bump_running: "ra_mode ra = JS_ARENA_REQ_MODE_BUMP \<Longrightarrow> running P L m ra = bump_ok ra"
  by (simp add: running_def)

lemma bump_handed: "ra_mode ra = JS_ARENA_REQ_MODE_BUMP \<Longrightarrow> handed L m ra = spent ra"
  by (simp add: handed_def)

lemma oom_only:
  assumes "ra' = ra\<lparr>oom := x\<rparr>"
  shows "ra_mode ra' = ra_mode ra" "msp ra' = msp ra" "spent ra' = spent ra" "used ra' = used ra" "ra_list ra' = ra_list ra"
  using assms by (simp_all add: spent_def cur_blk_def)

text \<open>The end of an allocation in the bump mode: fill the block, or latch the refusal.\<close>

definition bump_finish :: "(ptr \<Rightarrow> mem \<Rightarrow> mem) \<Rightarrow> nat \<Rightarrow> size_t \<Rightarrow> ptr \<times> world \<Rightarrow> (ptr \<times> world) res" where
  "bump_finish fill r n pw =
     (case pw of (p, w) \<Rightarrow>
        if p \<noteq> 0 then Inr (p, w\<lparr>memory := fill p (memory w)\<rparr>) else res_bind (note_oom r n w) (\<lambda>w1. Inr (0, w1)))"

lemma bump_alloc_ok:
  assumes ok: "local_ok w r ra" "running P L (memory w) ra" "ra_mode ra = JS_ARENA_REQ_MODE_BUMP" "das w (ra_da ra) \<noteq> None"
    and env: "pages_ok e" and sz: "unat sz < 2 ^ 63"
    and fill: "\<And>p m a. a \<notin> region p (unat sz) \<Longrightarrow> fill p m a = m a"
  obtains p w' ra' where "res_bind (req_bump_alloc e r sz w) (bump_finish fill r n) = Inr (p, w')"
    "alloc_step P L r w ra (unat sz) p w' ra'" "p \<noteq> 0 \<longrightarrow> (\<exists>m. memory w' = fill p m) \<and> unat p mod 16 = 0"
proof -
  have b: "bump_ok ra" using ok(2,3) by (simp add: bump_running)
  obtain p w1 ra1 where A: "req_bump_alloc e r sz w = Inr (p, w1)" "bump_step r sz w ra p w1 ra1"
    by (rule req_bump_alloc_ok [OF ok(1) b env sz])
  note S = A(2) [unfolded bump_step_def]
  have md: "ra_mode ra1 = JS_ARENA_REQ_MODE_BUMP" "ra_da ra1 = ra_da ra" using S ok(3) by (simp_all add: local_step_def ra_same_def)
  have run1: "running P L (memory w1) ra1" using S md by (simp add: bump_running)
  have r1: "req_result P L r w ra w1 ra1" using S by (intro local_step_result [OF ok(1) _ run1]) simp
  have l1: "local_ok w1 r ra1" using r1 by (simp add: req_result_def)
  show thesis
  proof (cases "p = 0")
    case True
    have "das w1 (ra_da ra1) \<noteq> None" using ok(4) touch_das_None [of r w w1] r1 md(2) by (simp add: req_result_def)
    then obtain w2 ra2 where N: "note_oom r n w1 = Inr w2" "req_result P L r w1 ra1 w2 ra2" "memory w2 = memory w1" "ra2 = ra1\<lparr>oom := oom ra2\<rparr>"
      by (rule note_oom_result [OF l1 _ run1])
    have "req_result P L r w ra w2 ra2" using r1 N(2) req_result_trans by blast
    moreover have "ra1 = ra" using S True by simp
    ultimately have "alloc_step P L r w ra (unat sz) 0 w2 ra2"
      using S N(3) md ok(3) oom_only [OF N(4)] by (simp add: alloc_step_def bump_handed)
    then show thesis using that [of 0 w2 ra2] A(1) N(1) True by (simp add: bump_finish_def)
  next
    case False
    let ?m = "fill p (memory w1)"
    let ?w2 = "w1\<lparr>memory := ?m\<rparr>"
    have q: "region p (unat sz) \<subseteq> spent ra1 - spent ra" "unat p mod 16 = 0" using S False by simp_all
    have "spent ra1 \<subseteq> covers (lay w1 (OReq r))"
      using spent_covered [of ra1] S local_okD(2) [OF l1] by (simp add: bump_ok_def lay.simps)
    then have "?m a = memory w1 a" if "a \<notin> covers (lay w1 (OReq r))" for a using q(1) that by (intro fill) blast
    then have "local_ok ?w2 r ra1" "touch r w1 ?w2"
      using local_okD(4) [OF l1] local_updI [OF l1, where m = ?m and f = "\<lambda>x. x" and w' = ?w2] by (simp_all add: upd_ra_id)
    then have "req_result P L r w ra ?w2 ra1"
      using r1 touch_trans S md by (auto simp: req_result_def bump_running)
    moreover have "?m a = memory w a" if "a \<in> spent ra" for a
    proof -
      have "a \<notin> region p (unat sz)" using q(1) that by blast
      then show ?thesis using fill S that by simp
    qed
    ultimately have "alloc_step P L r w ra (unat sz) p ?w2 ra1"
      using q(1) S False md ok(3) by (simp add: alloc_step_def bump_handed)
    then show thesis using that [of p ?w2 ra1] A(1) False q(2) by (auto simp: bump_finish_def)
  qed
qed

end
