(* ===== verification/ArenaMalloc.thy ===== *)
theory ArenaMalloc
  imports ArenaAlloc
begin

text \<open>
  The five functions of \<open>JSMallocFunctions\<close> (\<open>src/qjs-arena.c\<close>, \<open>jda_calloc\<close> to \<open>jda_usable_size\<close>) on the
  whole state: each returns, keeps the invariant, and changes the base arena it allocates in or the
  selected request arena and nothing else. \<open>client_space\<close> is the memory the engine holds from a dual
  arena: a new block is outside it and its bytes stay.
\<close>

section \<open>The memory the engine holds\<close>

definition client_space :: "ms_live \<Rightarrow> world \<Rightarrow> nat \<Rightarrow> ptr set" where
  "client_space L w d =
     (case das w d of None \<Rightarrow> {} | Some da \<Rightarrow>
        if da_mode da = JS_ARENA_MODE_BASE
        then (case arena_blocks (memory w) (base da) of None \<Rightarrow> {} | Some bs \<Rightarrow> \<Union>(p, s) \<in> set bs. region p (unat s))
        else (case da_cur da of None \<Rightarrow> {} | Some r \<Rightarrow>
                (case ras w r of None \<Rightarrow> {} | Some ra \<Rightarrow> handed L (memory w) ra)))"

text \<open>The outcome of a request for \<open>n\<close> bytes from dual arena \<open>d\<close>.\<close>

definition alloc_outcome :: "ms_live \<Rightarrow> nat \<Rightarrow> world \<Rightarrow> nat \<Rightarrow> ptr \<Rightarrow> world \<Rightarrow> bool" where
  "alloc_outcome L d w n p w' \<longleftrightarrow>
     (\<forall>a \<in> client_space L w d. memory w' a = memory w a) \<and>
     (if p = 0 then client_space L w' d = client_space L w d
      else client_space L w d \<union> region p n \<subseteq> client_space L w' d \<and> region p n \<inter> client_space L w d = {})"

definition base_part :: "nat \<Rightarrow> JSDualArena \<Rightarrow> nat set" where
  "base_part d da = (if da_mode da = JS_ARENA_MODE_BASE then {d} else {})"

definition request_part :: "JSDualArena \<Rightarrow> nat set" where
  "request_part da = (if da_mode da = JS_ARENA_MODE_BASE then {} else set_option (da_cur da))"

lemma client_space_request:
  "das w d = Some da \<Longrightarrow> da_mode da = JS_ARENA_MODE_REQUEST \<Longrightarrow> da_cur da = Some r \<Longrightarrow> ras w r = Some ra \<Longrightarrow>
     client_space L w d = handed L (memory w) ra"
  by (simp add: client_space_def)

lemma client_space_base:
  "das w d = Some da \<Longrightarrow> da_mode da = JS_ARENA_MODE_BASE \<Longrightarrow> arena_blocks (memory w) (base da) = Some bs \<Longrightarrow>
     client_space L w d = (\<Union>(p, s) \<in> set bs. region p (unat s))"
  by (simp add: client_space_def)

lemma not_base [simp]: "da_mode da \<noteq> JS_ARENA_MODE_BASE \<longleftrightarrow> da_mode da = JS_ARENA_MODE_REQUEST"
  by (cases "da_mode da") simp_all

section \<open>Allocation before the freeze\<close>

lemma frame_base_step:
  assumes "das w d = Some da" "layout_ok (lay w)"
    and "\<And>x. x \<notin> region (buf (base da)) (unat (capacity (base da))) \<Longrightarrow> m x = memory w x"
    and "w' = (upd_da d (\<lambda>da. da\<lparr>base := a'\<rparr>) w)\<lparr>memory := m\<rparr>"
  shows "frame {d} {} w w'"
proof -
  have off: "m x = memory w x" if "x \<in> covers (lay w q)" "q \<noteq> OBase d" for x q
    using covers_apart [OF assms(2) that(2)] that(1) base_covers [OF assms(1)] by (intro assms(3)) auto
  show ?thesis unfolding frame_def assms(4) using off by auto
qed

lemma base_alloc_ok:
  assumes ms: "mspace_ok e P L" and inv: "world_inv P L w" and da: "das w d = Some da" "da_mode da = JS_ARENA_MODE_BASE"
    and sz: "unat sz < 2 ^ 63"
  obtains p w' where "base_alloc d da sz w = (p, w')" "world_inv P L w'" "frame {d} {} w w'"
    "alloc_outcome L d w (unat sz) p w'" "\<exists>a'. das w' d = Some (da\<lparr>base := a'\<rparr>)"
    "p \<noteq> 0 \<longrightarrow> (\<exists>bs a'. das w' d = Some (da\<lparr>base := a'\<rparr>) \<and> arena_blocks (memory w') a' = Some bs \<and> (p, sz) \<in> set bs)"
proof -
  let ?a = "base da" and ?m = "memory w"
  have ai: "arena_inv ?m ?a" by (rule dual_okD(5) [OF world_invD(3) [OF inv da(1)]])
  obtain bs where bs: "arena_blocks ?m ?a = Some bs" using arena_invD(8) [OF ai] by (auto split: option.splits)
  obtain m a p where al: "arena_alloc ?m ?a sz = (m, a, p)" by (cases "arena_alloc ?m ?a sz")
  note I = arena_alloc_inv [OF ai sz al] and F = arena_alloc_frame [OF ai sz al]
  define w' where "w' = (upd_da d (\<lambda>da. da\<lparr>base := a\<rparr>) w)\<lparr>memory := m\<rparr>"
  have run: "base_alloc d da sz w = (p, w')" using al by (simp add: base_alloc_def w'_def)
  have da': "das w' d = Some (da\<lparr>base := a\<rparr>)" using da(1) by (simp add: w'_def)
  have inv': "world_inv P L w'" by (rule world_base_step [OF ms inv da(1) I F w'_def])
  have fr: "frame {d} {} w w'" by (rule frame_base_step [OF da(1) world_invD(4) [OF inv] F w'_def])
  note C = client_space_base [OF da(1,2) bs, of L]
  have "alloc_outcome L d w (unat sz) p w' \<and> (p \<noteq> 0 \<longrightarrow> (\<exists>bs. arena_blocks m a = Some bs \<and> (p, sz) \<in> set bs))"
  proof (cases "sz = 0 \<or> unat (arena_cursor ?m ?a) + 16 + unat (align_up sz) > unat (capacity ?a)")
    case True
    then have "m = ?m" "a = ?a" "p = 0" using arena_alloc_none [OF ai sz True] al by simp_all
    moreover from this have "client_space L w' d = client_space L w d"
      using C client_space_base [OF da', of bs L] da(2) bs by (simp add: w'_def)
    ultimately show ?thesis by (simp add: alloc_outcome_def w'_def)
  next
    case False
    then have "sz \<noteq> 0" and rm: "unat (arena_cursor ?m ?a) + 16 + unat (align_up sz) \<le> unat (capacity ?a)" by simp_all
    then obtain m1 a1 p1 where A: "arena_alloc ?m ?a sz = (m1, a1, p1)" "p1 = buf ?a + of_nat (unat (arena_cursor ?m ?a) + 16)"
      "arena_blocks m1 a1 = Some (bs @ [(p1, sz)])"
      "\<And>x. x \<notin> region (buf ?a) 8 \<Longrightarrow> x \<notin> region (p1 - 16) 8 \<Longrightarrow> m1 x = ?m x"
      using arena_alloc_some [OF ai sz _ _ bs] by metis
    then have e: "m1 = m" "a1 = a" "p1 = p" using al by simp_all
    note B = A(3) [unfolded e] and p = A(2) [unfolded e]
    have C': "client_space L w' d = (\<Union>(p, s) \<in> set bs. region p (unat s)) \<union> region p (unat sz)"
      using client_space_base [OF da', of "bs @ [(p, sz)]" L] da(2) B by (auto simp: w'_def)
    have keep: "m x = ?m x" if "x \<in> client_space L w d" for x
    proof -
      obtain r t where "(r, t) \<in> set bs" "x \<in> region r (unat t)" using \<open>x \<in> client_space L w d\<close> unfolding C by auto
      moreover have "p - 16 = buf ?a + of_nat (unat (arena_cursor ?m ?a))" by (simp add: p)
      note A(4) [unfolded e this]
      ultimately show ?thesis by (rule arena_alloc_keeps [OF ai bs])
    qed
    have "region p (unat sz) \<inter> region r (unat t) = {}" if "(r, t) \<in> set bs" for r t
    proof -
      have i: "(r, t) \<in> set (bs @ [(p, sz)])" "(p, sz) \<in> set (bs @ [(p, sz)])" using that by simp_all
      have "unat (r - buf ?a) + unat t \<le> unat (arena_cursor ?m ?a)" by (rule arena_blocks_at(2) [OF ai bs that])
      moreover have "unat (p - buf ?a) = unat (arena_cursor ?m ?a) + 16"
        unfolding p using rm arena_invD(2) [OF ai] by (intro unat_off) simp
      ultimately show ?thesis
        using block_region [OF I(1) B i(1)] block_region [OF I(1) B i(2)] I(2) by auto
    qed
    then have "region p (unat sz) \<inter> client_space L w d = {}" unfolding C by blast
    then have "alloc_outcome L d w (unat sz) p w'"
      using keep C C' arena_block_pos(2) [OF I(1) B, of p sz] by (simp add: alloc_outcome_def w'_def)
    then show ?thesis using B by auto
  qed
  then show thesis using that [OF run inv' fr] da' by (auto simp: w'_def)
qed

section \<open>Allocation after the freeze\<close>

lemma request_outcome:
  assumes ms: "mspace_ok e P L" and inv: "world_inv P L w" and da: "das w d = Some da" "da_mode da = JS_ARENA_MODE_REQUEST"
    and cur: "da_cur da = Some r" "ras w r = Some ra" "ra_da ra = d"
    and st: "req_result P L r w ra w' ra'"
  shows "world_inv P L w'" "frame (base_part d da) (request_part da) w w'"
    "client_space L w d = handed L (memory w) ra" "client_space L w' d = handed L (memory w') ra'"
proof -
  have md: "da_mode x = JS_ARENA_MODE_REQUEST" if "das w (ra_da ra) = Some x" for x using that da cur(3) by simp
  note W = req_result_world [OF ms inv cur(2) st md]
  show "world_inv P L w'" by (rule W(1))
  show "frame (base_part d da) (request_part da) w w'"
    using da(2) cur(1) by (intro frame_mono [OF W(2)]) (simp_all add: request_part_def)
  show "client_space L w d = handed L (memory w) ra" by (rule client_space_request [OF da cur(1,2)])
  have t: "touch r w w'" and l: "local_ok w' r ra'" using st by (simp_all add: req_result_def)
  obtain da' where da': "das w' d = Some da'" "same_da da da'" using touch_das [OF t da(1)] by blast
  show "client_space L w' d = handed L (memory w') ra'"
    using da' da(2) cur(1) local_okD(2) [OF l] same_da_fields [OF da'(2)] by (intro client_space_request) simp_all
qed

lemma alloc_step_outcome:
  assumes "alloc_step P L r w ra n p w' ra'"
    and "client_space L w d = handed L (memory w) ra" "client_space L w' d = handed L (memory w') ra'"
  shows "alloc_outcome L d w n p w'"
  using assms unfolding alloc_step_def alloc_outcome_def by auto

text \<open>The selected request arena of a frozen dual arena, ready for a call.\<close>

lemma frozen_selected:
  assumes "world_inv P L w" "das w d = Some da" "da_mode da = JS_ARENA_MODE_REQUEST" "da_cur da = Some r"
  obtains ra where "ras w r = Some ra" "ra_da ra = d" "local_ok w r ra" "running P L (memory w) ra" "das w (ra_da ra) \<noteq> None"
proof -
  obtain ra where ra: "ras w r = Some ra" "ra_da ra = d" "in_mode P L (memory w) da ra"
    by (rule world_selected [OF assms(1,2,4)])
  then show thesis using that world_local [OF assms(1) ra(1)] assms(2,3) by (simp add: in_mode_def)
qed

lemma alloc_outcome_null [simp]: "alloc_outcome L d w n 0 w"
  by (simp add: alloc_outcome_def)

lemma memory_self [simp]: "(w :: world)\<lparr>memory := memory w\<rparr> = w"
  by (cases w) simp

lemma jda_malloc_ok:
  assumes env: "pages_ok e" "mspace_ok e P L" and inv: "world_inv P L w" and da: "das w d = Some da" and sz: "unat sz < 2 ^ 63"
  obtains p w' where "jda_malloc e d sz w = Inr (p, w')" "world_inv P L w'" "frame (base_part d da) (request_part da) w w'"
    "alloc_outcome L d w (unat sz) p w'"
proof (cases "da_mode da = JS_ARENA_MODE_BASE")
  case True
  obtain p w' where B: "base_alloc d da sz w = (p, w')" "world_inv P L w'" "frame {d} {} w w'" "alloc_outcome L d w (unat sz) p w'"
    by (rule base_alloc_ok [OF env(2) inv da True sz])
  have "jda_malloc e d sz w = Inr (p, w')" using da True B(1) by (simp add: jda_malloc_def deref_da_def)
  then show thesis using that B(2-4) True by (simp add: base_part_def request_part_def)
next
  case False
  then have md: "da_mode da = JS_ARENA_MODE_REQUEST" by simp
  show thesis
  proof (cases "da_cur da")
    case None
    then have "jda_malloc e d sz w = Inr (0, w)" using da False by (simp add: jda_malloc_def deref_da_def)
    then show thesis using that inv by simp
  next
    case (Some r)
    obtain ra where ra: "ras w r = Some ra" "ra_da ra = d" "local_ok w r ra" "running P L (memory w) ra" "das w (ra_da ra) \<noteq> None"
      by (rule frozen_selected [OF inv da md Some])
    obtain p w' ra' where R: "jda_malloc e d sz w = Inr (p, w')" "alloc_step P L r w ra (unat sz) p w' ra'"
    proof (cases "ra_mode ra")
      case JS_ARENA_REQ_MODE_BUMP
      have "jda_malloc e d sz w = res_bind (req_bump_alloc e r sz w) (bump_finish (\<lambda>p m. m) r sz)"
        using da md Some ra(1) JS_ARENA_REQ_MODE_BUMP
        by (simp add: jda_malloc_def deref_da_def deref_ra_def bump_finish_def [abs_def] case_prod_unfold cong: if_cong)
      moreover obtain p w' ra' where "res_bind (req_bump_alloc e r sz w) (bump_finish (\<lambda>p m. m) r sz) = Inr (p, w')"
        "alloc_step P L r w ra (unat sz) p w' ra'"
        by (rule bump_alloc_ok [OF ra(3,4) JS_ARENA_REQ_MODE_BUMP ra(5) env(1) sz, of "\<lambda>p m. m" sz]) simp_all
      ultimately show thesis using that by simp
    next
      case JS_ARENA_REQ_MODE_GC
      have p: "P (memory w) (msp ra) (gc_space ra)" using ra(4) JS_ARENA_REQ_MODE_GC by (simp add: running_def)
      have "jda_malloc e d sz w = res_bind (ms_run e (mspace_malloc e (memory w) (msp ra) sz) (w\<lparr>morecore_ra := Some r\<rparr>)) (count_used e r sz)"
        using da md Some ra(1) JS_ARENA_REQ_MODE_GC by (simp add: jda_malloc_def deref_da_def deref_ra_def Let_def)
      moreover have "ms_act_ok (\<lambda>m. P m (msp ra)) (\<lambda>p m'. ms_allocated L (memory w) (msp ra) (unat sz) p m' \<and> True)
          (mspace_malloc e (memory w) (msp ra) sz) (memory w) (gc_space ra) (the_brk ra)"
        using mspace_calls(1) [OF env(2) p] by simp
      ultimately show thesis
        using that gc_alloc_ok [OF ra(3,4) JS_ARENA_REQ_MODE_GC ra(5) env, where Z = "\<lambda>_ _. True" and sz = sz] by metis
    qed
    have q: "req_result P L r w ra w' ra'" using R(2) by (simp add: alloc_step_def)
    note O = request_outcome [OF env(2) inv da md Some ra(1,2) q]
    show thesis by (rule that [OF R(1) O(1,2) alloc_step_outcome [OF R(2) O(3,4)]])
  qed
qed

lemma calloc_total:
  assumes "sz \<noteq> 0" "\<not> count > SIZE_MAX div sz"
  shows "unat count * unat sz < 2 ^ 64" "unat (count * sz) = unat count * unat sz"
proof -
  have "unat (SIZE_MAX div sz) = unat SIZE_MAX div unat sz" by (rule unat_div)
  then have "unat count \<le> (2 ^ 64 - 1) div unat sz" using assms(2) by (simp add: u64_less_iff)
  then have "unat count * unat sz \<le> (2 ^ 64 - 1) div unat sz * unat sz" by (rule mult_le_mono1)
  also have "\<dots> \<le> 2 ^ 64 - 1" by (rule div_times_less_eq_dividend)
  finally show l: "unat count * unat sz < 2 ^ 64" by simp
  then show "unat (count * sz) = unat count * unat sz" using unat_mult_lem [of count sz] by simp
qed

lemma memset_fill: "a \<notin> region p n \<Longrightarrow> memset m p 0 n a = m a"
  by (rule memset_outside)

lemma jda_calloc_request:
  assumes env: "pages_ok e" "mspace_ok e P L" and inv: "world_inv P L w" and da: "das w d = Some da" "da_mode da = JS_ARENA_MODE_REQUEST"
    and sz: "count \<noteq> 0" "sz \<noteq> 0" "\<not> count > SIZE_MAX div sz" "unat (count * sz) < 2 ^ 63" and cur: "da_cur da = Some r"
    and ra: "ras w r = Some ra" "ra_da ra = d" "local_ok w r ra" "running P L (memory w) ra" "das w (ra_da ra) \<noteq> None"
  obtains p w' ra' where "jda_calloc e d count sz w = Inr (p, w')" "alloc_step P L r w ra (unat (count * sz)) p w' ra'"
    "p \<noteq> 0 \<longrightarrow> (\<forall>a \<in> region p (unat (count * sz)). memory w' a = 0)"
proof (cases "ra_mode ra")
  let ?t = "count * sz"
  case JS_ARENA_REQ_MODE_BUMP
  let ?fill = "\<lambda>p m. memset m p 0 (unat ?t)"
  have run: "jda_calloc e d count sz w = res_bind (req_bump_alloc e r ?t w) (bump_finish ?fill r ?t)"
    using da cur ra(1) JS_ARENA_REQ_MODE_BUMP sz(1-3)
    by (simp add: jda_calloc_def deref_da_def deref_ra_def bump_finish_def [abs_def] case_prod_unfold Let_def)
  obtain p w' ra' where B: "res_bind (req_bump_alloc e r ?t w) (bump_finish ?fill r ?t) = Inr (p, w')"
    "alloc_step P L r w ra (unat ?t) p w' ra'" "p \<noteq> 0 \<longrightarrow> (\<exists>m. memory w' = ?fill p m) \<and> unat p mod 16 = 0"
    by (rule bump_alloc_ok [where n = ?t and fill = ?fill, OF ra(3,4) JS_ARENA_REQ_MODE_BUMP ra(5) env(1) sz(4) memset_fill])
  have "\<forall>a \<in> region p (unat ?t). memory w' a = 0" if z: "p \<noteq> 0"
  proof -
    obtain m where m: "memory w' = ?fill p m" using B(3) z by blast
    show ?thesis unfolding m by (simp add: memset_inside)
  qed
  then show thesis using that run B(1,2) by simp
next
  let ?t = "count * sz"
  case JS_ARENA_REQ_MODE_GC
  note T = calloc_total [OF sz(2,3)]
  have p: "P (memory w) (msp ra) (gc_space ra)" using ra(4) JS_ARENA_REQ_MODE_GC by (simp add: running_def)
  have run: "jda_calloc e d count sz w = res_bind (ms_run e (mspace_calloc e (memory w) (msp ra) count sz) (w\<lparr>morecore_ra := Some r\<rparr>)) (count_used e r ?t)"
    using da cur ra(1) JS_ARENA_REQ_MODE_GC sz(1-3) by (simp add: jda_calloc_def deref_da_def deref_ra_def Let_def)
  note act = mspace_calls(2) [OF env(2) p T(1), of "the_brk ra", folded T(2)]
  obtain p' w' ra' where "res_bind (ms_run e (mspace_calloc e (memory w) (msp ra) count sz) (w\<lparr>morecore_ra := Some r\<rparr>)) (count_used e r ?t) = Inr (p', w')"
    "alloc_step P L r w ra (unat ?t) p' w' ra'" "p' \<noteq> 0 \<longrightarrow> (\<forall>a \<in> region p' (unat ?t). memory w' a = 0)"
    by (rule gc_alloc_ok [where P = P, OF ra(3,4) JS_ARENA_REQ_MODE_GC ra(5) env act])
  then show thesis using that run by simp
qed

lemma calloc_base_fill:
  assumes ms: "mspace_ok e P L" and inv: "world_inv P L w" and da: "das w d = Some da" "da_mode da = JS_ARENA_MODE_BASE"
    and bs: "arena_blocks (memory w) (base da) = Some bs" "(p, sz) \<in> set bs"
  shows "world_inv P L (w\<lparr>memory := memset (memory w) p 0 (unat sz)\<rparr>)"
    "frame {d} {} w (w\<lparr>memory := memset (memory w) p 0 (unat sz)\<rparr>)"
    "client_space L (w\<lparr>memory := memset (memory w) p 0 (unat sz)\<rparr>) d = client_space L w d"
proof -
  let ?m = "memset (memory w) p 0 (unat sz)"
  let ?w = "w\<lparr>memory := ?m\<rparr>"
  have ai: "arena_inv (memory w) (base da)" by (rule dual_okD(5) [OF world_invD(3) [OF inv da(1)]])
  note I = arena_inv_payload [where m' = ?m, OF ai bs memset_fill]
  have out: "?m x = memory w x" if "x \<notin> region (buf (base da)) (unat (capacity (base da)))" for x
  proof (rule memset_fill)
    have "x \<in> region p (unat sz) \<Longrightarrow> unat (x - buf (base da)) < unat (capacity (base da))"
      using block_region [OF ai bs, of x] arena_blocks_at(2) [OF ai bs] arena_invD(6) [OF ai] by simp
    then show "x \<notin> region p (unat sz)" using that by (auto simp: region_def)
  qed
  have w': "?w = (upd_da d (\<lambda>x. x\<lparr>base := base da\<rparr>) w)\<lparr>memory := ?m\<rparr>"
    using da(1) by (simp add: upd_da_def fun_upd_idem)
  show "world_inv P L ?w" by (rule world_base_step [OF ms inv da(1) I(1) refl refl out w'])
  show "frame {d} {} w ?w" by (rule frame_base_step [OF da(1) world_invD(4) [OF inv] out w'])
  show "client_space L ?w d = client_space L w d" using da bs(1) I(2) by (simp add: client_space_def)
qed

lemma jda_calloc_ok:
  assumes env: "pages_ok e" "mspace_ok e P L" and inv: "world_inv P L w" and da: "das w d = Some da"
    and sz: "unat count * unat sz < 2 ^ 63"
  obtains p w' where "jda_calloc e d count sz w = Inr (p, w')" "world_inv P L w'" "frame (base_part d da) (request_part da) w w'"
    "alloc_outcome L d w (unat count * unat sz) p w'" "p \<noteq> 0 \<longrightarrow> (\<forall>a \<in> region p (unat count * unat sz). memory w' a = 0)"
proof (cases "count = 0 \<or> sz = 0 \<or> count > SIZE_MAX div sz")
  case True
  then have "jda_calloc e d count sz w = Inr (0, w)" using da by (auto simp: jda_calloc_def deref_da_def)
  then show thesis using that inv by simp
next
  case False
  then have nz: "count \<noteq> 0" "sz \<noteq> 0" "\<not> count > SIZE_MAX div sz" by simp_all
  note T = calloc_total [OF nz(2,3)]
  have st: "unat (count * sz) < 2 ^ 63" using sz T(2) by simp
  show thesis
  proof (cases "da_mode da = JS_ARENA_MODE_BASE")
    case base: True
    obtain p w1 where B: "base_alloc d da (count * sz) w = (p, w1)" "world_inv P L w1" "frame {d} {} w w1"
      "alloc_outcome L d w (unat (count * sz)) p w1"
      "p \<noteq> 0 \<longrightarrow> (\<exists>bs a'. das w1 d = Some (da\<lparr>base := a'\<rparr>) \<and> arena_blocks (memory w1) a' = Some bs \<and> (p, count * sz) \<in> set bs)"
      by (rule base_alloc_ok [OF env(2) inv da base st])
    have run: "jda_calloc e d count sz w = Inr (p, if p \<noteq> 0 then w1\<lparr>memory := memset (memory w1) p 0 (unat (count * sz))\<rparr> else w1)"
      using da nz base B(1) by (simp add: jda_calloc_def deref_da_def Let_def)
    show thesis
    proof (cases "p = 0")
      case True
      then show thesis using that [OF run] B(2-4) base T(2) by (simp add: base_part_def request_part_def)
    next
      case p: False
      then obtain bs a' where a': "das w1 d = Some (da\<lparr>base := a'\<rparr>)" "arena_blocks (memory w1) a' = Some bs" "(p, count * sz) \<in> set bs"
        using B(5) by blast
      note F = calloc_base_fill [OF env(2) B(2) a'(1), of bs p "count * sz"]
      let ?w = "w1\<lparr>memory := memset (memory w1) p 0 (unat (count * sz))\<rparr>"
      have F': "world_inv P L ?w" "frame {d} {} w1 ?w" "client_space L ?w d = client_space L w1 d"
        using F a' base by simp_all
      have "frame {d} {} w ?w" by (rule frame_trans [OF B(3) F'(2)])
      moreover have "alloc_outcome L d w (unat (count * sz)) p ?w"
        using B(4) p F'(3) unfolding alloc_outcome_def by (auto simp: memset_def region_def)
      ultimately show thesis
        using that [OF run] p F'(1) base T(2) by (simp add: base_part_def request_part_def memset_inside)
    qed
  next
    case req: False
    then have md: "da_mode da = JS_ARENA_MODE_REQUEST" by simp
    show thesis
    proof (cases "da_cur da")
      case None
      then have "jda_calloc e d count sz w = Inr (0, w)" using da req by (simp add: jda_calloc_def deref_da_def Let_def)
      then show thesis using that inv by simp
    next
      case (Some r)
      obtain ra where ra: "ras w r = Some ra" "ra_da ra = d" "local_ok w r ra" "running P L (memory w) ra" "das w (ra_da ra) \<noteq> None"
        by (rule frozen_selected [OF inv da md Some])
      obtain p w' ra' where R: "jda_calloc e d count sz w = Inr (p, w')" "alloc_step P L r w ra (unat (count * sz)) p w' ra'"
        "p \<noteq> 0 \<longrightarrow> (\<forall>a \<in> region p (unat (count * sz)). memory w' a = 0)"
        by (rule jda_calloc_request [OF env inv da md nz st Some ra])
      have q: "req_result P L r w ra w' ra'" using R(2) by (simp add: alloc_step_def)
      note O = request_outcome [OF env(2) inv da md Some ra(1,2) q]
      show thesis by (rule that [OF R(1) O(1,2)]) (use alloc_step_outcome [OF R(2) O(3,4)] R(3) T(2) in auto)
    qed
  qed
qed

end
