(* ===== verification/ArenaRealloc.thy ===== *)
theory ArenaRealloc
  imports ArenaMalloc
begin

text \<open>
  Freeing and reallocating (\<open>src/qjs-arena.c\<close>, \<open>jda_free\<close>, \<open>jda_realloc\<close>, \<open>jda_usable_size\<close>). The chunk
  set tells which request arena a pointer belongs to; a live block of its mspace is freed or resized
  there, a block of the base or of another request is copied into the selected one.
\<close>

section \<open>Owners of pointers\<close>

definition owner_part :: "world \<Rightarrow> ptr \<Rightarrow> nat set" where
  "owner_part w p = {r. p \<in> covers (lay w (OReq r))}"

lemma owner_lookup:
  assumes "heap_inv w"
  obtains own where "js_arena_ptr_request_owner (chunks w) p = Inr own" "set_option own = owner_part w p"
    "\<And>r. own = Some r \<Longrightarrow> \<exists>ra. ras w r = Some ra \<and> p \<in> covers (map chunk_blk (ra_list ra))"
proof -
  note H = assms [unfolded heap_inv_def]
  let ?own = "chunk_owner (chunks w) (chunk_key p)"
  have o: "?own = Some r \<longleftrightarrow> p \<in> covers (lay w (OReq r))" for r by (rule heap_okD(3) [OF H])
  have "\<exists>ra. ras w r = Some ra \<and> p \<in> covers (map chunk_blk (ra_list ra))" if "?own = Some r" for r
    using o [of r] that by (auto simp: lay.simps split: option.splits)
  moreover have "set_option ?own = owner_part w p" unfolding owner_part_def o [symmetric] by auto
  ultimately show thesis using that [of ?own] chunk_lookup [OF heap_okD(2) [OF H]] by blast
qed

section \<open>Live blocks\<close>

definition frozen :: "world \<Rightarrow> nat \<Rightarrow> bool" where
  "frozen w d \<longleftrightarrow> (\<exists>da. das w d = Some da \<and> da_mode da = JS_ARENA_MODE_REQUEST)"

text \<open>
  The blocks the client may pass to the allocator: those of a base arena, and those of the request
  arenas of a frozen dual arena, live in the mspace or handed out by the bump allocator with their
  size in the header.
\<close>

definition base_live :: "world \<Rightarrow> nat \<Rightarrow> ptr \<Rightarrow> nat \<Rightarrow> bool" where
  "base_live w d p n \<longleftrightarrow>
     (\<exists>da bs s. das w d = Some da \<and> arena_blocks (memory w) (base da) = Some bs \<and> (p, s) \<in> set bs \<and> n = unat s)"

definition request_live :: "ms_live \<Rightarrow> world \<Rightarrow> nat \<Rightarrow> ptr \<Rightarrow> nat \<Rightarrow> bool" where
  "request_live L w r p n \<longleftrightarrow>
     (\<exists>ra. ras w r = Some ra \<and> frozen w (ra_da ra) \<and> 0 < n \<and> n < 2 ^ 63 \<and>
        (if ra_mode ra = JS_ARENA_REQ_MODE_GC then L (memory w) (msp ra) p = Some n
         else region p n \<subseteq> spent ra \<and> load64 (memory w) (p - 16) = of_nat n))"

definition live_block :: "ms_live \<Rightarrow> world \<Rightarrow> ptr \<Rightarrow> nat \<Rightarrow> bool" where
  "live_block L w p n \<longleftrightarrow> (\<exists>d. base_live w d p n) \<or> (\<exists>r. request_live L w r p n)"

lemma region_start: "0 < n \<Longrightarrow> p \<in> region p n"
  by (simp add: region_def)

lemma base_live_in:
  assumes inv: "world_inv P L w" and b: "base_live w d p n"
  shows "region p n \<subseteq> covers (lay w (OBase d))" "0 < n" "n < 2 ^ 63" "p \<noteq> 0" "load64 (memory w) (p - 16) = of_nat n"
proof -
  obtain da bs s where B: "das w d = Some da" "arena_blocks (memory w) (base da) = Some bs" "(p, s) \<in> set bs" "n = unat s"
    using b unfolding base_live_def by blast
  have ai: "arena_inv (memory w) (base da)" by (rule dual_okD(5) [OF world_invD(3) [OF inv B(1)]])
  note A = arena_blocks_at [OF ai B(2,3)]
  show "0 < n" "n < 2 ^ 63" "load64 (memory w) (p - 16) = of_nat n" using A(4-6) B(4) by simp_all
  show "p \<noteq> 0" by (rule arena_block_pos(2) [OF ai B(2,3)])
  show "region p n \<subseteq> covers (lay w (OBase d))"
    using block_region [OF ai B(2,3)] A(2) arena_invD(6) [OF ai] unfolding base_covers [OF B(1)] B(4)
    by (auto simp: region_def)
qed

lemma frozen_running:
  assumes "world_inv P L w" "ras w r = Some ra" "frozen w (ra_da ra)"
  shows "running P L (memory w) ra"
proof -
  have "request_ok P L w r ra" by (rule world_invD(2) [OF assms(1,2)])
  then show ?thesis using assms(3) by (auto elim!: request_okD simp: in_mode_def frozen_def)
qed

lemma request_live_in:
  assumes ms: "mspace_ok e P L" and inv: "world_inv P L w" and b: "request_live L w r p n"
  shows "region p n \<subseteq> covers (lay w (OReq r))" "0 < n" "n < 2 ^ 63" "p \<noteq> 0"
proof -
  obtain ra where R: "ras w r = Some ra" "frozen w (ra_da ra)" "0 < n" "n < 2 ^ 63"
    "if ra_mode ra = JS_ARENA_REQ_MODE_GC then L (memory w) (msp ra) p = Some n
     else region p n \<subseteq> spent ra \<and> load64 (memory w) (p - 16) = of_nat n"
    using b unfolding request_live_def by blast
  show "0 < n" "n < 2 ^ 63" by (rule R(3) R(4))+
  have rn: "running P L (memory w) ra" by (rule frozen_running [OF inv R(1,2)])
  have "region p n \<subseteq> handed L (memory w) ra"
    using R(5) by (cases "ra_mode ra") (auto simp: handed_gc handed_def)
  then show c: "region p n \<subseteq> covers (lay w (OReq r))"
    using handed_covered [OF ms rn] R(1) by (auto simp: lay.simps)
  have "p \<in> covers (lay w (OReq r))" using c region_start [OF R(3), of p] by blast
  then obtain q k where "(q, k) \<in> set (lay w (OReq r))" "p \<in> blk_set (q, k)" by (auto simp: covers_def)
  then show "p \<noteq> 0"
    using layoutD(1) [OF world_invD(4) [OF inv]] blk_set_iff [of q k p] by (fastforce simp: blk_ok_def)
qed

lemma live_block_owner:
  assumes ms: "mspace_ok e P L" and inv: "world_inv P L w" and b: "live_block L w p n"
  obtains own where "js_arena_ptr_request_owner (chunks w) p = Inr own" "set_option own = owner_part w p"
    "req_ptr_size e w own p = Inr (of_nat n)"
    "own = None \<longrightarrow> (\<exists>d. base_live w d p n)" "\<forall>r. own = Some r \<longrightarrow> request_live L w r p n"
    "0 < n" "n < 2 ^ 63" "p \<noteq> 0"
proof -
  obtain own where own: "js_arena_ptr_request_owner (chunks w) p = Inr own" "set_option own = owner_part w p"
    "\<And>r. own = Some r \<Longrightarrow> \<exists>ra. ras w r = Some ra \<and> p \<in> covers (map chunk_blk (ra_list ra))"
    by (rule owner_lookup [OF world_invD(1) [OF inv]]) blast
  note L = world_invD(4) [OF inv]
  show thesis
  proof (cases "\<exists>d. base_live w d p n")
    case True
    then obtain d where d: "base_live w d p n" by blast
    note B = base_live_in [OF inv d]
    have "p \<in> covers (lay w (OBase d))" using B(1) region_start [OF B(2)] by blast
    then have "owner_part w p = {}" using covers_apart [OF L, of "OBase d"] by (auto simp: owner_part_def)
    then have "own = None" using own(2) by simp
    moreover from this have "req_ptr_size e w own p = Inr (of_nat n)"
      using B(5) by (simp add: req_ptr_size_def owner_mode_def arena_user_size_def)
    ultimately show thesis using that own(1,2) d B(2-4) by blast
  next
    case False
    then obtain r where r: "request_live L w r p n" using b by (auto simp: live_block_def)
    note B = request_live_in [OF ms inv r]
    have "p \<in> covers (lay w (OReq r))" using B(1) region_start [OF B(2)] by blast
    then have "r \<in> set_option own" unfolding own(2) by (simp add: owner_part_def)
    then have o: "own = Some r" by simp
    obtain ra where R: "ras w r = Some ra" "frozen w (ra_da ra)"
      "if ra_mode ra = JS_ARENA_REQ_MODE_GC then L (memory w) (msp ra) p = Some n
       else region p n \<subseteq> spent ra \<and> load64 (memory w) (p - 16) = of_nat n"
      using r unfolding request_live_def by blast
    have rn: "running P L (memory w) ra" by (rule frozen_running [OF inv R(1,2)])
    have "req_ptr_size e w own p = Inr (of_nat n)"
    proof (cases "ra_mode ra")
      case JS_ARENA_REQ_MODE_GC
      then have "P (memory w) (msp ra) (gc_space ra)" "L (memory w) (msp ra) p = Some n"
        using rn R(3) by (simp_all add: running_def)
      note X = mspace_block(4) [OF ms this]
      show ?thesis using X JS_ARENA_REQ_MODE_GC R(1) by (simp add: req_ptr_size_def owner_mode_def o deref_ra_def)
    next
      case JS_ARENA_REQ_MODE_BUMP
      then show ?thesis using R by (simp add: req_ptr_size_def owner_mode_def o deref_ra_def arena_user_size_def)
    qed
    then show thesis using that own(1,2) r o B(2-4) by blast
  qed
qed

section \<open>Free\<close>

lemma gc_free_ok:
  assumes ok: "local_ok w r ra" "running P L (memory w) ra" "ra_mode ra = JS_ARENA_REQ_MODE_GC"
    and ms: "mspace_ok e P L" and live: "L (memory w) (msp ra) p = Some n"
  defines "w' \<equiv> (upd_ra r (\<lambda>ra. ra\<lparr>used := used ra - mspace_usable_size e (memory w) p\<rparr>) w)
                  \<lparr>memory := mspace_free e (memory w) (msp ra) p\<rparr>"
    and "ra' \<equiv> ra\<lparr>used := used ra - mspace_usable_size e (memory w) p\<rparr>"
  shows "req_result P L r w ra w' ra'" "handed L (memory w') ra' = blocks_space ((L (memory w) (msp ra))(p := None))"
    "blocks_kept ((L (memory w) (msp ra))(p := None)) (memory w) (memory w')"
    "L (memory w') (msp ra) = (L (memory w) (msp ra))(p := None)"
proof -
  have p: "P (memory w) (msp ra) (gc_space ra)" "used ra = of_nat (live_bytes L (memory w) (msp ra))"
    using ok(2,3) by (simp_all add: running_def)
  note F = mspace_frees [OF ms p(1) live] and B = mspace_block [OF ms p(1) live]
  have m: "memory w' = mspace_free e (memory w) (msp ra) p" by (simp add: w'_def)
  have "live_bytes L (memory w) (msp ra) = live_bytes L (memory w') (msp ra) + n"
    unfolding m by (rule live_bytes_remove [where L = L, OF live F(2)])
  moreover have "used ra' = used ra - of_nat n" using B(4) by (simp add: ra'_def)
  ultimately have "used ra' = of_nat (live_bytes L (memory w') (msp ra))" unfolding p(2) by simp
  then have run: "running P L (memory w') ra'" using F(1) ok(3) m by (simp add: running_def ra'_def)
  have out: "mspace_free e (memory w) (msp ra) p a = memory w a" if "a \<notin> covers (lay w (OReq r))" for a
    using F(4) [of a] that gc_space_sub [of ra] local_okD(2) [OF ok(1)] by (auto simp: lay.simps)
  have ra': "ra_ok ra'" "prov ra' = prov ra" "ra_list ra' = ra_list ra" "ra_da ra' = ra_da ra" "cap ra' = cap ra"
    using local_okD(4) [OF ok(1)] by (simp_all add: ra'_def)
  note U = local_updI [OF ok(1) ra'(1-3) out w'_def [THEN meta_eq_to_obj_eq] ra'_def [THEN meta_eq_to_obj_eq, symmetric]]
  show "req_result P L r w ra w' ra'"
    unfolding req_result_def using U(1,2) run ra'(2-5) by simp
  show "handed L (memory w') ra' = blocks_space ((L (memory w) (msp ra))(p := None))"
    using F(2) ok(3) m by (simp add: handed_blocks ra'_def)
  show "blocks_kept ((L (memory w) (msp ra))(p := None)) (memory w) (memory w')" using F(3) by (simp add: w'_def)
  show "L (memory w') (msp ra) = (L (memory w) (msp ra))(p := None)" using F(2) by (simp add: m)
qed

text \<open>
  Freeing a block takes it out of the live blocks of the mspace that owns it; the other live blocks
  keep their bytes. In a base arena and in a bump arena it does nothing.
\<close>

definition freed :: "ms_live \<Rightarrow> ptr \<Rightarrow> world \<Rightarrow> world \<Rightarrow> bool" where
  "freed L p w w' \<longleftrightarrow>
     w' = w \<or>
     (\<exists>r ra. owner_part w p = {r} \<and> ras w r = Some ra \<and> ra_mode ra = JS_ARENA_REQ_MODE_GC \<and>
        L (memory w') (msp ra) = (L (memory w) (msp ra))(p := None) \<and>
        blocks_kept ((L (memory w) (msp ra))(p := None)) (memory w) (memory w'))"

lemma jda_free_ok:
  assumes ms: "mspace_ok e P L" and inv: "world_inv P L w" and da: "das w d = Some da"
    and live: "p = 0 \<or> live_block L w p n"
  obtains w' where "jda_free e d p w = Inr w'" "world_inv P L w'" "frame {} (owner_part w p) w w'" "freed L p w w'"
proof (cases "p = 0 \<or> da_mode da = JS_ARENA_MODE_BASE")
  case True
  then have "jda_free e d p w = Inr w" using da by (auto simp: jda_free_def deref_da_def)
  then show thesis using that inv by (simp add: freed_def)
next
  case False
  then have lb: "live_block L w p n" using live by simp
  obtain own where own: "js_arena_ptr_request_owner (chunks w) p = Inr own" "set_option own = owner_part w p"
    "\<forall>r. own = Some r \<longrightarrow> request_live L w r p n"
    by (rule live_block_owner [OF ms inv lb])
  show thesis
  proof (cases own)
    case None
    then have "jda_free e d p w = Inr w" using da False own(1) by (simp add: jda_free_def deref_da_def)
    then show thesis using that inv by (simp add: freed_def)
  next
    case (Some r)
    then obtain ra where ra: "ras w r = Some ra" "frozen w (ra_da ra)"
      "if ra_mode ra = JS_ARENA_REQ_MODE_GC then L (memory w) (msp ra) p = Some n
       else region p n \<subseteq> spent ra \<and> load64 (memory w) (p - 16) = of_nat n"
      using own(3) unfolding request_live_def by blast
    show thesis
    proof (cases "ra_mode ra")
      case JS_ARENA_REQ_MODE_BUMP
      then have "jda_free e d p w = Inr w"
        using da False own(1) Some ra(1) by (simp add: jda_free_def deref_da_def deref_ra_def)
      then show thesis using that inv by (simp add: freed_def)
    next
      case JS_ARENA_REQ_MODE_GC
      then have n: "L (memory w) (msp ra) p = Some n" using ra(3) by simp
      have fz: "\<And>x. das w (ra_da ra) = Some x \<Longrightarrow> da_mode x = JS_ARENA_MODE_REQUEST"
        using ra(2) by (auto simp: frozen_def)
      note G = gc_free_ok [OF world_local [OF inv ra(1)] frozen_running [OF inv ra(1,2)] JS_ARENA_REQ_MODE_GC ms n]
      note W = req_result_world [OF ms inv ra(1) G(1) fz]
      define w' where "w' = (upd_ra r (\<lambda>ra. ra\<lparr>used := used ra - mspace_usable_size e (memory w) p\<rparr>) w)
                  \<lparr>memory := mspace_free e (memory w) (msp ra) p\<rparr>"
      have "jda_free e d p w = Inr w'"
        using da False own(1) Some ra(1) JS_ARENA_REQ_MODE_GC by (simp add: jda_free_def deref_da_def deref_ra_def w'_def)
      moreover have o: "owner_part w p = {r}" using own(2) Some by auto
      moreover have "freed L p w w'"
        using o ra(1) JS_ARENA_REQ_MODE_GC G(3,4) unfolding freed_def w'_def by blast
      ultimately show thesis using that W unfolding w'_def by simp
    qed
  qed
qed

section \<open>Reallocation after the freeze\<close>

text \<open>The outcome of resizing block \<open>p\<close> of \<open>old\<close> bytes to \<open>n\<close> bytes.\<close>

definition resize_step :: "ms_rep \<Rightarrow> ms_live \<Rightarrow> nat \<Rightarrow> world \<Rightarrow> JSRequestArena \<Rightarrow> ptr \<Rightarrow> nat \<Rightarrow> nat \<Rightarrow> ptr \<Rightarrow> world \<Rightarrow> JSRequestArena \<Rightarrow> bool" where
  "resize_step P L r w ra p old n q w' ra' \<longleftrightarrow>
     req_result P L r w ra w' ra' \<and>
     (q = 0 \<longrightarrow> handed L (memory w') ra' = handed L (memory w) ra \<and> (\<forall>a \<in> handed L (memory w) ra. memory w' a = memory w a)) \<and>
     (q \<noteq> 0 \<longrightarrow>
        region q n \<subseteq> handed L (memory w') ra' \<and> (q = p \<or> region q n \<inter> (handed L (memory w) ra - region p old) = {}) \<and>
        (\<forall>i < min old n. memory w' (q + of_nat i) = memory w (p + of_nat i)) \<and>
        (\<forall>a \<in> handed L (memory w) ra - region p old - region (p - 16) 8. memory w' a = memory w a))"

lemma resize_refused: "alloc_step P L r w ra n 0 w' ra' \<Longrightarrow> resize_step P L r w ra p old n 0 w' ra'"
  by (simp add: resize_step_def alloc_step_def)

lemma live_bytes_move:
  assumes "L m q p = Some n" "p' = p \<or> L m q p' = None" "L m' q = (L m q)(p := None, p' \<mapsto> k)"
  shows "live_bytes L m' q + n = live_bytes L m q + k"
proof -
  let ?D = "dom (L m q) - {p}"
  have d: "dom (L m' q) = insert p' ?D" "p' \<notin> ?D"
    using assms by (auto split: if_splits)
  have "live_bytes L m q = n + (\<Sum>x \<in> ?D. the (L m q x))"
    unfolding live_bytes_def using sum.remove [of "dom (L m q)" p "\<lambda>x. the (L m q x)"] assms(1) by (simp add: domI)
  moreover have "live_bytes L m' q = k + (\<Sum>x \<in> ?D. the (L m' q x))"
    unfolding live_bytes_def d(1) using d(2) assms(3) by simp
  moreover have "(\<Sum>x \<in> ?D. the (L m' q x)) = (\<Sum>x \<in> ?D. the (L m q x))"
    using d(2) assms(3) by (intro sum.cong) auto
  ultimately show ?thesis by simp
qed

lemma block_handed:
  assumes "ra_mode ra = JS_ARENA_REQ_MODE_GC" "L m (msp ra) x = Some k"
  shows "region x k \<subseteq> handed L m ra"
proof
  fix a assume "a \<in> region x k"
  then show "a \<in> handed L m ra" unfolding handed_gc [OF assms(1)] using assms(2) by blast
qed

lemma gc_resize_ok:
  assumes ok: "local_ok w r ra" "running P L (memory w) ra" "ra_mode ra = JS_ARENA_REQ_MODE_GC" "das w (ra_da ra) \<noteq> None"
    and env: "pages_ok e" "mspace_ok e P L" and live: "L (memory w) (msp ra) p = Some old"
  obtains q w' ra' where
    "res_bind (ms_run e (mspace_realloc e (memory w) (msp ra) p sz) (w\<lparr>morecore_ra := Some r\<rparr>)) (\<lambda>(q, w2).
       if q = 0 then res_bind (note_oom r sz w2) (\<lambda>w3. Inr (0, w3))
       else Inr (q, upd_ra r (\<lambda>ra. ra\<lparr>used := used ra + (mspace_usable_size e (memory w2) q - of_nat old)\<rparr>) w2)) = Inr (q, w')"
    "resize_step P L r w ra p old (unat sz) q w' ra'"
proof -
  let ?q = "msp ra" and ?m = "memory w" and ?n = "unat sz"
  have p: "P ?m ?q (gc_space ra)" "used ra = of_nat (live_bytes L ?m ?q)" using ok(2,3) by (simp_all add: running_def)
  note act = mspace_calls(3) [OF env(2) p(1) live, of sz "the_brk ra"]
  obtain x w1 ra1 where R: "ms_run e (mspace_realloc e ?m ?q p sz) (w\<lparr>morecore_ra := Some r\<rparr>) = Inr (x, w1)" "local_ok w1 r ra1" "touch r w w1"
    "ra_same ra ra1" "P (memory w1) (msp ra1) (gc_space ra1)" "ms_resized L ?m ?q p old ?n x (memory w1)"
    by (rule gc_call [where P = P, OF ok(1) env(1) act])
  let ?m1 = "memory w1"
  note k0 = ra_same_keep [OF ok(1) R(4)]
  show thesis
  proof (cases "x = 0")
    case True
    then have l: "L ?m1 ?q = L ?m ?q" "blocks_kept (L ?m ?q) ?m ?m1" using R(6) by (simp_all add: ms_resized_def)
    obtain w2 ra2 where N: "note_oom r sz w1 = Inr w2" "alloc_step P L r w ra ?n 0 w2 ra2"
      by (rule gc_refused [where P = P, OF ok R(2-5) l])
    then show thesis using that [OF _ resize_refused [OF N(2)]] R(1) True by simp
  next
    case False
    then obtain k where k: "?n \<le> k" "x = p \<or> L ?m ?q x = None" "L ?m1 ?q = (L ?m ?q)(p := None, x \<mapsto> k)"
      "blocks_kept ((L ?m ?q)(p := None)) ?m ?m1" "\<forall>i < min old ?n. ?m1 (x + of_nat i) = ?m (p + of_nat i)"
      using R(6) by (auto simp: ms_resized_def)
    have p1: "P ?m1 ?q (gc_space ra1)" "L ?m1 ?q x = Some k" using R(5) k0(4) k(3) by simp_all
    let ?g = "\<lambda>ra. used ra + (mspace_usable_size e ?m1 x - of_nat old)"
    let ?w2 = "upd_ra r (\<lambda>ra. ra\<lparr>used := ?g ra\<rparr>) w1" and ?ra2 = "ra1\<lparr>used := ?g ra1\<rparr>"
    note U = upd_used [OF R(2), of ?g]
    have "live_bytes L ?m1 ?q + old = live_bytes L ?m ?q + k" by (rule live_bytes_move [where L = L, OF live k(2,3)])
    then have "(of_nat (live_bytes L ?m1 ?q) :: u64) + of_nat old = of_nat (live_bytes L ?m ?q) + of_nat k"
      by (metis of_nat_add)
    then have "?g ra1 = of_nat (live_bytes L ?m1 ?q)"
      using mspace_block(4) [OF env(2) p1] p(2) k0(6) by (simp add: algebra_simps)
    then have "running P L ?m1 ?ra2" using p1(1) k0 ok(3) by (simp add: running_def)
    then have res: "req_result P L r w ra ?w2 ?ra2"
      using U touch_trans [OF R(3) U(2)] k0 by (simp add: req_result_def)
    have "region x k \<subseteq> handed L ?m1 ?ra2"
      using p1(2) k0 ok(3) by (intro block_handed) simp_all
    then have sub: "region x ?n \<subseteq> handed L ?m1 ?ra2" using region_mono [OF k(1), of x] by blast
    have "y \<noteq> x \<and> L ?m1 ?q y = Some j" if "L ?m ?q y = Some j" "y \<noteq> p" for y j using that k(2,3) by auto
    then have "region x k \<inter> region y j = {}" if "L ?m ?q y = Some j" "y \<noteq> p" for y j
      using new_block_apart [where P = P and L = L and m = ?m, OF env(2) p1, of p y j] that by blast
    then have "region x k \<inter> (handed L ?m ra - region p old) = {}"
      using live by (fastforce simp: handed_gc [OF ok(3)])
    then have ap: "region x ?n \<inter> (handed L ?m ra - region p old) = {}" using region_mono [OF k(1), of x] by blast
    have "?m1 a = ?m a" if "a \<in> handed L ?m ra - region p old" for a
    proof -
      obtain y j where y: "L ?m ?q y = Some j" "a \<in> region y j" using \<open>a \<in> _\<close> by (auto simp: handed_gc [OF ok(3)])
      then have "y \<noteq> p" using that live by auto
      then have "((L ?m ?q)(p := None)) y = Some j" using y(1) by simp
      then show ?thesis using k(4) y(2) unfolding blocks_kept_def by blast
    qed
    then have "resize_step P L r w ra p old ?n x ?w2 ?ra2"
      using res sub ap k(5) False by (simp add: resize_step_def)
    then show thesis using that [of x ?w2 ?ra2] R(1) False by simp
  qed
qed

text \<open>A block of another arena, which a call on behalf of request \<open>r\<close> cannot change.\<close>

definition elsewhere :: "world \<Rightarrow> nat \<Rightarrow> ptr set" where
  "elsewhere w r = (\<Union>d. covers (lay w (OBase d))) \<union> (\<Union>r' \<in> - {r}. covers (lay w (OReq r')))"

lemma touch_elsewhere:
  assumes "touch r w w'" "a \<in> elsewhere w r"
  shows "memory w' a = memory w a"
  using assms(2) touchD(7,8) [OF assms(1)] unfolding elsewhere_def by auto

lemma gc_copy_ok:
  assumes ok: "local_ok w r ra" "running P L (memory w) ra" "ra_mode ra = JS_ARENA_REQ_MODE_GC" "das w (ra_da ra) \<noteq> None"
    and env: "pages_ok e" "mspace_ok e P L" and sz: "unat sz < 2 ^ 63" and old: "old < 2 ^ 63" "region p old \<subseteq> elsewhere w r"
  obtains q w' ra' where
    "res_bind (ms_run e (mspace_malloc e (memory w) (msp ra) sz) (w\<lparr>morecore_ra := Some r\<rparr>)) (\<lambda>(q, w2).
       if q = 0 then res_bind (note_oom r sz w2) (\<lambda>w3. Inr (0, w3))
       else
         let m = memcpy (memory w2) q p (unat (if sz < of_nat old then sz else of_nat old))
         in Inr (q, (upd_ra r (\<lambda>ra. ra\<lparr>used := used ra + mspace_usable_size e m q\<rparr>) w2)\<lparr>memory := m\<rparr>)) = Inr (q, w')"
    "resize_step P L r w ra p old (unat sz) q w' ra'"
proof -
  let ?q = "msp ra" and ?m = "memory w" and ?n = "unat sz"
  have p: "P ?m ?q (gc_space ra)" "used ra = of_nat (live_bytes L ?m ?q)" using ok(2,3) by (simp_all add: running_def)
  note act = mspace_calls(1) [OF env(2) p(1), of sz "the_brk ra"]
  obtain x w1 ra1 where R: "ms_run e (mspace_malloc e ?m ?q sz) (w\<lparr>morecore_ra := Some r\<rparr>) = Inr (x, w1)" "local_ok w1 r ra1" "touch r w w1"
    "ra_same ra ra1" "P (memory w1) (msp ra1) (gc_space ra1)" "ms_allocated L ?m ?q ?n x (memory w1)"
    by (rule gc_call [where P = P, OF ok(1) env(1) act])
  let ?m1 = "memory w1"
  note k0 = ra_same_keep [OF ok(1) R(4)]
  have kept: "blocks_kept (L ?m ?q) ?m ?m1" using R(6) by (simp add: ms_allocated_def)
  show thesis
  proof (cases "x = 0")
    case True
    then have l: "L ?m1 ?q = L ?m ?q" using R(6) by (simp add: ms_allocated_def)
    obtain w2 ra2 where N: "note_oom r sz w1 = Inr w2" "alloc_step P L r w ra ?n 0 w2 ra2"
      by (rule gc_refused [where P = P, OF ok R(2-5) l kept])
    then show thesis using that [OF _ resize_refused [OF N(2)]] R(1) True by simp
  next
    case False
    then obtain k where k: "?n \<le> k" "L ?m ?q x = None" "L ?m1 ?q = (L ?m ?q)(x \<mapsto> k)"
      using R(6) by (auto simp: ms_allocated_def)
    define c where "c = unat (if sz < of_nat old then sz else of_nat old)"
    have c: "c = min old ?n" using old(1) by (simp add: c_def u64_less_iff unat_of_nat_u64 min_def)
    define m2 where "m2 = memcpy ?m1 x p c"
    have p1: "P ?m1 ?q (gc_space ra1)" "L ?m1 ?q x = Some k" using R(5) k0(4) k(3) by simp_all
    have "region x c \<subseteq> region x k" using c k(1) by (intro region_mono) simp
    then have out: "m2 a = ?m1 a" if "a \<notin> region x k" for a
      unfolding m2_def using that by (intro memcpy_outside) blast
    note M = mspace_payload [where P = P and L = L, OF env(2) p1 out]
    have l2: "L m2 ?q x = Some k" using M(2) p1(2) by simp
    let ?f = "\<lambda>ra. ra\<lparr>used := used ra + mspace_usable_size e m2 x\<rparr>"
    define w2 where "w2 = (upd_ra r ?f w1)\<lparr>memory := m2\<rparr>"
    have "region x k \<subseteq> covers (lay w1 (OReq r))"
      using mspace_block(2) [OF env(2) p1] gc_space_sub [of ra1] local_okD(2) [OF R(2)] by (auto simp: lay.simps)
    then have "m2 a = ?m1 a" if "a \<notin> covers (lay w1 (OReq r))" for a using that by (intro out) blast
    moreover have ra2: "ra_ok (?f ra1)" "prov (?f ra1) = prov ra1" "ra_list (?f ra1) = ra_list ra1"
      using local_okD(4) [OF R(2)] by simp_all
    ultimately have U: "local_ok w2 r (?f ra1)" "touch r w1 w2"
      using local_updI [OF R(2) ra2 _ w2_def refl] by blast+
    have "used (?f ra1) = of_nat (live_bytes L m2 ?q)"
      using mspace_block(4) [OF env(2) M(1) l2] live_bytes_add [of L ?m ?q x m2 k, OF k(2)] M(2) k(3) p(2) k0(6) by simp
    then have "running P L m2 (?f ra1)" using M(1) k0 ok(3) by (simp add: running_def)
    then have res: "req_result P L r w ra w2 (?f ra1)"
      using U touch_trans [OF R(3) U(2)] k0 by (simp add: req_result_def w2_def)
    have h: "handed L m2 (?f ra1) = handed L ?m ra \<union> region x k"
      using blocks_space_add [of "L ?m ?q", OF k(2)] k(3) M(2) k0 ok(3) by (simp add: handed_blocks)
    then have sub: "region x ?n \<subseteq> handed L m2 (?f ra1)" using region_mono [OF k(1), of x] by blast
    have "y \<noteq> x \<and> L ?m1 ?q y = Some j" if "L ?m ?q y = Some j" for y j using that k(2,3) by auto
    then have "region x k \<inter> region y j = {}" if "L ?m ?q y = Some j" for y j
      using new_block_apart [where P = P and L = L and m = ?m, OF env(2) p1, of x y j] that k(2) by auto
    then have ap: "region x k \<inter> handed L ?m ra = {}" by (fastforce simp: handed_gc [OF ok(3)])
    have keep: "m2 a = ?m a" if "a \<in> handed L ?m ra" for a
    proof -
      have "m2 a = ?m1 a" using that ap by (intro out) blast
      then show ?thesis using kept that by (auto simp: handed_gc [OF ok(3)] blocks_kept_def)
    qed
    have "m2 (x + of_nat i) = ?m (p + of_nat i)" if "i < min old ?n" for i
    proof -
      have "m2 (x + of_nat i) = ?m1 (p + of_nat i)" unfolding m2_def using that c sz by (intro memcpy_bytes) simp_all
      moreover have "p + of_nat i \<in> region p old" using that old(1) by (simp add: region_def unat_of_nat_u64)
      ultimately show ?thesis using touch_elsewhere [OF R(3)] old(2) by auto
    qed
    then have "resize_step P L r w ra p old ?n x w2 (?f ra1)"
      using res sub ap keep False region_mono [OF k(1), of x] unfolding resize_step_def w2_def by auto
    moreover have "memcpy (memory w1) x p (unat (if sz < of_nat old then sz else of_nat old)) = m2"
      by (simp only: m2_def c_def)
    ultimately show thesis using that [of x w2 "?f ra1"] R(1) False by (simp add: Let_def w2_def)
  qed
qed

lemma bump_resize_ok:
  assumes ok: "local_ok w r ra" "running P L (memory w) ra" "ra_mode ra = JS_ARENA_REQ_MODE_BUMP" "das w (ra_da ra) \<noteq> None"
    and env: "pages_ok e" and sz: "unat sz < 2 ^ 63" and p: "p \<noteq> 0" and old: "old < 2 ^ 63" "region p old \<subseteq> readable w r ra"
  obtains q w' ra' where
    "res_bind (req_bump_realloc e r p sz (of_nat old) w) (\<lambda>(q, w1).
       if q \<noteq> 0 then Inr (q, w1) else res_bind (note_oom r sz w1) (\<lambda>w2. Inr (0, w2))) = Inr (q, w')"
    "resize_step P L r w ra p old (unat sz) q w' ra'"
proof -
  have b: "bump_ok ra" using ok(2,3) by (simp add: bump_running)
  obtain q w1 ra1 where A: "req_bump_realloc e r p sz (of_nat old) w = Inr (q, w1)" "realloc_step r p (of_nat old) sz w ra q w1 ra1"
    by (rule req_bump_realloc_ok [OF ok(1) b env sz p])
  note S = A(2) [unfolded realloc_step_def]
  have o: "unat (of_nat old :: u64) = old" using old(1) by (simp add: unat_of_nat_u64)
  have md: "ra_mode ra1 = JS_ARENA_REQ_MODE_BUMP" "ra_da ra1 = ra_da ra" using S ok(3) by (simp_all add: local_step_def ra_same_def)
  have run1: "running P L (memory w1) ra1" using S md by (simp add: bump_running)
  have r1: "req_result P L r w ra w1 ra1" using S by (intro local_step_result [OF ok(1) _ run1]) simp
  have l1: "local_ok w1 r ra1" using r1 by (simp add: req_result_def)
  show thesis
  proof (cases "q = 0")
    case True
    have "das w1 (ra_da ra1) \<noteq> None" using ok(4) touch_das_None [of r w w1] r1 md(2) by (simp add: req_result_def)
    then obtain w2 ra2 where N: "note_oom r sz w1 = Inr w2" "req_result P L r w1 ra1 w2 ra2" "memory w2 = memory w1" "ra2 = ra1\<lparr>oom := oom ra2\<rparr>"
      by (rule note_oom_result [OF l1 _ run1])
    have "req_result P L r w ra w2 ra2" using r1 N(2) req_result_trans by blast
    moreover have "ra1 = ra" using S True by simp
    ultimately have "resize_step P L r w ra p old (unat sz) 0 w2 ra2"
      using S N(3) md ok(3) oom_only [OF N(4)] True by (simp add: resize_step_def bump_handed)
    then show thesis using that [of 0 w2 ra2] A(1) N(1) True by simp
  next
    case False
    then have "resize_step P L r w ra p old (unat sz) q w1 ra1"
      using S r1 md ok(3) old(2) unfolding o by (auto simp: resize_step_def bump_handed)
    then show thesis using that [of q w1 ra1] A(1) False by simp
  qed
qed

section \<open>Reallocation\<close>

text \<open>The outcome of resizing a block of \<open>old\<close> bytes to \<open>n\<close> bytes in dual arena \<open>d\<close>.\<close>

definition realloc_outcome :: "ms_live \<Rightarrow> nat \<Rightarrow> world \<Rightarrow> ptr \<Rightarrow> nat \<Rightarrow> nat \<Rightarrow> ptr \<Rightarrow> world \<Rightarrow> bool" where
  "realloc_outcome L d w p old n q w' \<longleftrightarrow>
     (q = 0 \<longrightarrow> client_space L w' d = client_space L w d \<and> (\<forall>a \<in> client_space L w d. memory w' a = memory w a)) \<and>
     (q \<noteq> 0 \<longrightarrow>
        region q n \<subseteq> client_space L w' d \<and> (q = p \<or> region q n \<inter> (client_space L w d - region p old) = {}) \<and>
        (\<forall>i < min old n. memory w' (q + of_nat i) = memory w (p + of_nat i)) \<and>
        (\<forall>a \<in> client_space L w d - region p old - region (p - 16) 8. memory w' a = memory w a))"

lemma realloc_outcome_null [simp]: "realloc_outcome L d w p old n 0 w"
  by (simp add: realloc_outcome_def)

lemma alloc_realloc_outcome: "alloc_outcome L d w n q w' \<Longrightarrow> realloc_outcome L d w p 0 n q w'"
  unfolding alloc_outcome_def realloc_outcome_def by auto

lemma resize_step_outcome:
  assumes "resize_step P L r w ra p old n q w' ra'"
    and "client_space L w d = handed L (memory w) ra" "client_space L w' d = handed L (memory w') ra'"
  shows "realloc_outcome L d w p old n q w'"
  using assms unfolding resize_step_def realloc_outcome_def by auto

lemma base_realloc_outcome:
  assumes bs: "arena_inv m a" "arena_blocks m a = Some bs" "(p, s) \<in> set bs" "moved m a bs p s sz (m', a', q)" "sz \<noteq> 0" "q \<noteq> 0"
    and C: "C = (\<Union>(p, s) \<in> set bs. region p (unat s))"
  obtains bs' where "arena_blocks m' a' = Some bs'" "(q, sz) \<in> set bs'" "q = p \<or> region q (unat sz) \<inter> C = {}"
    "\<And>x. x \<in> C \<Longrightarrow> x \<notin> region p (unat s) \<Longrightarrow> m' x = m x"
proof -
  define bs' where "bs' = (if q = p then butlast bs @ [(p, sz)] else bs @ [(q, sz)])"
  have M: "arena_inv m' a'" "arena_blocks m' a' = Some bs'"
    "\<And>r t x. (r, t) \<in> set bs \<Longrightarrow> r \<noteq> q \<Longrightarrow> x \<in> region r (unat t) \<Longrightarrow> m' x = m x"
    using bs(4,6) by (auto simp: moved_def bs'_def)
  have ap: "region q (unat sz) \<inter> region r (unat t) = {}" if "(r, t) \<in> set bs" "q \<noteq> p" for r t
  proof -
    obtain i where i: "i < length bs" "bs ! i = (r, t)" using \<open>(r, t) \<in> set bs\<close> by (auto simp: in_set_conv_nth)
    then show ?thesis
      using blocks_disjoint [OF M(1,2), of "length bs" i] \<open>q \<noteq> p\<close> by (simp add: bs'_def nth_append)
  qed
  have "m' x = m x" if "x \<in> C" "x \<notin> region p (unat s)" for x
  proof -
    obtain r t where r: "(r, t) \<in> set bs" "x \<in> region r (unat t)" using \<open>x \<in> C\<close> unfolding C by auto
    have "r \<noteq> q"
    proof
      assume e: "r = q"
      show False
      proof (cases "q = p")
        case True
        then show False using arena_blocks_inj [OF bs(1,2), of p s t] bs(3) r e that(2) by simp
      next
        case False
        have "q \<in> region q (unat sz)" "q \<in> region q (unat t)"
          using bs(5) arena_blocks_at(5) [OF bs(1,2) r(1)] by (simp_all add: region_def unat_gt_0)
        then show False using ap [OF r(1) False] e by auto
      qed
    qed
    then show ?thesis using M(3) r by blast
  qed
  moreover have "(q, sz) \<in> set bs'" by (simp add: bs'_def)
  moreover have "q = p \<or> region q (unat sz) \<inter> C = {}" using ap unfolding C by fastforce
  ultimately show thesis using that M(2) by blast
qed

lemma base_realloc_ok:
  assumes env: "pages_ok e" "mspace_ok e P L" and inv: "world_inv P L w" and da: "das w d = Some da" "da_mode da = JS_ARENA_MODE_BASE"
    and sz: "unat sz < 2 ^ 63" and p: "p = 0 \<and> old = 0 \<or> base_live w d p old"
  obtains q w' where "jda_realloc e d p sz w = Inr (q, w')" "world_inv P L w'" "frame {d} {} w w'"
    "realloc_outcome L d w p old (unat sz) q w'"
proof -
  let ?a = "base da" and ?m = "memory w"
  obtain m a q where run: "arena_realloc ?m ?a p sz = (m, a, q)" by (cases "arena_realloc ?m ?a p sz")
  define w' where "w' = (upd_da d (\<lambda>da. da\<lparr>base := a\<rparr>) w)\<lparr>memory := m\<rparr>"
  have R: "jda_realloc e d p sz w = Inr (q, w')" using da run by (simp add: jda_realloc_def deref_da_def w'_def)
  have ai: "arena_inv ?m ?a" by (rule dual_okD(5) [OF world_invD(3) [OF inv da(1)]])
  show thesis
  proof (cases "p = 0")
    case True
    then have "arena_alloc ?m ?a sz = (m, a, q)" using run by (simp add: arena_realloc_def)
    then have "base_alloc d da sz w = (q, w')" by (simp add: base_alloc_def w'_def)
    then have "world_inv P L w'" "frame {d} {} w w'" "alloc_outcome L d w (unat sz) q w'"
      using base_alloc_ok [OF env(2) inv da sz] by (metis prod.inject)+
    moreover have "old = 0" using True p base_live_in(4) [OF inv] by blast
    ultimately show thesis using that [OF R] alloc_realloc_outcome by blast
  next
    case False
    then obtain bs s where B: "arena_blocks ?m ?a = Some bs" "(p, s) \<in> set bs" "old = unat s"
      using p da(1) by (auto simp: base_live_def)
    show thesis
    proof (cases "sz = 0")
      case True
      then have "m = ?m" "a = ?a" "q = 0" using run False by (simp_all add: arena_realloc_def)
      then have "w' = w" "q = 0" using da(1) by (simp_all add: w'_def upd_da_def fun_upd_idem)
      then show thesis using that [OF R] inv by simp
    next
      case nz: False
      have mv: "moved ?m ?a bs p s sz (m, a, q)" using arena_realloc_moved [OF ai B(1,2) False sz nz] run by simp
      note F = arena_realloc_frame [OF ai B(1,2) sz nz run] and K = arena_realloc_buf [OF run]
      have ai': "arena_inv m a" using mv by (simp add: moved_def)
      have inv': "world_inv P L w'" by (rule world_base_step [OF env(2) inv da(1) ai' K F w'_def])
      have fr: "frame {d} {} w w'" by (rule frame_base_step [OF da(1) world_invD(4) [OF inv] F w'_def])
      note C = client_space_base [OF da B(1), of L]
      have da': "das w' d = Some (da\<lparr>base := a\<rparr>)" using da(1) by (simp add: w'_def)
      have "realloc_outcome L d w p old (unat sz) q w'"
      proof (cases "q = 0")
        case True
        then have "m = ?m" "a = ?a" using mv by (simp_all add: moved_def)
        then have "w' = w" using da(1) by (simp add: w'_def upd_da_def fun_upd_idem)
        then show ?thesis using True by simp
      next
        case q: False
        obtain bs' where b: "arena_blocks m a = Some bs'" "(q, sz) \<in> set bs'" "q = p \<or> region q (unat sz) \<inter> client_space L w d = {}"
          "\<And>x. x \<in> client_space L w d \<Longrightarrow> x \<notin> region p (unat s) \<Longrightarrow> m x = ?m x"
          by (rule base_realloc_outcome [OF ai B(1,2) mv nz q C]) blast
        have "region q (unat sz) \<subseteq> client_space L w' d"
          using client_space_base [OF da', of bs' L] da(2) b(1,2) by (auto simp: w'_def)
        moreover have "\<forall>i < min (unat s) (unat sz). m (q + of_nat i) = ?m (p + of_nat i)" using mv q by (simp add: moved_def)
        moreover have "memory w' = m" by (simp add: w'_def)
        ultimately show ?thesis using b(3,4) q unfolding realloc_outcome_def B(3) by auto
      qed
      then show thesis using that [OF R inv' fr] by blast
    qed
  qed
qed

lemma live_block_places:
  assumes ms: "mspace_ok e P L" and inv: "world_inv P L w" and b: "live_block L w p n"
  shows "owner_part w p = {} \<Longrightarrow> region p n \<subseteq> elsewhere w r"
    "owner_part w p = {r'} \<Longrightarrow> r' \<noteq> r \<Longrightarrow> region p n \<subseteq> elsewhere w r"
    "owner_part w p = {r} \<Longrightarrow> request_live L w r p n"
proof -
  obtain own where own: "set_option own = owner_part w p"
    "own = None \<longrightarrow> (\<exists>d. base_live w d p n)" "\<forall>r. own = Some r \<longrightarrow> request_live L w r p n"
    by (rule live_block_owner [OF ms inv b])
  show "region p n \<subseteq> elsewhere w r" if "owner_part w p = {}"
  proof -
    have "own = None" using own(1) that by simp
    then obtain d where d: "base_live w d p n" using own(2) by blast
    show ?thesis using base_live_in(1) [OF inv d] unfolding elsewhere_def by blast
  qed
  show "region p n \<subseteq> elsewhere w r" if "owner_part w p = {r'}" "r' \<noteq> r"
  proof -
    have "own = Some r'" using own(1) that(1) by (cases own) auto
    then have r': "request_live L w r' p n" using own(3) by blast
    show ?thesis using request_live_in(1) [OF ms inv r'] that(2) unfolding elsewhere_def by blast
  qed
  show "request_live L w r p n" if "owner_part w p = {r}"
  proof -
    have "own = Some r" using own(1) that by (cases own) auto
    then show ?thesis using own(3) by blast
  qed
qed

lemma elsewhere_readable: "elsewhere w r \<subseteq> readable w r ra"
  by (auto simp: elsewhere_def readable_def)

lemma request_realloc_ok:
  assumes env: "pages_ok e" "mspace_ok e P L" and inv: "world_inv P L w" and da: "das w d = Some da" "da_mode da = JS_ARENA_MODE_REQUEST"
    and cur: "da_cur da = Some r"
    and ra: "ras w r = Some ra" "ra_da ra = d" "local_ok w r ra" "running P L (memory w) ra" "das w (ra_da ra) \<noteq> None"
    and sz: "unat sz < 2 ^ 63" "sz \<noteq> 0" and p: "live_block L w p old"
  obtains q w' ra' where "jda_realloc e d p sz w = Inr (q, w')" "resize_step P L r w ra p old (unat sz) q w' ra'"
proof -
  obtain own where own: "js_arena_ptr_request_owner (chunks w) p = Inr own" "set_option own = owner_part w p"
    "req_ptr_size e w own p = Inr (of_nat old)" "old < 2 ^ 63" "p \<noteq> 0"
    by (rule live_block_owner [OF env(2) inv p])
  note B = live_block_places [OF env(2) inv p]
  have far: "region p old \<subseteq> elsewhere w r" if "own \<noteq> Some r"
  proof (cases own)
    case None
    then have "owner_part w p = {}" using own(2) by simp
    then show ?thesis by (rule B(1))
  next
    case (Some r')
    then have "owner_part w p = {r'}" "r' \<noteq> r" using own(2) that by auto
    then show ?thesis by (rule B(2))
  qed
  have near: "request_live L w r p old" if "own = Some r" using own(2) that by (intro B(3)) auto
  note simps = jda_realloc_def deref_da_def deref_ra_def da cur ra(1) own(1,3,5) sz(2) Let_def
  show thesis
  proof (cases "ra_mode ra")
    case JS_ARENA_REQ_MODE_BUMP
    have "region p old \<subseteq> readable w r ra"
    proof (cases "own = Some r")
      case True
      then show ?thesis using near ra(1) JS_ARENA_REQ_MODE_BUMP by (auto simp: request_live_def readable_def)
    next
      case False
      then show ?thesis using far elsewhere_readable by blast
    qed
    note X = bump_resize_ok [OF ra(3,4) JS_ARENA_REQ_MODE_BUMP ra(5) env(1) sz(1) own(5,4) this]
    have run: "jda_realloc e d p sz w = res_bind (req_bump_realloc e r p sz (of_nat old) w) (\<lambda>(q, w1).
       if q \<noteq> 0 then Inr (q, w1) else res_bind (note_oom r sz w1) (\<lambda>w2. Inr (0, w2)))"
      using JS_ARENA_REQ_MODE_BUMP by (simp add: simps)
    show thesis by (rule X, rule that [OF trans [OF run]])
  next
    case JS_ARENA_REQ_MODE_GC
    show thesis
    proof (cases "own = Some r")
      case True
      then have "L (memory w) (msp ra) p = Some old"
        using near ra(1) JS_ARENA_REQ_MODE_GC by (simp add: request_live_def)
      note X = gc_resize_ok [OF ra(3,4) JS_ARENA_REQ_MODE_GC ra(5) env this, of sz]
      have run: "jda_realloc e d p sz w =
        res_bind (ms_run e (mspace_realloc e (memory w) (msp ra) p sz) (w\<lparr>morecore_ra := Some r\<rparr>)) (\<lambda>(q, w2).
         if q = 0 then res_bind (note_oom r sz w2) (\<lambda>w3. Inr (0, w3))
         else Inr (q, upd_ra r (\<lambda>ra. ra\<lparr>used := used ra + (mspace_usable_size e (memory w2) q - of_nat old)\<rparr>) w2))"
        using JS_ARENA_REQ_MODE_GC True own(3) by (simp add: simps)
      show thesis by (rule X, rule that [OF trans [OF run]])
    next
      case False
      note X = gc_copy_ok [OF ra(3,4) JS_ARENA_REQ_MODE_GC ra(5) env sz(1) own(4) far [OF False]]
      have run: "jda_realloc e d p sz w =
        res_bind (ms_run e (mspace_malloc e (memory w) (msp ra) sz) (w\<lparr>morecore_ra := Some r\<rparr>)) (\<lambda>(q, w2).
         if q = 0 then res_bind (note_oom r sz w2) (\<lambda>w3. Inr (0, w3))
         else
           let m = memcpy (memory w2) q p (unat (if sz < of_nat old then sz else of_nat old))
           in Inr (q, (upd_ra r (\<lambda>ra. ra\<lparr>used := used ra + mspace_usable_size e m q\<rparr>) w2)\<lparr>memory := m\<rparr>))"
        using JS_ARENA_REQ_MODE_GC False by (simp add: simps)
      show thesis by (rule X, rule that [OF trans [OF run]])
    qed
  qed
qed

definition resizable :: "ms_live \<Rightarrow> world \<Rightarrow> nat \<Rightarrow> ptr \<Rightarrow> nat \<Rightarrow> bool" where
  "resizable L w d p old \<longleftrightarrow> p = 0 \<and> old = 0 \<or> base_live w d p old \<or> frozen w d \<and> live_block L w p old"

lemma jda_realloc_ok:
  assumes env: "pages_ok e" "mspace_ok e P L" and inv: "world_inv P L w" and da: "das w d = Some da"
    and sz: "unat sz < 2 ^ 63" and p: "resizable L w d p old"
  obtains q w' where "jda_realloc e d p sz w = Inr (q, w')" "world_inv P L w'" "frame (base_part d da) (request_part da) w w'"
    "realloc_outcome L d w p old (unat sz) q w'"
proof (cases "da_mode da = JS_ARENA_MODE_BASE")
  case True
  then have "p = 0 \<and> old = 0 \<or> base_live w d p old" using p da by (auto simp: resizable_def frozen_def)
  from base_realloc_ok [OF env inv da True sz this] show thesis
    using that True by (auto simp: base_part_def request_part_def)
next
  case False
  then have md: "da_mode da = JS_ARENA_MODE_REQUEST" by simp
  show thesis
  proof (cases "p = 0")
    case True
    then have "jda_realloc e d p sz w = jda_malloc e d sz w" using da md by (simp add: jda_realloc_def deref_da_def)
    moreover have "\<not> live_block L w 0 old"
      using live_block_owner [OF env(2) inv, of 0 old] by blast
    then have "old = 0" using True p by (auto simp: resizable_def live_block_def)
    moreover obtain q w' where M: "jda_malloc e d sz w = Inr (q, w')" "world_inv P L w'"
      "frame (base_part d da) (request_part da) w w'" "alloc_outcome L d w (unat sz) q w'"
      by (rule jda_malloc_ok [OF env inv da sz])
    ultimately show thesis using that [OF _ M(2,3)] alloc_realloc_outcome [OF M(4)] M(1) by simp
  next
    case p0: False
    then have lb: "live_block L w p old" using p by (auto simp: resizable_def live_block_def)
    show thesis
    proof (cases "sz = 0 \<or> da_cur da = None")
      case True
      then have "jda_realloc e d p sz w = Inr (0, w)" using da md p0 by (auto simp: jda_realloc_def deref_da_def)
      then show thesis using that inv by simp
    next
      case nz: False
      then obtain r where r: "da_cur da = Some r" by blast
      obtain ra where ra: "ras w r = Some ra" "ra_da ra = d" "local_ok w r ra" "running P L (memory w) ra" "das w (ra_da ra) \<noteq> None"
        by (rule frozen_selected [OF inv da md r])
      obtain q w' ra' where R: "jda_realloc e d p sz w = Inr (q, w')" "resize_step P L r w ra p old (unat sz) q w' ra'"
        using request_realloc_ok [OF env inv da md r ra sz _ lb] nz by blast
      have "req_result P L r w ra w' ra'" using R(2) by (simp add: resize_step_def)
      note O = request_outcome [OF env(2) inv da md r ra(1,2) this]
      show thesis by (rule that [OF R(1) O(1,2) resize_step_outcome [OF R(2) O(3,4)]])
    qed
  qed
qed

end
