(* ===== verification/Bits.thy ===== *)
theory Bits
  imports Prelude
begin

text \<open>
  Machine words read as numbers: masks are remainders, shifts are divisions and products, and \<open>OR\<close> of
  words without a common bit is a sum. The collection \<open>bit_arith\<close> turns the bit manipulation of the
  codecs, the hash functions and the multi-precision arithmetic into linear arithmetic.
\<close>

named_theorems bit_arith

lemma unat_take_bit: "unat (take_bit k (x :: 'a::len word)) = unat x mod 2 ^ k"
  by (subst unsigned_take_bit_eq) (simp add: take_bit_eq_mod)

lemma unat_and_mask: "m = 2 ^ k - 1 \<Longrightarrow> unat (x AND m) = unat (x :: 'a::len word) mod 2 ^ k"
  by (simp add: mask_eq_exp_minus_1 [symmetric] take_bit_eq_mask [symmetric] unat_take_bit)

lemma unat_shift_right [bit_arith]: "unat (drop_bit k (x :: 'a::len word)) = unat x div 2 ^ k"
  by (subst unat_drop_bit_eq) (simp add: drop_bit_eq_div)

lemma unat_shift_left: "unat x * 2 ^ k < 2 ^ LENGTH('a) \<Longrightarrow> unat (push_bit k (x :: 'a::len word)) = unat x * 2 ^ k"
  by (subst unsigned_push_bit_eq) (simp add: take_bit_eq_mod push_bit_eq_mult)

lemma or_eq_add: "x AND t = 0 \<Longrightarrow> x OR t = (x + t :: 'a::len word)"
  by (simp add: disjunctive_add_eq_or)

lemma and_high_low: "unat x < 2 ^ k \<Longrightarrow> take_bit k t = 0 \<Longrightarrow> x AND t = (0 :: 'a::len word)"
proof (rule bit_word_eqI)
  fix n assume a: "unat x < 2 ^ k" "take_bit k t = 0" "n < LENGTH('a)"
  have "take_bit k x = x" using a(1) by (intro word_unat_eq_iff [THEN iffD2]) (simp add: unat_take_bit)
  then have "bit x n \<Longrightarrow> n < k" using bit_take_bit_iff [of k x n] by simp
  moreover have "n < k \<Longrightarrow> \<not> bit t n" using a(2) bit_take_bit_iff [of k t n] by simp
  ultimately show "bit (x AND t) n = bit 0 n" by (auto simp: bit_and_iff)
qed

lemma unat_or_tag:
  assumes "unat x < 2 ^ k" "take_bit k t = 0" "unat x + unat t < 2 ^ LENGTH('a)"
  shows "unat (x OR t) = unat x + unat (t :: 'a::len word)"
  using or_eq_add [OF and_high_low [OF assms(1,2)]] assms(3) by (simp add: unat_word_ariths)

lemma unat_ucast_fit: "unat x < 2 ^ LENGTH('b) \<Longrightarrow> unat (ucast (x :: 'a::len word) :: 'b::len word) = unat x"
  by (subst unsigned_ucast_eq) (simp add: take_bit_eq_mod)

lemma unat_sub_fit: "unat b \<le> unat a \<Longrightarrow> unat (a - b) = unat a - unat (b :: 'a::len word)"
  by (subst unat_sub) (simp_all add: word_le_nat_alt)

lemma unat_add_fit: "unat a + unat b < 2 ^ LENGTH('a) \<Longrightarrow> unat (a + b) = unat a + unat (b :: 'a::len word)"
  by (simp add: unat_word_ariths)

lemma unat_mult_fit: "unat a * unat b < 2 ^ LENGTH('a) \<Longrightarrow> unat (a * b) = unat a * unat (b :: 'a::len word)"
  by (simp add: unat_word_ariths)

lemma unat_u8_less: "unat (b :: u8) < 256"
  using unsigned_less [of b] by simp

lemma unat_u16_less: "unat (b :: u16) < 65536"
  using unsigned_less [of b] by simp

lemma unat_u32_less: "unat (b :: u32) < 4294967296"
  using unsigned_less [of b] by simp

lemmas word_nat_order = word_less_nat_alt word_le_nat_alt word_unat_eq_iff

text \<open>The position of the highest set bit, as the built-in leading-zero counts find it.\<close>

lemma leading_zeros:
  fixes x :: "'a :: len word"
  assumes "x \<noteq> 0" and n: "n = LENGTH('a)"
    and k: "k = length (takeWhile (\<lambda>i. \<not> bit x i) (rev [0..<n]))"
  shows "k < n" "2 ^ (n - 1 - k) \<le> uint x" "uint x < 2 ^ (n - k)"
proof -
  define xs where "xs = rev [0..<n]"
  have nth: "xs ! i = n - 1 - i" if "i < n" for i using that by (simp add: xs_def rev_nth)
  have "\<exists>i < n. bit x i"
  proof (rule ccontr)
    assume "\<not> ?thesis"
    then have "x = 0" by (intro bit_word_eqI) (simp add: n)
    then show False using assms by simp
  qed
  then obtain i where "i \<in> set xs" "bit x i" by (auto simp: xs_def)
  then have "takeWhile (\<lambda>i. \<not> bit x i) xs \<noteq> xs" unfolding takeWhile_eq_all_conv by blast
  then have l: "k < length xs" unfolding k xs_def [symmetric]
    by (metis length_takeWhile_le le_neq_implies_less takeWhile_eq_take take_all_iff order_refl)
  then show kn: "k < n" by (simp add: xs_def)
  have hi: "bit x (n - 1 - k)"
    using nth_length_takeWhile [of "\<lambda>i. \<not> bit x i" xs] l nth [OF kn] unfolding k xs_def [symmetric] by simp
  have lo: "j < n - k" if "bit x j" for j
  proof (rule ccontr)
    assume "\<not> ?thesis"
    moreover have "j < n" using that bit_imp_le_length n by blast
    ultimately have "n - 1 - j < k" "xs ! (n - 1 - j) = j" using nth [of "n - 1 - j"] by auto
    then have "\<not> bit x j" unfolding k xs_def [symmetric] by (metis nth_mem set_takeWhileD takeWhile_nth)
    then show False using that by simp
  qed
  have b: "bit (uint x) j \<longleftrightarrow> bit x j" for j using bit_imp_le_length [of x j] by (auto simp: bit_uint_iff)
  have "take_bit (n - k) (uint x) = uint x" by (rule bit_eqI) (use lo in \<open>auto simp: bit_take_bit_iff b\<close>)
  then show "uint x < 2 ^ (n - k)" by (metis take_bit_int_less_exp)
  show "2 ^ (n - 1 - k) \<le> uint x"
  proof (rule ccontr)
    assume "\<not> ?thesis"
    then have "take_bit (n - 1 - k) (uint x) = uint x" by (simp add: take_bit_int_eq_self)
    then have "bit (uint x) (n - 1 - k) \<Longrightarrow> n - 1 - k < n - 1 - k" by (metis bit_take_bit_iff)
    then show False using hi b by simp
  qed
qed

lemma leading_zeros_nat:
  fixes x :: "'a :: len word"
  assumes "x \<noteq> 0" "n = LENGTH('a)" "k = length (takeWhile (\<lambda>i. \<not> bit x i) (rev [0..<n]))"
  shows "k < n" "2 ^ (n - 1 - k) \<le> unat x" "unat x < 2 ^ (n - k)"
proof -
  note z = leading_zeros [OF assms]
  show "k < n" using z(1) .
  have "int (2 ^ (n - 1 - k)) \<le> int (unat x)" "int (unat x) < int (2 ^ (n - k))" using z(2,3) by simp_all
  then show "2 ^ (n - 1 - k) \<le> unat x" "unat x < 2 ^ (n - k)" by (simp_all only: of_nat_le_iff of_nat_less_iff)
qed

lemma bit_word_nat: "bit (e :: 'a :: len word) i \<longleftrightarrow> odd (unat e div 2 ^ i)"
  by (simp add: bit_iff_odd [symmetric] bit_unsigned_iff)

end
