(* ===== verification/Utf8.thy ===== *)
theory Utf8
  imports Bits
begin

text \<open>
  UTF-8 and UTF-16 conversion (\<open>src/cutils.h\<close>, \<open>is_surrogate\<close> to \<open>from_surrogate\<close> and
  \<open>utf8_encode_len\<close> to \<open>utf8_encode_buf16\<close>), through which every string enters and leaves the engine.
  A source pointer with its length is a list of bytes; reading past it is the fault \<open>BadPointer\<close>, so
  that a result \<open>Inr\<close> also says that no byte beyond the source is read. A destination with its length
  is a list that is only updated inside its bounds.
\<close>

section \<open>Surrogates\<close>

definition is_surrogate :: "u32 \<Rightarrow> bool" where
  "is_surrogate c \<longleftrightarrow> drop_bit 11 c = drop_bit 11 0xD800"

definition is_hi_surrogate :: "u32 \<Rightarrow> bool" where
  "is_hi_surrogate c \<longleftrightarrow> drop_bit 10 c = drop_bit 10 0xD800"

definition is_lo_surrogate :: "u32 \<Rightarrow> bool" where
  "is_lo_surrogate c \<longleftrightarrow> drop_bit 10 c = drop_bit 10 0xDC00"

definition get_hi_surrogate :: "u32 \<Rightarrow> u32" where
  "get_hi_surrogate c = drop_bit 10 c - drop_bit 10 0x10000 + 0xD800"

definition get_lo_surrogate :: "u32 \<Rightarrow> u32" where
  "get_lo_surrogate c = (c AND 0x3FF) OR 0xDC00"

definition from_surrogate :: "u32 \<Rightarrow> u32 \<Rightarrow> u32" where
  "from_surrogate hi lo = 65536 + 1024 * (hi AND 1023) + (lo AND 1023)"

section \<open>One code point\<close>

definition utf8_encode_len :: "u32 \<Rightarrow> nat" where
  "utf8_encode_len c =
     (if c < 0x80 then 1 else if c < 0x800 then 2 else if c < 0x10000 then 3 else if c < 0x110000 then 4 else 3)"

definition utf8_encode :: "u32 \<Rightarrow> u8 list" where
  "utf8_encode c =
     (if c < 0x80 then [ucast c]
      else if c < 0x800 then [ucast (drop_bit 6 c OR 0xC0), ucast ((c AND 0x3F) OR 0x80)]
      else if c < 0x10000
      then [ucast (drop_bit 12 c OR 0xE0), ucast ((drop_bit 6 c AND 0x3F) OR 0x80), ucast ((c AND 0x3F) OR 0x80)]
      else if c < 0x110000
      then [ucast (drop_bit 18 c OR 0xF0), ucast ((drop_bit 12 c AND 0x3F) OR 0x80),
            ucast ((drop_bit 6 c AND 0x3F) OR 0x80), ucast ((c AND 0x3F) OR 0x80)]
      else [ucast (drop_bit 12 (0xFFFD :: u32) OR 0xE0), ucast ((drop_bit 6 (0xFFFD :: u32) AND 0x3F) OR 0x80),
            ucast (((0xFFFD :: u32) AND 0x3F) OR 0x80)])"

definition byte_at :: "u8 list \<Rightarrow> nat \<Rightarrow> u8 res" where
  "byte_at p i = (if i < length p then Inr (p ! i) else Inl BadPointer)"

definition byte_in :: "u8 list \<Rightarrow> nat \<Rightarrow> u8 \<Rightarrow> u8 \<Rightarrow> (u32 \<Rightarrow> (u32 \<times> nat) res) \<Rightarrow> (u32 \<times> nat) res" where
  "byte_in p i lower upper k =
     res_bind (byte_at p i) (\<lambda>b. if b \<ge> lower \<and> b \<le> upper then k (ucast b - 0x80) else Inr (0xFFFD, 1))"

text \<open>The code point and the number of bytes consumed.\<close>

definition utf8_decode :: "u8 list \<Rightarrow> (u32 \<times> nat) res" where
  "utf8_decode p =
     res_bind (byte_at p 0) (\<lambda>b.
       let c = ucast b
       in if c < 0x80 then Inr (c, 1)
          else if 0xC2 \<le> c \<and> c \<le> 0xDF
          then byte_in p 1 0x80 0xBF (\<lambda>x1. Inr (push_bit 6 (c - 0xC0) + x1, 2))
          else if 0xE0 \<le> c \<and> c \<le> 0xEF
          then byte_in p 1 (if c = 0xE0 then 0xA0 else 0x80) 0xBF (\<lambda>x1.
               byte_in p 2 0x80 0xBF (\<lambda>x2. Inr (push_bit 12 (c - 0xE0) + push_bit 6 x1 + x2, 3)))
          else if 0xF0 \<le> c \<and> c \<le> 0xF4
          then byte_in p 1 (if c = 0xF0 then 0x90 else 0x80) (if c = 0xF4 then 0x8F else 0xBF) (\<lambda>x1.
               byte_in p 2 0x80 0xBF (\<lambda>x2.
               byte_in p 3 0x80 0xBF (\<lambda>x3.
                 Inr (push_bit 18 (c - 0xF0) + push_bit 12 x1 + push_bit 6 x2 + x3, 4))))
          else Inr (0xFFFD, 1))"

text \<open>Every caller passes the distance to the end of its source as \<open>max_len\<close>; it is the length of the list.\<close>

definition utf8_decode_len :: "u8 list \<Rightarrow> (u32 \<times> nat) res" where
  "utf8_decode_len p =
     (let max_len = length p
      in if max_len = 0 then Inr (0xFFFD, 0)
         else if max_len > 3 then utf8_decode p
         else
           res_bind (byte_at p 0) (\<lambda>b.
             if b < (if max_len = 1 then 0x80 else if max_len = 2 then 0xE0 else 0xF0) then utf8_decode p
             else Inr (0xFFFD, 1)))"

section \<open>Facts on one code point\<close>

lemma cont_byte: "unat (ucast ((x AND 0x3F) OR 0x80 :: u32) :: u8) = 0x80 + unat x mod 64"
proof -
  have m: "unat (x AND 0x3F) = unat x mod 64" using unat_and_mask [of "0x3F" 6 x] by simp
  have "unat ((x AND 0x3F) OR 0x80) = unat x mod 64 + 0x80"
    using unat_or_tag [of "x AND 0x3F" 6 "0x80"] m by simp
  then show ?thesis by (subst unat_ucast_fit) simp_all
qed

lemma lead_byte:
  assumes "unat x < 2 ^ k" "k \<le> 6" "take_bit k t = 0" "unat t + 2 ^ k \<le> 256"
  shows "unat (ucast (x OR t :: u32) :: u8) = unat t + unat x"
proof -
  have "unat (x OR t) = unat x + unat t"
    using assms(1,4) by (intro unat_or_tag [OF assms(1,3)]) simp
  then show ?thesis using assms(1,4) by (subst unat_ucast_fit) simp_all
qed

lemma lead_bytes:
  "c < 0x800 \<Longrightarrow> unat (ucast (drop_bit 6 c OR 0xC0 :: u32) :: u8) = 0xC0 + unat c div 64"
  "c < 0x10000 \<Longrightarrow> unat (ucast (drop_bit 12 c OR 0xE0 :: u32) :: u8) = 0xE0 + unat c div 4096"
  "c < 0x110000 \<Longrightarrow> unat (ucast (drop_bit 18 c OR 0xF0 :: u32) :: u8) = 0xF0 + unat c div 262144"
  using lead_byte [of "drop_bit 6 c" 5 "0xC0"] lead_byte [of "drop_bit 12 c" 4 "0xE0"]
    lead_byte [of "drop_bit 18 c" 3 "0xF0"]
  by (simp_all add: unat_shift_right word_less_nat_alt)

lemma ascii_byte: "c < 0x80 \<Longrightarrow> unat (ucast (c :: u32) :: u8) = unat c"
  by (subst unat_ucast_fit) (simp_all add: word_less_nat_alt)

lemma mod_64_le: "n mod 64 \<le> (63 :: nat)" by linarith

lemma base_64_digits:
  fixes u :: nat
  shows "u div 4096 * 4096 + u div 64 mod 64 * 64 + u mod 64 = u"
    "u div 262144 * 262144 + u div 4096 mod 64 * 4096 + u div 64 mod 64 * 64 + u mod 64 = u"
    "u div 4096 = u div 64 div 64" "u div 262144 = u div 4096 div 64"
proof -
  have d: "v div 64 * 64 + v mod 64 = v" for v :: nat by simp
  show e: "u div 4096 = u div 64 div 64" "u div 262144 = u div 4096 div 64"
    by (simp_all add: div_mult2_eq [symmetric])
  show s: "u div 4096 * 4096 + u div 64 mod 64 * 64 + u mod 64 = u"
    unfolding e(1) using d [of "u div 64"] d [of u] by linarith
  show "u div 262144 * 262144 + u div 4096 mod 64 * 4096 + u div 64 mod 64 * 64 + u mod 64 = u"
    unfolding e(2) using d [of "u div 4096"] s by linarith
qed

lemmas encode_bytes = cont_byte lead_bytes ascii_byte unat_shift_right mod_64_le

lemma unat_byte: "unat (ucast (b :: u8) :: u32) = unat b"
  using unat_u8_less [of b] by (subst unat_ucast_fit) simp_all

lemma unat_cont: "0x80 \<le> unat b \<Longrightarrow> unat (ucast (b :: u8) - 0x80 :: u32) = unat b - 0x80"
  by (subst unat_sub_fit) (simp_all add: unat_byte)

lemma byte_at_simps [simp]:
  "byte_at (b # p) 0 = Inr b" "byte_at (b # p) (Suc i) = byte_at p i" "byte_at [] i = Inl BadPointer"
  "byte_at (b # p) (numeral k) = byte_at p (pred_numeral k)"
  by (simp_all add: byte_at_def numeral_eq_Suc)

lemma shifted: "unat x < 2 ^ n \<Longrightarrow> n + k \<le> 32 \<Longrightarrow> unat (push_bit k (x :: u32)) = unat x * 2 ^ k"
proof -
  assume a: "unat x < 2 ^ n" "n + k \<le> 32"
  then have "unat x * 2 ^ k < 2 ^ n * 2 ^ k" by simp
  also have "\<dots> \<le> 2 ^ 32" unfolding power_add [symmetric] using a(2) by (rule power_increasing) simp
  finally show ?thesis by (intro unat_shift_left) simp
qed

lemma decode_2:
  assumes "0xC2 \<le> unat b0" "unat b0 \<le> 0xDF" "0x80 \<le> unat b1" "unat b1 \<le> 0xBF"
  shows "\<exists>c. utf8_decode (b0 # b1 # p) = Inr (c, 2) \<and> unat c = (unat b0 - 0xC0) * 64 + (unat b1 - 0x80)"
proof -
  let ?x = "ucast b0 - 0xC0 :: u32" and ?y = "ucast b1 - 0x80 :: u32"
  have x: "unat ?x = unat b0 - 0xC0" using assms by (subst unat_sub_fit) (simp_all add: unat_byte)
  have y: "unat ?y = unat b1 - 0x80" using assms by (intro unat_cont)
  have "unat (push_bit 6 ?x) = (unat b0 - 0xC0) * 64"
    using shifted [of ?x 6 6] x assms by simp
  then have "unat (push_bit 6 ?x + ?y) = (unat b0 - 0xC0) * 64 + (unat b1 - 0x80)"
    using y assms by (subst unat_add_fit) simp_all
  moreover have "utf8_decode (b0 # b1 # p) = Inr (push_bit 6 ?x + ?y, 2)"
    using assms by (simp add: utf8_decode_def byte_in_def Let_def word_nat_order unat_byte)
  ultimately show ?thesis by blast
qed

lemma decode_3:
  assumes "0xE0 \<le> unat b0" "unat b0 \<le> 0xEF" "(if unat b0 = 0xE0 then 0xA0 else 0x80) \<le> unat b1" "unat b1 \<le> 0xBF"
    "0x80 \<le> unat b2" "unat b2 \<le> 0xBF"
  shows "\<exists>c. utf8_decode (b0 # b1 # b2 # p) = Inr (c, 3) \<and>
    unat c = (unat b0 - 0xE0) * 4096 + (unat b1 - 0x80) * 64 + (unat b2 - 0x80)"
proof -
  let ?x = "ucast b0 - 0xE0 :: u32" and ?y = "ucast b1 - 0x80 :: u32" and ?z = "ucast b2 - 0x80 :: u32"
  have b1: "0x80 \<le> unat b1" using assms(3) by (simp split: if_splits)
  have x: "unat ?x = unat b0 - 0xE0" using assms by (subst unat_sub_fit) (simp_all add: unat_byte)
  have y: "unat ?y = unat b1 - 0x80" "unat ?z = unat b2 - 0x80" using b1 assms by (intro unat_cont; simp)+
  have s: "unat (push_bit 12 ?x) = (unat b0 - 0xE0) * 4096" "unat (push_bit 6 ?y) = (unat b1 - 0x80) * 64"
    using shifted [of ?x 4 12] shifted [of ?y 6 6] x y assms by simp_all
  then have "unat (push_bit 12 ?x + push_bit 6 ?y) = (unat b0 - 0xE0) * 4096 + (unat b1 - 0x80) * 64"
    using assms by (subst unat_add_fit) simp_all
  then have "unat (push_bit 12 ?x + push_bit 6 ?y + ?z) = (unat b0 - 0xE0) * 4096 + (unat b1 - 0x80) * 64 + (unat b2 - 0x80)"
    using y assms by (subst unat_add_fit) simp_all
  moreover have "utf8_decode (b0 # b1 # b2 # p) = Inr (push_bit 12 ?x + push_bit 6 ?y + ?z, 3)"
    using assms by (simp add: utf8_decode_def byte_in_def Let_def word_nat_order unat_byte split: if_splits)
  ultimately show ?thesis by blast
qed

lemma decode_4:
  assumes "0xF0 \<le> unat b0" "unat b0 \<le> 0xF4" "(if unat b0 = 0xF0 then 0x90 else 0x80) \<le> unat b1"
    "unat b1 \<le> (if unat b0 = 0xF4 then 0x8F else 0xBF)" "0x80 \<le> unat b2" "unat b2 \<le> 0xBF" "0x80 \<le> unat b3" "unat b3 \<le> 0xBF"
  shows "\<exists>c. utf8_decode (b0 # b1 # b2 # b3 # p) = Inr (c, 4) \<and>
    unat c = (unat b0 - 0xF0) * 262144 + (unat b1 - 0x80) * 4096 + (unat b2 - 0x80) * 64 + (unat b3 - 0x80)"
proof -
  let ?x = "ucast b0 - 0xF0 :: u32" and ?y = "ucast b1 - 0x80 :: u32" and ?z = "ucast b2 - 0x80 :: u32"
    and ?w = "ucast b3 - 0x80 :: u32"
  have b1: "0x80 \<le> unat b1" "unat b1 \<le> 0xBF" using assms(3,4) by (simp_all split: if_splits)
  have x: "unat ?x = unat b0 - 0xF0" using assms by (subst unat_sub_fit) (simp_all add: unat_byte)
  have y: "unat ?y = unat b1 - 0x80" "unat ?z = unat b2 - 0x80" "unat ?w = unat b3 - 0x80"
    using b1 assms by (intro unat_cont; simp)+
  have s: "unat (push_bit 18 ?x) = (unat b0 - 0xF0) * 262144" "unat (push_bit 12 ?y) = (unat b1 - 0x80) * 4096"
    "unat (push_bit 6 ?z) = (unat b2 - 0x80) * 64"
    using shifted [of ?x 3 18] shifted [of ?y 6 12] shifted [of ?z 6 6] x y b1 assms by simp_all
  then have "unat (push_bit 18 ?x + push_bit 12 ?y) = (unat b0 - 0xF0) * 262144 + (unat b1 - 0x80) * 4096"
    using assms b1 by (subst unat_add_fit) simp_all
  then have "unat (push_bit 18 ?x + push_bit 12 ?y + push_bit 6 ?z) =
      (unat b0 - 0xF0) * 262144 + (unat b1 - 0x80) * 4096 + (unat b2 - 0x80) * 64"
    using s assms b1 by (subst unat_add_fit) simp_all
  then have "unat (push_bit 18 ?x + push_bit 12 ?y + push_bit 6 ?z + ?w) =
      (unat b0 - 0xF0) * 262144 + (unat b1 - 0x80) * 4096 + (unat b2 - 0x80) * 64 + (unat b3 - 0x80)"
    using y(3) assms(1,2,5-8) b1 by (subst unat_add_fit) auto
  moreover have "utf8_decode (b0 # b1 # b2 # b3 # p) = Inr (push_bit 18 ?x + push_bit 12 ?y + push_bit 6 ?z + ?w, 4)"
    using assms by (simp add: utf8_decode_def byte_in_def Let_def word_nat_order unat_byte
        split: if_splits)
  ultimately show ?thesis by blast
qed

lemma encode_length [simp]: "length (utf8_encode c) = utf8_encode_len c"
  by (simp add: utf8_encode_def utf8_encode_len_def)

text \<open>Every code point up to \<open>0x10FFFF\<close>, surrogates included, is read back.\<close>

lemma decode_encode:
  assumes "c < 0x110000"
  shows "utf8_decode (utf8_encode c @ p) = Inr (c, utf8_encode_len c)"
proof -
  let ?u = "unat c"
  have u: "?u < 0x110000" using assms by (simp add: word_less_nat_alt)
  consider (1) "?u < 0x80" | (2) "0x80 \<le> ?u" "?u < 0x800" | (3) "0x800 \<le> ?u" "?u < 0x10000" | (4) "0x10000 \<le> ?u"
    by linarith
  then show ?thesis
  proof cases
    case 1
    then have "c < 0x80" by (simp add: word_less_nat_alt)
    then show ?thesis
      using ascii_byte [of c]
      by (simp add: utf8_encode_def utf8_encode_len_def utf8_decode_def Let_def word_nat_order unat_byte)
  next
    case 2
    then have c: "\<not> c < 0x80" "c < 0x800" by (simp_all add: word_less_nat_alt)
    have e: "?u div 64 * 64 + ?u mod 64 = ?u" by simp
    have "2 \<le> ?u div 64" "?u div 64 \<le> 31" using 2 by linarith+
    then show ?thesis
      using decode_2 [of "ucast (drop_bit 6 c OR 0xC0)" "ucast ((c AND 0x3F) OR 0x80)" p] 2 c e
      by (auto simp: utf8_encode_def utf8_encode_len_def encode_bytes word_unat_eq_iff)
  next
    case 3
    then have c: "\<not> c < 0x80" "\<not> c < 0x800" "c < 0x10000" by (simp_all add: word_less_nat_alt)
    have e: "?u div 4096 * 4096 + ?u div 64 mod 64 * 64 + ?u mod 64 = ?u" by (rule base_64_digits)
    have "32 \<le> ?u div 64 mod 64" if "?u div 4096 = 0"
      using that 3 e mod_64_le [of ?u] by linarith
    then have "(if ?u div 4096 = 0 then 0xA0 else 0x80) \<le> 0x80 + ?u div 64 mod 64" by (cases "?u div 4096 = 0") simp_all
    moreover have "?u div 4096 \<le> 15" using 3 by linarith
    ultimately show ?thesis
      using decode_3 [of "ucast (drop_bit 12 c OR 0xE0)" "ucast ((drop_bit 6 c AND 0x3F) OR 0x80)" "ucast ((c AND 0x3F) OR 0x80)" p] 3 c e
      by (auto simp: utf8_encode_def utf8_encode_len_def encode_bytes word_unat_eq_iff)
  next
    case 4
    then have c: "\<not> c < 0x80" "\<not> c < 0x800" "\<not> c < 0x10000" by (simp_all add: word_less_nat_alt)
    have e: "?u div 262144 * 262144 + ?u div 4096 mod 64 * 4096 + ?u div 64 mod 64 * 64 + ?u mod 64 = ?u" by (rule base_64_digits)
    have "16 \<le> ?u div 4096 mod 64" if "?u div 262144 = 0"
      using that 4 e mod_64_le [of ?u] mod_64_le [of "?u div 64"] by linarith
    then have "(if ?u div 262144 = 0 then 0x90 else 0x80) \<le> 0x80 + ?u div 4096 mod 64"
      by (cases "?u div 262144 = 0") simp_all
    moreover have "?u div 4096 mod 64 \<le> 15" if "?u div 262144 = 4"
      using that u e by linarith
    then have "0x80 + ?u div 4096 mod 64 \<le> (if ?u div 262144 = 4 then 0x8F else 0xBF)"
      using mod_64_le [of "?u div 4096"] by (cases "?u div 262144 = 4") simp_all
    moreover have "?u div 262144 \<le> 4" using u by linarith
    ultimately show ?thesis
      using decode_4 [of "ucast (drop_bit 18 c OR 0xF0)" "ucast ((drop_bit 12 c AND 0x3F) OR 0x80)"
          "ucast ((drop_bit 6 c AND 0x3F) OR 0x80)" "ucast ((c AND 0x3F) OR 0x80)" p] 4 c e u assms
      by (auto simp: utf8_encode_def utf8_encode_len_def encode_bytes word_unat_eq_iff)
  qed
qed

text \<open>The converse: what the decoder accepts is the encoding of what it returns.\<close>

lemma digits_2: "x = a * 64 + b \<Longrightarrow> b < 64 \<Longrightarrow> x div 64 = a \<and> x mod 64 = (b :: nat)"
  by auto

lemma encode_2:
  assumes "0xC2 \<le> unat b0" "unat b0 \<le> 0xDF" "0x80 \<le> unat b1" "unat b1 \<le> 0xBF"
    "unat c = (unat b0 - 0xC0) * 64 + (unat b1 - 0x80)"
  shows "utf8_encode c = [b0, b1] \<and> utf8_encode_len c = 2 \<and> c < 0x110000"
proof -
  have d: "unat c div 64 = unat b0 - 0xC0" "unat c mod 64 = unat b1 - 0x80"
    using digits_2 [OF assms(5)] assms(4) by linarith+
  have c: "\<not> c < 0x80" "c < 0x800" "c < 0x110000"
    using assms by (simp_all add: word_less_nat_alt)
  then show ?thesis
    using d assms by (simp add: utf8_encode_def utf8_encode_len_def word_unat_eq_iff encode_bytes)
qed

lemma encode_3:
  assumes "0xE0 \<le> unat b0" "unat b0 \<le> 0xEF" "(if unat b0 = 0xE0 then 0xA0 else 0x80) \<le> unat b1" "unat b1 \<le> 0xBF"
    "0x80 \<le> unat b2" "unat b2 \<le> 0xBF"
    "unat c = (unat b0 - 0xE0) * 4096 + (unat b1 - 0x80) * 64 + (unat b2 - 0x80)"
  shows "utf8_encode c = [b0, b1, b2] \<and> utf8_encode_len c = 3 \<and> c < 0x110000"
proof -
  have b1: "0x80 \<le> unat b1" "unat b0 = 0xE0 \<Longrightarrow> 0xA0 \<le> unat b1" using assms(3) by (simp_all split: if_splits)
  have d: "unat c div 64 = (unat b0 - 0xE0) * 64 + (unat b1 - 0x80)" "unat c mod 64 = unat b2 - 0x80"
    using digits_2 [of "unat c" "(unat b0 - 0xE0) * 64 + (unat b1 - 0x80)" "unat b2 - 0x80"] assms(6,7) by simp_all
  have e: "unat c div 64 div 64 = unat b0 - 0xE0" "unat c div 64 mod 64 = unat b1 - 0x80"
    using digits_2 [OF d(1)] assms(4) by linarith+
  have "0x800 \<le> unat c" "unat c < 0x10000"
    using assms b1 by (cases "unat b0 = 0xE0"; linarith)+
  then have c: "\<not> c < 0x80" "\<not> c < 0x800" "c < 0x10000" "c < 0x110000"
    by (simp_all add: word_less_nat_alt)
  moreover have "unat c div 4096 = unat b0 - 0xE0" unfolding base_64_digits(3) by (rule e)
  ultimately show ?thesis
    using d(2) e(2) assms b1
    by (simp add: utf8_encode_def utf8_encode_len_def word_unat_eq_iff encode_bytes)
qed

lemma encode_4:
  assumes "0xF0 \<le> unat b0" "unat b0 \<le> 0xF4" "(if unat b0 = 0xF0 then 0x90 else 0x80) \<le> unat b1"
    "unat b1 \<le> (if unat b0 = 0xF4 then 0x8F else 0xBF)" "0x80 \<le> unat b2" "unat b2 \<le> 0xBF" "0x80 \<le> unat b3" "unat b3 \<le> 0xBF"
    "unat c = (unat b0 - 0xF0) * 262144 + (unat b1 - 0x80) * 4096 + (unat b2 - 0x80) * 64 + (unat b3 - 0x80)"
  shows "utf8_encode c = [b0, b1, b2, b3] \<and> utf8_encode_len c = 4 \<and> c < 0x110000"
proof -
  have b1: "0x80 \<le> unat b1" "unat b0 = 0xF0 \<Longrightarrow> 0x90 \<le> unat b1" "unat b1 \<le> 0xBF" "unat b0 = 0xF4 \<Longrightarrow> unat b1 \<le> 0x8F"
    using assms(3,4) by (simp_all split: if_splits)
  have d: "unat c div 64 = ((unat b0 - 0xF0) * 64 + (unat b1 - 0x80)) * 64 + (unat b2 - 0x80)" "unat c mod 64 = unat b3 - 0x80"
    using digits_2 [of "unat c" "((unat b0 - 0xF0) * 64 + (unat b1 - 0x80)) * 64 + (unat b2 - 0x80)" "unat b3 - 0x80"] assms(8,9) by simp_all
  have e: "unat c div 64 div 64 = (unat b0 - 0xF0) * 64 + (unat b1 - 0x80)" "unat c div 64 mod 64 = unat b2 - 0x80"
    using digits_2 [OF d(1)] assms(6) by linarith+
  have f: "unat c div 64 div 64 div 64 = unat b0 - 0xF0" "unat c div 64 div 64 mod 64 = unat b1 - 0x80"
    using digits_2 [OF e(1)] b1 by linarith+
  have l: "0x10000 \<le> unat c" using assms(1,2,5-9) b1 by (cases "unat b0 = 0xF0"; linarith)
  have h: "unat c < 0x110000" using assms(1,2,5-9) b1 by (cases "unat b0 = 0xF4"; linarith)
  have c: "\<not> c < 0x80" "\<not> c < 0x800" "\<not> c < 0x10000" "c < 0x110000"
    using l h by (simp_all add: word_less_nat_alt)
  moreover have "unat c div 262144 = unat b0 - 0xF0" unfolding base_64_digits(3,4) by (rule f)
  moreover have "unat c div 4096 mod 64 = unat b1 - 0x80" unfolding base_64_digits(3) by (rule f)
  ultimately show ?thesis
    using d(2) e(2) assms(1,2,5-8) b1
    by (simp add: utf8_encode_def utf8_encode_len_def word_unat_eq_iff encode_bytes)
qed

lemma byte_in_Inr:
  "byte_in p i l u k = Inr r \<longleftrightarrow>
     i < length p \<and> (if l \<le> p ! i \<and> p ! i \<le> u then k (ucast (p ! i) - 0x80) = Inr r else r = (0xFFFD, 1))"
  by (auto simp: byte_in_def byte_at_def)

definition decoded :: "u8 list \<Rightarrow> u32 \<Rightarrow> nat \<Rightarrow> bool" where
  "decoded p c k \<longleftrightarrow>
     p \<noteq> [] \<and> ((c = 0xFFFD \<and> k = 1 \<and> 0x80 \<le> hd p) \<or>
               (c < 0x110000 \<and> k = utf8_encode_len c \<and> k \<le> length p \<and> take k p = utf8_encode c))"

lemma good_2:
  assumes "0xC2 \<le> unat b0" "unat b0 \<le> 0xDF" "0x80 \<le> unat b1" "unat b1 \<le> 0xBF" "utf8_decode (b0 # b1 # p) = Inr (c, k)"
  shows "decoded (b0 # b1 # p) c k"
proof -
  obtain c' where "utf8_decode (b0 # b1 # p) = Inr (c', 2)" "utf8_encode c' = [b0, b1] \<and> utf8_encode_len c' = 2 \<and> c' < 0x110000"
    using decode_2 [OF assms(1-4)] encode_2 [OF assms(1-4)] by metis
  then show ?thesis using assms(5) by (simp add: decoded_def)
qed

lemma good_3:
  assumes "0xE0 \<le> unat b0" "unat b0 \<le> 0xEF" "(if unat b0 = 0xE0 then 0xA0 else 0x80) \<le> unat b1" "unat b1 \<le> 0xBF"
    "0x80 \<le> unat b2" "unat b2 \<le> 0xBF" "utf8_decode (b0 # b1 # b2 # p) = Inr (c, k)"
  shows "decoded (b0 # b1 # b2 # p) c k"
proof -
  obtain c' where "utf8_decode (b0 # b1 # b2 # p) = Inr (c', 3)"
      "utf8_encode c' = [b0, b1, b2] \<and> utf8_encode_len c' = 3 \<and> c' < 0x110000"
    using decode_3 [OF assms(1-6)] encode_3 [OF assms(1-6)] by metis
  then show ?thesis using assms(7) by (simp add: decoded_def)
qed

lemma good_4:
  assumes "0xF0 \<le> unat b0" "unat b0 \<le> 0xF4" "(if unat b0 = 0xF0 then 0x90 else 0x80) \<le> unat b1"
    "unat b1 \<le> (if unat b0 = 0xF4 then 0x8F else 0xBF)" "0x80 \<le> unat b2" "unat b2 \<le> 0xBF" "0x80 \<le> unat b3" "unat b3 \<le> 0xBF"
    "utf8_decode (b0 # b1 # b2 # b3 # p) = Inr (c, k)"
  shows "decoded (b0 # b1 # b2 # b3 # p) c k"
proof -
  obtain c' where "utf8_decode (b0 # b1 # b2 # b3 # p) = Inr (c', 4)"
      "utf8_encode c' = [b0, b1, b2, b3] \<and> utf8_encode_len c' = 4 \<and> c' < 0x110000"
    using decode_4 [OF assms(1-8)] encode_4 [OF assms(1-8)] by metis
  then show ?thesis using assms(9) by (simp add: decoded_def)
qed

lemma byte_in_cases:
  assumes "byte_in p i l u k = Inr r" "r \<noteq> (0xFFFD, 1)"
  shows "i < length p" "unat l \<le> unat (p ! i)" "unat (p ! i) \<le> unat u" "k (ucast (p ! i) - 0x80) = Inr r"
  using assms by (auto simp: byte_in_Inr word_nat_order split: if_splits)

lemma at_least:
  "1 < length p \<Longrightarrow> p = p ! 0 # p ! 1 # drop 2 p"
  "2 < length p \<Longrightarrow> p = p ! 0 # p ! 1 # p ! 2 # drop 3 p"
  "3 < length p \<Longrightarrow> p = p ! 0 # p ! 1 # p ! 2 # p ! 3 # drop 4 p"
  using Cons_nth_drop_Suc [of 0 p] by (cases "p = []"; simp add: Cons_nth_drop_Suc numeral_eq_Suc)+

lemma decode_sound:
  assumes "utf8_decode p = Inr (c, k)"
  shows "decoded p c k"
proof (cases "(c, k) = (0xFFFD, 1) \<and> 0x80 \<le> unat (p ! 0)")
  case True
  then show ?thesis using assms by (cases p) (simp_all add: decoded_def utf8_decode_def word_nat_order)
next
  case n: False
  let ?b = "p ! 0"
  have p: "0 < length p" using assms by (cases p) (simp_all add: utf8_decode_def)
  note U = assms [unfolded utf8_decode_def byte_at_def Let_def]
  consider (1) "unat ?b < 0x80" | (2) "0xC2 \<le> unat ?b" "unat ?b \<le> 0xDF" | (3) "0xE0 \<le> unat ?b" "unat ?b \<le> 0xEF"
    | (4) "0xF0 \<le> unat ?b" "unat ?b \<le> 0xF4" | (5) "0x80 \<le> unat ?b" "unat ?b < 0xC2" | (6) "0xF4 < unat ?b" by linarith
  then show ?thesis
  proof cases
    case 1
    then have "c = ucast ?b" "k = 1" using U p by (simp_all add: word_nat_order unat_byte)
    moreover have "(ucast ?b :: u32) < 0x80" using 1 by (simp add: word_less_nat_alt unat_byte)
    moreover have "ucast (ucast ?b :: u32) = ?b"
      using 1 by (simp add: word_unat_eq_iff [of _ ?b] ascii_byte word_less_nat_alt unat_byte)
    moreover have "take 1 p = [?b]" using p by (cases p) simp_all
    ultimately show ?thesis
      using p unfolding decoded_def by (simp add: utf8_encode_def utf8_encode_len_def word_less_nat_alt unat_byte Suc_leI)
  next
    case 2
    then have B: "byte_in p 1 0x80 0xBF (\<lambda>x1. Inr (push_bit 6 (ucast ?b - 0xC0) + x1, 2)) = Inr (c, k)"
      using U p by (simp add: word_nat_order unat_byte)
    note B1 = byte_in_cases [OF B]
    have "1 < length p" "0x80 \<le> unat (p ! 1)" "unat (p ! 1) \<le> 0xBF" using B1(1-3) n 2 by simp_all
    then show ?thesis using good_2 [of ?b "p ! 1" "drop 2 p" c k] 2 assms at_least(1) [of p] by simp
  next
    case 3
    then have B: "byte_in p 1 (if ucast ?b = (0xE0 :: u32) then 0xA0 else 0x80) 0xBF (\<lambda>x1.
        byte_in p 2 0x80 0xBF (\<lambda>x2. Inr (push_bit 12 (ucast ?b - 0xE0) + push_bit 6 x1 + x2, 3))) = Inr (c, k)"
      using U p by (simp add: word_nat_order unat_byte)
    have e: "(c, k) \<noteq> (0xFFFD, 1)" using n 3 by simp
    note B1 = byte_in_cases [OF B e]
    note B2 = byte_in_cases [OF B1(4) e]
    have "(if unat ?b = 0xE0 then 0xA0 else 0x80) \<le> unat (p ! 1)"
      using B1(2) by (simp add: word_unat_eq_iff unat_byte split: if_splits)
    then show ?thesis
      using good_3 [of ?b "p ! 1" "p ! 2" "drop 3 p" c k] 3 assms at_least(2) [OF B2(1)] B1(3) B2(2,3) by simp
  next
    case 4
    then have B: "byte_in p 1 (if ucast ?b = (0xF0 :: u32) then 0x90 else 0x80) (if ucast ?b = (0xF4 :: u32) then 0x8F else 0xBF) (\<lambda>x1.
        byte_in p 2 0x80 0xBF (\<lambda>x2. byte_in p 3 0x80 0xBF (\<lambda>x3.
          Inr (push_bit 18 (ucast ?b - 0xF0) + push_bit 12 x1 + push_bit 6 x2 + x3, 4)))) = Inr (c, k)"
      using U p by (simp add: word_nat_order unat_byte)
    have e: "(c, k) \<noteq> (0xFFFD, 1)" using n 4 by simp
    note B1 = byte_in_cases [OF B e]
    note B2 = byte_in_cases [OF B1(4) e]
    note B3 = byte_in_cases [OF B2(4) e]
    have "(if unat ?b = 0xF0 then 0x90 else 0x80) \<le> unat (p ! 1)" "unat (p ! 1) \<le> (if unat ?b = 0xF4 then 0x8F else 0xBF)"
      using B1(2,3) by (simp_all add: word_unat_eq_iff unat_byte split: if_splits)
    then show ?thesis
      using good_4 [of ?b "p ! 1" "p ! 2" "p ! 3" "drop 4 p" c k] 4 assms at_least(3) [OF B3(1)] B2(2,3) B3(2,3) by simp
  next
    case 5
    then show ?thesis using n U p by (simp add: word_nat_order unat_byte)
  next
    case 6
    then show ?thesis using n U p by (simp add: word_nat_order unat_byte)
  qed
qed

text \<open>With the length test in front the decoder never reads past its source.\<close>

lemma byte_in_returns: "i < length p \<Longrightarrow> (\<And>x. \<not> isl (k x)) \<Longrightarrow> \<not> isl (byte_in p i l u k)"
  by (simp add: byte_in_def byte_at_def)

lemma decode_returns:
  assumes "0 < length p" "unat (p ! 0) < 0xC2 \<or> 1 < length p" "unat (p ! 0) < 0xE0 \<or> 2 < length p" "unat (p ! 0) < 0xF0 \<or> 3 < length p"
  shows "\<not> isl (utf8_decode p)"
proof -
  let ?b = "p ! 0"
  consider (1) "unat ?b < 0x80" | (2) "0xC2 \<le> unat ?b" "unat ?b \<le> 0xDF" | (3) "0xE0 \<le> unat ?b" "unat ?b \<le> 0xEF"
    | (4) "0xF0 \<le> unat ?b" "unat ?b \<le> 0xF4" | (5) "0x80 \<le> unat ?b" "unat ?b < 0xC2" | (6) "0xF4 < unat ?b" by linarith
  then show ?thesis
    by cases (use assms in \<open>simp_all add: utf8_decode_def byte_at_def Let_def word_nat_order unat_byte byte_in_returns\<close>)
qed

lemma decode_len_sound:
  assumes "p \<noteq> []"
  shows "\<exists>c k. utf8_decode_len p = Inr (c, k) \<and> decoded p c k"
proof -
  have "\<exists>c k. utf8_decode p = Inr (c, k)" if "3 < length p \<or> p ! 0 < (if length p = 1 then 0x80 else if length p = 2 then 0xE0 else 0xF0)"
  proof -
    have "0 < length p" using assms by simp
    then have "length p = 1 \<or> length p = 2 \<or> 2 < length p" by linarith
    then have "\<not> isl (utf8_decode p)"
      using that assms by (intro decode_returns) (auto simp: word_nat_order Suc_le_eq split: if_splits)
    then show ?thesis by (cases "utf8_decode p") auto
  qed
  moreover have "decoded p 0xFFFD 1"
    if "\<not> p ! 0 < (if length p = 1 then 0x80 else if length p = 2 then 0xE0 else 0xF0)"
    using that assms by (auto simp: decoded_def word_nat_order hd_conv_nth split: if_splits)
  ultimately show ?thesis
    using assms decode_sound [of p] by (auto simp: utf8_decode_len_def Let_def byte_at_def)
qed

lemma encode_len_pos: "1 \<le> utf8_encode_len c"
  by (simp add: utf8_encode_len_def)

lemma decoded_step: "decoded p c k \<Longrightarrow> 1 \<le> k \<and> k \<le> length p"
  using encode_len_pos by (auto simp: decoded_def Suc_leI)

lemma decode_len_step:
  assumes "utf8_decode_len (b # q) = Inr (c, k)"
  shows "length (drop k (b # q)) < length (b # q)" "1 \<le> k" "decoded (b # q) c k"
  using decode_len_sound [of "b # q"] decoded_step [of "b # q" c k] assms by auto

section \<open>Buffers\<close>

abbreviation UTF8_PLAIN_ASCII :: nat where "UTF8_PLAIN_ASCII \<equiv> 0"
abbreviation UTF8_NON_ASCII :: nat where "UTF8_NON_ASCII \<equiv> 1"
abbreviation UTF8_HAS_16BIT :: nat where "UTF8_HAS_16BIT \<equiv> 2"
abbreviation UTF8_HAS_NON_BMP1 :: nat where "UTF8_HAS_NON_BMP1 \<equiv> 4"
abbreviation UTF8_HAS_ERRORS :: nat where "UTF8_HAS_ERRORS \<equiv> 8"

function scan_loop :: "u8 list \<Rightarrow> nat \<Rightarrow> nat \<Rightarrow> (nat \<times> nat) res" where
  "scan_loop [] kind len = Inr (kind, len)"
| "scan_loop (b # q) kind len =
     (if b < 0x80 then scan_loop q kind (len + 1)
      else
        (case utf8_decode_len (b # q) of
           Inl f \<Rightarrow> Inl f
         | Inr (c, k) \<Rightarrow>
             let kind1 = (if k = 1 then kind OR UTF8_HAS_ERRORS else kind);
                 kind2 = (if c > 0xFF then kind1 OR UTF8_HAS_16BIT else kind1);
                 kind3 = (if c > 0xFFFF then kind2 OR UTF8_HAS_NON_BMP1 else kind2)
             in scan_loop (drop k (b # q)) kind3 (if c > 0xFFFF then len + 2 else len + 1)))"
  by pat_completeness auto
termination by (relation "measure (\<lambda>(p, kind, len). length p)") (auto dest: decode_len_step(2))

definition utf8_scan :: "u8 list \<Rightarrow> (nat \<times> nat) res" where
  "utf8_scan p =
     (let cbits = fold (OR) p 0
      in if cbits \<ge> 0x80 then scan_loop p UTF8_NON_ASCII 0 else Inr (UTF8_PLAIN_ASCII, length p))"

text \<open>Writes of a destination array, dropped outside its bounds as the guards of the source do.\<close>

definition put_at :: "'a list \<Rightarrow> nat \<Rightarrow> 'a \<Rightarrow> 'a list" where
  "put_at dest i x = (if i < length dest then dest[i := x] else dest)"

fun decode_loop8 :: "u8 list \<Rightarrow> nat \<Rightarrow> u8 list \<Rightarrow> (u8 list \<times> nat) res" where
  "decode_loop8 dest i [] =
     Inr (if i < length dest then dest[i := 0] else if length dest > 0 then dest[length dest - 1 := 0] else dest, i)"
| "decode_loop8 dest i [b] =
     (if b \<ge> 0xC0 then Inl BadPointer else decode_loop8 (put_at dest i b) (i + 1) [])"
| "decode_loop8 dest i (b # b1 # q) =
     (if b \<ge> 0xC0
      then decode_loop8 (put_at dest i (ucast (push_bit 6 (ucast b) + ucast b1 - (push_bit 6 0xC0 + 0x80) :: u32))) (i + 1) q
      else decode_loop8 (put_at dest i b) (i + 1) (b1 # q))"

definition utf8_decode_buf8 :: "u8 list \<Rightarrow> u8 list \<Rightarrow> (u8 list \<times> nat) res" where
  "utf8_decode_buf8 dest src = decode_loop8 dest 0 src"

function decode_loop16 :: "u16 list \<Rightarrow> nat \<Rightarrow> u8 list \<Rightarrow> (u16 list \<times> nat) res" where
  "decode_loop16 dest i [] = Inr (dest, i)"
| "decode_loop16 dest i (b # q) =
     (if b < 0x80 then decode_loop16 (put_at dest i (ucast b)) (i + 1) q
      else
        (case utf8_decode_len (b # q) of
           Inl f \<Rightarrow> Inl f
         | Inr (c, k) \<Rightarrow>
             if c > 0xFFFF
             then decode_loop16 (put_at (put_at dest i (ucast (get_hi_surrogate c))) (i + 1) (ucast (get_lo_surrogate c)))
                    (i + 2) (drop k (b # q))
             else decode_loop16 (put_at dest i (ucast c)) (i + 1) (drop k (b # q))))"
  by pat_completeness auto
termination by (relation "measure (\<lambda>(dest, i, p). length p)") (auto dest: decode_len_step(2))

definition utf8_decode_buf16 :: "u16 list \<Rightarrow> u8 list \<Rightarrow> (u16 list \<times> nat) res" where
  "utf8_decode_buf16 dest src = decode_loop16 dest 0 src"

fun encode_loop8 :: "u8 list \<Rightarrow> nat \<Rightarrow> u8 list \<Rightarrow> u8 list \<times> nat" where
  "encode_loop8 dest j [] = (put_at dest j 0, j)"
| "encode_loop8 dest j (b # q) =
     (if b < 0x80
      then (if j + 1 \<ge> length dest then (put_at dest j 0, j + sum_list (map (\<lambda>x. 1 + of_bool (x \<ge> 0x80)) (b # q)))
            else encode_loop8 (dest[j := b]) (j + 1) q)
      else (if j + 2 \<ge> length dest then (put_at dest j 0, j + sum_list (map (\<lambda>x. 1 + of_bool (x \<ge> 0x80)) (b # q)))
            else encode_loop8 (dest[j := drop_bit 6 b OR 0xC0, j + 1 := (b AND 0x3F) OR 0x80]) (j + 2) q))"

definition utf8_encode_buf8 :: "u8 list \<Rightarrow> u8 list \<Rightarrow> u8 list \<times> nat" where
  "utf8_encode_buf8 dest src = encode_loop8 dest 0 src"

text \<open>The next code point of a 16-bit source and the units it leaves.\<close>

fun next_code :: "u16 list \<Rightarrow> u32 \<times> u16 list" where
  "next_code [] = (0, [])"
| "next_code (x # q) =
     (let c = ucast x
      in if c < 0x80 then (c, q)
         else if is_hi_surrogate c \<and> q \<noteq> [] \<and> is_lo_surrogate (ucast (hd q)) then (from_surrogate c (ucast (hd q)), tl q)
         else (c, q))"

lemma next_code_step: "length (snd (next_code (x # q))) < length (x # q)"
  by (auto simp: Let_def)

declare next_code.simps(2) [simp del]

function encode_count16 :: "u16 list \<Rightarrow> nat" where
  "encode_count16 [] = 0"
| "encode_count16 (x # q) = utf8_encode_len (fst (next_code (x # q))) + encode_count16 (snd (next_code (x # q)))"
  by pat_completeness auto
termination by (relation "measure length") (use next_code_step in auto)

function encode_loop16 :: "u8 list \<Rightarrow> nat \<Rightarrow> u16 list \<Rightarrow> u8 list \<times> nat" where
  "encode_loop16 dest j [] = (put_at dest j 0, j)"
| "encode_loop16 dest j (x # q) =
     (let c = fst (next_code (x # q))
      in if j + utf8_encode_len c \<ge> length dest then (put_at dest j 0, j + encode_count16 (x # q))
         else encode_loop16 (take j dest @ utf8_encode c @ drop (j + utf8_encode_len c) dest) (j + utf8_encode_len c)
                (snd (next_code (x # q))))"
  by pat_completeness auto
termination by (relation "measure (\<lambda>(dest, j, s). length s)") (use next_code_step in auto)

definition utf8_encode_buf16 :: "u8 list \<Rightarrow> u16 list \<Rightarrow> u8 list \<times> nat" where
  "utf8_encode_buf16 dest src = encode_loop16 dest 0 src"

end
