(* ===== verification/Utf8Strings.thy ===== *)
theory Utf8Strings
  imports Utf8
begin

text \<open>
  Strings crossing the boundary of the engine: \<open>JS_NewStringLen\<close> and \<open>JS_ToCStringLen2\<close>
  (\<open>src/quickjs.c\<close>) over the conversion routines of \<open>Utf8\<close>. The reference is the sequence of UTF-16
  units of a byte sequence, an ill-formed byte standing for U+FFFD.
\<close>

section \<open>Operations\<close>

text \<open>A string is narrow or wide by the flag \<open>is_wide_char\<close>.\<close>

datatype JSString = Str8 "u8 list" | Str16 "u16 list"

fun units :: "JSString \<Rightarrow> u16 list" where
  "units (Str8 s) = map ucast s"
| "units (Str16 s) = s"

datatype string_result = NewStr JSString | InvalidLength | OutOfMemory

abbreviation JS_STRING_LEN_MAX :: nat where "JS_STRING_LEN_MAX \<equiv> 2 ^ 30 - 1"

text \<open>The functions \<open>g8\<close> and \<open>g16\<close> are what the allocator left in the new string.\<close>

definition JS_NewStringLen :: "bool \<Rightarrow> (nat \<Rightarrow> u8) \<Rightarrow> (nat \<Rightarrow> u16) \<Rightarrow> u8 list \<Rightarrow> string_result res" where
  "JS_NewStringLen alloc_ok g8 g16 buf =
     (if length buf = 0 then Inr (NewStr (Str8 []))
      else
        res_bind (utf8_scan buf) (\<lambda>(kind, len).
          if len > JS_STRING_LEN_MAX then Inr InvalidLength
          else if \<not> alloc_ok then Inr OutOfMemory
          else if kind = UTF8_PLAIN_ASCII then Inr (NewStr (Str8 (take len buf)))
          else if kind = UTF8_NON_ASCII
          then res_bind (utf8_decode_buf8 (map g8 [0..<len + 1]) buf) (\<lambda>(d, _). Inr (NewStr (Str8 (take len d))))
          else res_bind (utf8_decode_buf16 (map g16 [0..<len]) buf) (\<lambda>(d, _). Inr (NewStr (Str16 d)))))"

text \<open>Writing at the end of the bytes produced so far, into an array of \<open>n\<close> bytes.\<close>

definition emit :: "nat \<Rightarrow> u8 list \<Rightarrow> u8 list \<Rightarrow> u8 list res" where
  "emit n q bs = (if length q + length bs \<le> n then Inr (q @ bs) else Inl BadPointer)"

fun to_cstring8 :: "nat \<Rightarrow> u8 list \<Rightarrow> u8 list \<Rightarrow> u8 list res" where
  "to_cstring8 n q [] = emit n q [0]"
| "to_cstring8 n q (b # s) =
     res_bind (emit n q (if b < 0x80 then [b] else [drop_bit 6 b OR 0xC0, (b AND 0x3F) OR 0x80])) (\<lambda>q1. to_cstring8 n q1 s)"

fun to_cstring16 :: "bool \<Rightarrow> nat \<Rightarrow> u8 list \<Rightarrow> u16 list \<Rightarrow> u8 list res" where
  "to_cstring16 cesu8 n q [] = emit n q [0]"
| "to_cstring16 cesu8 n q [x] =
     res_bind (emit n q (if x < 0x80 then [ucast x] else utf8_encode (ucast x))) (\<lambda>q1. to_cstring16 cesu8 n q1 [])"
| "to_cstring16 cesu8 n q (x # y # s) =
     (if x \<ge> 0x80 \<and> is_hi_surrogate (ucast x) \<and> \<not> cesu8 \<and> is_lo_surrogate (ucast y)
      then res_bind (emit n q (utf8_encode (from_surrogate (ucast x) (ucast y)))) (\<lambda>q1. to_cstring16 cesu8 n q1 s)
      else res_bind (emit n q (if x < 0x80 then [ucast x] else utf8_encode (ucast x))) (\<lambda>q1. to_cstring16 cesu8 n q1 (y # s)))"

text \<open>
  The result with its terminating zero byte; \<open>None\<close> when the allocation fails. Sizes are C \<open>int\<close>s: a
  product of three times the length that leaves that range is negative there, which the conversion to
  \<open>size_t\<close> turns into a request no allocator can meet. The argument is a string of the kind \<open>JS_STRING_KIND_NORMAL\<close>.
\<close>

definition alloc_string8 :: "bool \<Rightarrow> nat \<Rightarrow> nat option" where
  "alloc_string8 alloc_ok max_len = (if alloc_ok \<and> max_len < 2 ^ 31 then Some (max_len + 1) else None)"

definition JS_ToCStringLen2 :: "bool \<Rightarrow> bool \<Rightarrow> JSString \<Rightarrow> u8 list option res" where
  "JS_ToCStringLen2 alloc_ok cesu8 str =
     (case str of
        Str8 s \<Rightarrow>
          let count = sum_list (map (\<lambda>b. unat (drop_bit 7 b)) s)
          in if count = 0 then Inr (Some (s @ [0]))
             else (case alloc_string8 alloc_ok (length s + count) of
                     None \<Rightarrow> Inr None
                   | Some n \<Rightarrow> res_bind (to_cstring8 n [] s) (\<lambda>q. Inr (Some q)))
      | Str16 s \<Rightarrow>
          (case alloc_string8 alloc_ok (length s * 3) of
             None \<Rightarrow> Inr None
           | Some n \<Rightarrow> res_bind (to_cstring16 cesu8 n [] s) (\<lambda>q. Inr (Some q))))"

section \<open>The reference\<close>

text \<open>
  The encoding forms in the arithmetic of the Unicode standard, on natural numbers and independent of
  the code: the bytes of a code point, its 16-bit units, and the code point a text starts with, which
  is the one whose bytes are there. Where no code point's bytes are there, the text starts with
  U+FFFD, which stands for one byte. As in the code, the surrogates count as code points.
\<close>

definition utf8_bytes :: "nat \<Rightarrow> nat list" where
  "utf8_bytes n =
     (if n < 0x80 then [n]
      else if n < 0x800 then [0xC0 + n div 64, 0x80 + n mod 64]
      else if n < 0x10000 then [0xE0 + n div 4096, 0x80 + n div 64 mod 64, 0x80 + n mod 64]
      else [0xF0 + n div 262144, 0x80 + n div 4096 mod 64, 0x80 + n div 64 mod 64, 0x80 + n mod 64])"

definition utf16_units :: "nat \<Rightarrow> nat list" where
  "utf16_units n =
     (if n < 0x10000 then [n] else [0xD800 + (n - 0x10000) div 0x400, 0xDC00 + (n - 0x10000) mod 0x400])"

definition code_points :: "nat list" where
  "code_points = [0..<0x110000]"

definition first_char :: "nat list \<Rightarrow> nat \<times> nat" where
  "first_char p =
     (case find (\<lambda>n. take (length (utf8_bytes n)) p = utf8_bytes n) code_points of
        Some n \<Rightarrow> (n, length (utf8_bytes n))
      | None \<Rightarrow> (0xFFFD, 1))"

lemma first_char_pos: "0 < snd (first_char p)"
  by (simp add: first_char_def utf8_bytes_def split: option.splits)

function utf16_of :: "u8 list \<Rightarrow> u16 list" where
  "utf16_of [] = []"
| "utf16_of (b # q) =
     map of_nat (utf16_units (fst (first_char (map unat (b # q))))) @
     utf16_of (drop (snd (first_char (map unat (b # q)))) (b # q))"
  by pat_completeness auto
termination
proof (relation "measure length")
  fix b :: u8 and q
  show "(drop (snd (first_char (map unat (b # q)))) (b # q), b # q) \<in> measure length"
    using first_char_pos [of "map unat (b # q)"] by simp
qed simp

declare utf16_of.simps(2) [simp del] scan_loop.simps(2) [simp del] decode_loop16.simps(2) [simp del]

text \<open>The code's encoder and its surrogate arithmetic agree with the reference.\<close>

definition utf16_code :: "u32 \<Rightarrow> u16 list" where
  "utf16_code c = (if c > 0xFFFF then [ucast (get_hi_surrogate c), ucast (get_lo_surrogate c)] else [ucast c])"

lemma code_bound: "decoded p c k \<Longrightarrow> unat c < 0x110000"
  by (auto simp: decoded_def word_less_nat_alt)

lemma unat_code_bound: "c < 0x110000 \<longleftrightarrow> unat (c :: u32) < 0x110000"
  by (simp add: word_less_nat_alt)

lemma hi_surrogate_unat: "0x10000 \<le> unat c \<Longrightarrow> unat c < 0x110000 \<Longrightarrow> unat (get_hi_surrogate c) = unat c div 1024 - 64 + 0xD800"
proof -
  assume c: "0x10000 \<le> unat c" "unat c < 0x110000"
  have d: "drop_bit 10 (0x10000 :: u32) = 64" by simp
  have "64 \<le> unat c div 1024" "unat c div 1024 < 1088" using c by linarith+
  then have "unat (drop_bit 10 c - 64) = unat c div 1024 - 64"
    by (subst unat_sub_fit) (simp_all add: unat_shift_right)
  then show ?thesis using \<open>unat c div 1024 < 1088\<close> unfolding get_hi_surrogate_def d
    by (subst unat_add_fit) simp_all
qed

lemma lo_surrogate_unat: "unat (get_lo_surrogate c) = unat c mod 1024 + 0xDC00"
proof -
  have "unat (c AND 0x3FF) = unat c mod 1024" using unat_and_mask [of "0x3FF" 10 c] by simp
  moreover have "unat c mod 1024 < 1024" by simp
  ultimately show ?thesis
    unfolding get_lo_surrogate_def using unat_or_tag [of "c AND 0x3FF" 10 "0xDC00"] by simp
qed

lemma decode_len_encode:
  assumes "unat c < 0x110000"
  shows "utf8_decode_len (utf8_encode c @ p) = Inr (c, utf8_encode_len c)"
proof -
  have d: "utf8_decode (utf8_encode c @ p) = Inr (c, utf8_encode_len c)"
    using assms by (intro decode_encode) (simp add: word_less_nat_alt)
  have l: "length (utf8_encode c @ p) = utf8_encode_len c + length p" by simp
  have "unat c div 64 < 32" if "unat c < 0x800" using that by linarith
  moreover have "unat c div 4096 < 16" if "unat c < 0x10000" using that by linarith
  ultimately have h: "utf8_encode_len c \<le> 1 \<Longrightarrow> unat (hd (utf8_encode c)) < 0x80" "utf8_encode_len c \<le> 2 \<Longrightarrow> unat (hd (utf8_encode c)) < 0xE0"
      "utf8_encode_len c \<le> 3 \<Longrightarrow> unat (hd (utf8_encode c)) < 0xF0"
    using assms by (auto simp: utf8_encode_len_def utf8_encode_def word_less_nat_alt encode_bytes split: if_splits)
  have f: "(utf8_encode c @ p) ! 0 = hd (utf8_encode c)"
    using encode_len_pos [of c] encode_length [of c] by (cases "utf8_encode c") simp_all
  define n where "n = length (utf8_encode c @ p)"
  have n: "utf8_encode_len c \<le> n" "0 < n" using encode_len_pos [of c] unfolding n_def l by simp_all
  have "(utf8_encode c @ p) ! 0 < (if n = 1 then 0x80 else if n = 2 then 0xE0 else 0xF0)" if "\<not> 3 < n"
    using that n h unfolding f by (auto simp: word_less_nat_alt)
  moreover have "byte_at (utf8_encode c @ p) 0 = Inr ((utf8_encode c @ p) ! 0)"
    using n(2) by (simp add: byte_at_def n_def)
  ultimately show ?thesis
    using d n(2) unfolding utf8_decode_len_def Let_def n_def [symmetric] by auto
qed

lemma utf8_encode_bytes:
  assumes "unat c < 0x110000"
  shows "map unat (utf8_encode c) = utf8_bytes (unat c)"
proof -
  have "unat c div 64 < 32" if "unat c < 0x800" using that by linarith
  moreover have "unat c div 4096 < 16" if "unat c < 0x10000" using that by linarith
  moreover have "unat c div 262144 < 5" using assms by linarith
  ultimately show ?thesis
    using assms by (auto simp: utf8_encode_def utf8_bytes_def word_less_nat_alt encode_bytes ascii_byte)
qed

lemma utf16_code_units:
  assumes "unat c < 0x110000"
  shows "utf16_code c = map of_nat (utf16_units (unat c))"
proof (cases "unat c < 0x10000")
  case True
  then show ?thesis by (simp add: utf16_code_def utf16_units_def word_less_nat_alt word_unat_eq_iff unat_ucast_fit)
next
  case False
  then obtain d where d: "unat c = 0x10000 + d" by (metis le_iff_add not_less)
  have "unat c div 1024 - 64 = d div 1024" "unat c mod 1024 = d mod 1024"
    using mod_mult_self2 [of d 1024 64] div_mult_self2 [of 1024 d 64] by (simp_all add: d add.commute)
  then have "unat (get_hi_surrogate c) = 0xD800 + d div 1024" "unat (get_lo_surrogate c) = 0xDC00 + d mod 1024"
    using hi_surrogate_unat [of c] lo_surrogate_unat [of c] False assms by simp_all
  then have "(ucast (get_hi_surrogate c) :: u16) = of_nat (0xD800 + d div 1024)"
      "(ucast (get_lo_surrogate c) :: u16) = of_nat (0xDC00 + d mod 1024)"
    by (metis of_nat_unat)+
  then show ?thesis using False by (simp add: utf16_code_def utf16_units_def word_less_nat_alt d)
qed

lemma unat_code_point: "n < 0x110000 \<Longrightarrow> unat (of_nat n :: u32) = n"
  by (simp add: unsigned_of_nat take_bit_nat_eq_self)

lemma starts_with_iff:
  assumes "n < 0x110000"
  shows "take (length (utf8_bytes n)) (map unat p) = utf8_bytes n \<longleftrightarrow> (\<exists>q. p = utf8_encode (of_nat n) @ q)"
proof -
  have e: "utf8_bytes n = map unat (utf8_encode (of_nat n))"
    using utf8_encode_bytes [of "of_nat n"] assms by (simp add: unat_code_point)
  have "inj (unat :: u8 \<Rightarrow> nat)" by (simp add: inj_def word_unat_eq_iff)
  then have "map unat (take k p) = map unat (utf8_encode (of_nat n)) \<longleftrightarrow> take k p = utf8_encode (of_nat n)" for k
    by (simp add: inj_map_eq_map)
  then show ?thesis unfolding e take_map by (metis append_eq_conv_conj append_take_drop_id length_map)
qed

lemma first_char_some:
  assumes "unat c < 0x110000" "p = utf8_encode c @ q"
  shows "first_char (map unat p) = (unat c, utf8_encode_len c)"
proof -
  let ?Q = "\<lambda>n. take (length (utf8_bytes n)) (map unat p) = utf8_bytes n"
  have "?Q (unat c)" using starts_with_iff [OF assms(1), of p] assms(2) by auto
  then have "find ?Q code_points \<noteq> None"
    using assms(1) unfolding find_None_iff code_points_def by auto
  then obtain n where n: "find ?Q code_points = Some n" by blast
  then have b: "n < 0x110000" and "?Q n" unfolding find_Some_iff code_points_def by auto
  then obtain q' where "p = utf8_encode (of_nat n) @ q'" using starts_with_iff by blast
  then have "of_nat n = c"
    using decode_len_encode [of "of_nat n" q'] decode_len_encode [OF assms(1), of q] unat_code_point [OF b] assms(2) b by simp
  then have "n = unat c" using unat_code_point [OF b] by simp
  moreover have "length (utf8_bytes (unat c)) = utf8_encode_len c"
    using utf8_encode_bytes [OF assms(1), symmetric] by simp
  ultimately show ?thesis using n by (simp add: first_char_def)
qed

lemma first_char_decode:
  assumes "p \<noteq> []" "utf8_decode_len p = Inr (c, k)"
  shows "first_char (map unat p) = (unat c, k)"
proof (cases "\<exists>c' q. unat c' < 0x110000 \<and> p = utf8_encode c' @ q")
  case True
  then obtain c' q where "unat c' < 0x110000" "p = utf8_encode c' @ q" by blast
  then show ?thesis using first_char_some [of c' p q] decode_len_encode [of c' q] assms(2) by auto
next
  case False
  have "decoded p c k" using decode_len_sound [OF assms(1)] assms(2) by auto
  moreover have "\<not> (c < 0x110000 \<and> take k p = utf8_encode c)"
    using False append_take_drop_id [of k p] by (metis unat_code_bound)
  ultimately have c: "c = 0xFFFD" "k = 1" by (auto simp: decoded_def)
  have "take (length (utf8_bytes n)) (map unat p) \<noteq> utf8_bytes n" if "n < 0x110000" for n
    using starts_with_iff [OF that] False unat_code_point [OF that] that by metis
  then have "find (\<lambda>n. take (length (utf8_bytes n)) (map unat p) = utf8_bytes n) code_points = None"
    unfolding find_None_iff code_points_def by auto
  then show ?thesis by (simp add: first_char_def c)
qed

lemma utf16_of_decode:
  assumes "p \<noteq> []" "utf8_decode_len p = Inr (c, k)"
  shows "utf16_of p = utf16_code c @ utf16_of (drop k p)"
proof -
  have "unat c < 0x110000" using code_bound decode_len_sound [OF assms(1)] assms(2) by auto
  then show ?thesis
    using first_char_decode [OF assms] assms(1) utf16_code_units [of c] by (cases p) (simp_all add: utf16_of.simps(2))
qed

lemma utf16_step:
  assumes "p \<noteq> []"
  obtains c k where "utf8_decode_len p = Inr (c, k)" "decoded p c k" "utf16_of p = utf16_code c @ utf16_of (drop k p)"
  using decode_len_sound [OF assms] utf16_of_decode [OF assms] by blast

lemma ascii_decode:
  assumes "b < 0x80"
  shows "utf8_decode_len (b # q) = Inr (ucast b, 1)"
proof -
  have "unat b < 0x80" using assms by (simp add: word_nat_order)
  then show ?thesis
    using assms by (auto simp: utf8_decode_len_def Let_def utf8_decode_def word_nat_order unat_byte)
qed

lemma utf16_code_ascii: "b < 0x80 \<Longrightarrow> utf16_code (ucast (b :: u8)) = [ucast b]"
  by (auto simp: utf16_code_def word_unat_eq_iff unat_ucast_fit word_less_nat_alt unat_byte)


section \<open>Decoding\<close>

lemma put_at_at: "i < length dest \<Longrightarrow> put_at dest i x = take i dest @ [x] @ drop (Suc i) dest"
  by (simp add: put_at_def upd_conv_take_nth_drop)

lemma put_at_length [simp]: "length (put_at dest i x) = length dest"
  by (simp add: put_at_def)

text \<open>Overwriting from position \<open>i\<close> on, cut at the end of the destination.\<close>

definition overwrite :: "'a list \<Rightarrow> nat \<Rightarrow> 'a list \<Rightarrow> 'a list" where
  "overwrite dest i xs = take i dest @ take (length dest - i) xs @ drop (i + length xs) dest"

lemma overwrite_nil [simp]: "overwrite dest i [] = dest"
  by (simp add: overwrite_def)

lemma overwrite_put: "overwrite (put_at dest i x) (Suc i) xs = overwrite dest i (x # xs)"
proof (cases "i < length dest")
  case True
  then show ?thesis
    by (simp add: overwrite_def put_at_at Suc_diff_Suc [symmetric] min_absorb1 take_Suc_conv_app_nth add.commute)
next
  case False
  then show ?thesis by (simp add: overwrite_def put_at_def)
qed

lemma overwrite_all: "length xs \<le> length dest \<Longrightarrow> overwrite dest 0 xs = xs @ drop (length xs) dest"
  by (simp add: overwrite_def)

lemma decode_loop16_spec:
  "decode_loop16 dest i p = Inr (overwrite dest i (utf16_of p), i + length (utf16_of p))"
proof (induction "length p" arbitrary: dest i p rule: less_induct)
  case less
  show ?case
  proof (cases p)
    case (Cons b q)
    obtain c k where d: "utf8_decode_len p = Inr (c, k)" "decoded p c k" "utf16_of p = utf16_code c @ utf16_of (drop k p)"
      using utf16_step [of p] Cons by blast
    then have l: "length (drop k p) < length p" using decoded_step [OF d(2)] Cons by auto
    note IH = less [OF l]
    show ?thesis
    proof (cases "b < 0x80")
      case True
      then have "c = ucast b" "k = 1" using d(1) ascii_decode [of b q] Cons by simp_all
      then show ?thesis using IH [of "put_at dest i (ucast b)" "Suc i"] True d(3) Cons utf16_code_ascii [OF True]
        by (simp add: decode_loop16.simps(2) overwrite_put)
    next
      case False
      then show ?thesis
        using IH d(1,3) Cons
        by (simp add: decode_loop16.simps(2) utf16_code_def overwrite_put [symmetric])
    qed
  qed simp
qed

text \<open>The scan counts the units, and the flags say whether they all fit a byte.\<close>

abbreviation narrow :: "u16 list \<Rightarrow> bool" where
  "narrow us \<equiv> \<forall>u \<in> set us. unat u \<le> 0xFF"

lemma narrow_code:
  assumes "unat c < 0x110000"
  shows "narrow (utf16_code c) \<longleftrightarrow> unat c \<le> 0xFF"
proof (cases "unat c \<le> 0xFFFF")
  case True
  then show ?thesis by (simp add: utf16_code_def word_less_nat_alt unat_ucast_fit)
next
  case False
  then have "64 \<le> unat c div 1024" "unat c div 1024 < 1088" using assms by linarith+
  then have "unat (ucast (get_hi_surrogate c) :: u16) = unat c div 1024 - 64 + 0xD800"
    using hi_surrogate_unat [of c] False assms by (subst unat_ucast_fit) simp_all
  then show ?thesis using False by (auto simp: utf16_code_def word_less_nat_alt)
qed

lemma scan_loop_spec:
  "\<exists>kind'. scan_loop p kind len = Inr (kind', len + length (utf16_of p)) \<and>
     (narrow (utf16_of p) \<longrightarrow> kind' = kind) \<and> (bit kind 1 \<or> \<not> narrow (utf16_of p) \<longrightarrow> bit kind' 1)"
proof (induction "length p" arbitrary: kind len p rule: less_induct)
  case less
  show ?case
  proof (cases p)
    case (Cons b q)
    obtain c k where d: "utf8_decode_len p = Inr (c, k)" "decoded p c k" "utf16_of p = utf16_code c @ utf16_of (drop k p)"
      using utf16_step [of p] Cons by blast
    then have l: "length (drop k p) < length p" using decoded_step [OF d(2)] Cons by auto
    note IH = less [OF l]
    show ?thesis
    proof (cases "b < 0x80")
      case True
      then have "c = ucast b" "k = 1" using d(1) ascii_decode [of b q] Cons by simp_all
      moreover have "narrow [ucast b :: u16]" using unat_u8_less [of b] by (simp add: unat_ucast_fit)
      ultimately show ?thesis using IH [of kind "Suc len"] True d(3) Cons utf16_code_ascii [OF True]
        by (simp add: scan_loop.simps(2))
    next
      case False
      define kind' where "kind' = (let kind1 = (if k = 1 then kind OR UTF8_HAS_ERRORS else kind);
                 kind2 = (if c > 0xFF then kind1 OR UTF8_HAS_16BIT else kind1)
             in (if c > 0xFFFF then kind2 OR UTF8_HAS_NON_BMP1 else kind2))"
      have "\<not> unat b < 0x80" using False by (simp add: word_less_nat_alt)
      then have e: "k = 1 \<Longrightarrow> c = 0xFFFD"
        using d(2) unfolding Cons decoded_def
        by (auto simp: utf8_encode_len_def utf8_encode_def ascii_byte word_less_nat_alt split: if_splits)
      have n: "narrow (utf16_code c) \<longleftrightarrow> unat c \<le> 0xFF" by (rule narrow_code [OF code_bound [OF d(2)]])
      have "scan_loop p kind len = scan_loop (drop k p) kind' (len + length (utf16_code c))"
        using False d(1) Cons by (simp add: scan_loop.simps(2) kind'_def Let_def utf16_code_def)
      moreover have "unat c \<le> 0xFF \<Longrightarrow> kind' = kind"
        using e by (auto simp: kind'_def Let_def word_less_nat_alt)
      moreover have "bit kind 1 \<or> \<not> unat c \<le> 0xFF \<Longrightarrow> bit kind' 1"
        by (auto simp: kind'_def Let_def word_less_nat_alt bit_or_iff bit_0)
      ultimately show ?thesis
        using IH [of kind' "len + length (utf16_code c)"] n d(3) by auto
    qed
  qed simp
qed

lemma decode_loop8_spec:
  assumes "narrow (utf16_of p)" "i + length (utf16_of p) < length dest"
  shows "decode_loop8 dest i p =
    Inr (overwrite dest i (map ucast (utf16_of p) @ [0]), i + length (utf16_of p))"
  using assms
proof (induction "length p" arbitrary: dest i p rule: less_induct)
  case less
  show ?case
  proof (cases p)
    case (Cons b q)
    obtain c k where d: "utf8_decode_len p = Inr (c, k)" "decoded p c k" "utf16_of p = utf16_code c @ utf16_of (drop k p)"
      using utf16_step [of p] Cons by blast
    then have l: "length (drop k p) < length p" using decoded_step [OF d(2)] Cons by auto
    have c: "unat c \<le> 0xFF" using less.prems(1) d(3) narrow_code [OF code_bound [OF d(2)]] by auto
    then have u: "utf16_code c = [ucast c]" by (simp add: utf16_code_def word_less_nat_alt)
    have IH: "decode_loop8 (put_at dest i (ucast c)) (Suc i) (drop k p) =
        Inr (overwrite (put_at dest i (ucast c)) (Suc i) (map ucast (utf16_of (drop k p)) @ [0]), Suc i + length (utf16_of (drop k p)))"
      using less.prems d(3) u by (intro less.hyps [OF l]) auto
    have cc: "ucast (ucast c :: u16) = (ucast c :: u8)"
      using c by (simp add: word_unat_eq_iff unat_ucast_fit)
    have step: "decode_loop8 dest i p = decode_loop8 (put_at dest i (ucast c)) (Suc i) (drop k p)"
    proof (cases "b < 0x80")
      case True
      then have "c = ucast b" "k = 1" using d(1) ascii_decode [of b q] Cons by simp_all
      moreover have "ucast (ucast b :: u32) = b" using unat_u8_less [of b] by (simp add: word_unat_eq_iff unat_ucast_fit)
      moreover have "\<not> 0xC0 \<le> b" using True by (simp add: word_nat_order)
      ultimately show ?thesis using Cons by (cases q) simp_all
    next
      case False
      have b: "\<not> unat b < 0x80" using False by (simp add: word_less_nat_alt)
      have "c \<noteq> 0xFFFD" using c by auto
      then have e: "k = utf8_encode_len c" "take k p = utf8_encode c" "k \<le> length p"
        using d(2) unfolding decoded_def by blast+
      have c80: "\<not> unat c < 0x80"
      proof
        assume "unat c < 0x80"
        then have "take 1 p = [ucast c]" using e by (simp add: utf8_encode_len_def utf8_encode_def word_less_nat_alt)
        then show False using b \<open>unat c < 0x80\<close> Cons by (simp add: ascii_byte word_less_nat_alt)
      qed
      then have k: "k = 2" "take 2 p = [ucast (drop_bit 6 c OR 0xC0), ucast ((c AND 0x3F) OR 0x80)]"
        using e c by (simp_all add: utf8_encode_len_def utf8_encode_def word_less_nat_alt)
      then obtain b1 q1 where q: "q = b1 # q1" using e(3) Cons by (cases q) auto
      then have B: "unat b = 0xC0 + unat c div 64" "unat b1 = 0x80 + unat c mod 64"
        using k(2) c Cons lead_bytes(1) [of c] cont_byte [of c] by (simp_all add: word_less_nat_alt)
      let ?v = "push_bit 6 (ucast b) + ucast b1 - (push_bit 6 0xC0 + 0x80) :: u32"
      have s: "unat (push_bit 6 (ucast b :: u32)) = unat b * 64"
        using shifted [of "ucast b :: u32" 8 6] unat_u8_less [of b] by (simp add: unat_byte)
      have "unat (push_bit 6 (ucast b) + ucast b1 :: u32) = unat b * 64 + unat b1"
        using s unat_u8_less [of b] unat_u8_less [of b1] by (subst unat_add_fit) (simp_all add: unat_byte)
      moreover have "unat c div 64 * 64 + unat c mod 64 = unat c" by simp
      ultimately have "unat ?v = unat c"
        using B by (subst unat_sub_fit) simp_all
      then have "?v = c" by (simp add: word_unat_eq_iff)
      then have "(ucast ?v :: u8) = ucast c" by (rule arg_cong)
      moreover have "0xC0 \<le> b" using B(1) by (simp add: word_le_nat_alt)
      ultimately show ?thesis using Cons q k(1) by simp
    qed
    show ?thesis unfolding step IH d(3) u by (simp add: overwrite_put cc)
  qed (use less.prems in \<open>simp add: overwrite_def upd_conv_take_nth_drop\<close>)
qed

lemma high_bit: "0x80 \<le> b \<longleftrightarrow> bit (b :: u8) 7"
proof -
  have "unat b div 128 < 2" using unat_u8_less [of b] by linarith
  moreover have "bit b 7 \<longleftrightarrow> odd (unat b div 128)"
    using bit_unsigned_iff [of b 7, where 'a = nat] by (simp add: bit_iff_odd)
  ultimately have "bit b 7 \<longleftrightarrow> unat b div 128 = 1" by (auto simp: less_2_cases_iff)
  also have "\<dots> \<longleftrightarrow> 128 \<le> unat b" using unat_u8_less [of b] by linarith
  finally show ?thesis by (simp add: word_le_nat_alt)
qed

lemma bit_fold_or: "bit (fold (OR) p a) n \<longleftrightarrow> bit a n \<or> (\<exists>b \<in> set p. bit (b :: u8) n)"
  by (induction p arbitrary: a) (auto simp: bit_or_iff)

lemma narrow_bytes: "narrow (map ucast (p :: u8 list))"
proof -
  have "unat (ucast b :: u16) \<le> 0xFF" for b :: u8
    using unat_u8_less [of b] by (subst unat_ucast_fit) simp_all
  then show ?thesis by simp
qed

lemma cbits_high: "0x80 \<le> fold (OR) p (0 :: u8) \<longleftrightarrow> (\<exists>b \<in> set p. \<not> b < 0x80)"
  unfolding not_less high_bit bit_fold_or by simp

lemma utf16_ascii: "\<forall>b \<in> set p. b < 0x80 \<Longrightarrow> utf16_of p = map ucast p"
  by (induction p) (simp_all add: utf16_of_decode [OF _ ascii_decode] utf16_code_ascii)

lemma JS_NewStringLen_units:
  "\<exists>r. JS_NewStringLen ok g8 g16 buf = Inr r \<and>
     (r = InvalidLength \<longleftrightarrow> length (utf16_of buf) > JS_STRING_LEN_MAX) \<and>
     (r = OutOfMemory \<longrightarrow> \<not> ok) \<and>
     (\<forall>s. r = NewStr s \<longrightarrow> units s = utf16_of buf \<and> (narrow (utf16_of buf) \<longleftrightarrow> (\<exists>x. s = Str8 x)))"
proof (cases "buf = []")
  case False
  show ?thesis
  proof (cases "\<forall>b \<in> set buf. b < 0x80")
    case True
    then have "\<not> 0x80 \<le> fold (OR) buf (0 :: u8)"
      unfolding cbits_high by blast
    then have "utf8_scan buf = Inr (UTF8_PLAIN_ASCII, length buf)" by (simp add: utf8_scan_def Let_def)
    then show ?thesis using False utf16_ascii [OF True] narrow_bytes [of buf] by (auto simp: JS_NewStringLen_def)
  next
    case a: False
    then have "0x80 \<le> fold (OR) buf (0 :: u8)"
      unfolding cbits_high by blast
    moreover obtain kind where k: "scan_loop buf UTF8_NON_ASCII 0 = Inr (kind, length (utf16_of buf))"
        "narrow (utf16_of buf) \<longrightarrow> kind = 1" "\<not> narrow (utf16_of buf) \<longrightarrow> bit kind 1"
      using scan_loop_spec [of buf 1 0] by auto
    ultimately have s: "utf8_scan buf = Inr (kind, length (utf16_of buf))" by (simp add: utf8_scan_def Let_def)
    show ?thesis
    proof (cases "narrow (utf16_of buf)")
      case True
      have "decode_loop8 (map g8 [0..<length (utf16_of buf) + 1]) 0 buf =
          Inr (map ucast (utf16_of buf) @ [0], length (utf16_of buf))"
        using decode_loop8_spec [OF True, of 0 "map g8 [0..<length (utf16_of buf) + 1]"] by (simp add: overwrite_all)
      moreover have "map (ucast \<circ> (ucast :: u16 \<Rightarrow> u8)) (utf16_of buf) = utf16_of buf"
        using True by (intro map_idI) (auto simp: word_unat_eq_iff unat_ucast_fit)
      ultimately show ?thesis using False s k(2) True by (auto simp: JS_NewStringLen_def utf8_decode_buf8_def)
    next
      case w: False
      then have b: "bit kind 1" using k(3) by blast
      have "kind \<noteq> 0" "kind \<noteq> 1" by (intro notI; use b in \<open>simp add: bit_0\<close>)+
      then show ?thesis using False s w decode_loop16_spec [of "map g16 [0..<length (utf16_of buf)]" 0 buf]
        by (auto simp: JS_NewStringLen_def utf8_decode_buf16_def overwrite_all)
    qed
  qed
qed (auto simp: JS_NewStringLen_def)

section \<open>Encoding\<close>

function codes :: "u16 list \<Rightarrow> u32 list" where
  "codes [] = []"
| "codes (x # q) = fst (next_code (x # q)) # codes (snd (next_code (x # q)))"
  by pat_completeness auto
termination by (relation "measure length") (use next_code_step in auto)

lemma unat_unit: "unat (ucast (x :: u16) :: u32) = unat x"
  using unat_u16_less [of x] by (subst unat_ucast_fit) simp_all

lemma hi_range: "is_hi_surrogate c \<longleftrightarrow> unat c div 1024 = 54"
  by (simp add: is_hi_surrogate_def word_unat_eq_iff unat_shift_right)

lemma lo_range: "is_lo_surrogate c \<longleftrightarrow> unat c div 1024 = 55"
  by (simp add: is_lo_surrogate_def word_unat_eq_iff unat_shift_right)

lemma from_surrogate_unat: "unat (from_surrogate h l) = 65536 + 1024 * (unat h mod 1024) + unat l mod 1024"
proof -
  have m: "unat (x AND 1023) = unat x mod 1024" for x :: u32 using unat_and_mask [of 1023 10 x] by simp
  have b: "unat h mod 1024 < 1024" "unat l mod 1024 < 1024" by simp_all
  have "unat (1024 * (h AND 1023)) = 1024 * (unat h mod 1024)"
    using m [of h] b by (subst unat_mult_fit) simp_all
  then have "unat (65536 + 1024 * (h AND 1023)) = 65536 + 1024 * (unat h mod 1024)"
    using b by (subst unat_add_fit) simp_all
  then show ?thesis unfolding from_surrogate_def using m [of l] b by (subst unat_add_fit) simp_all
qed

lemma surrogate_pair:
  assumes "is_hi_surrogate (ucast (x :: u16))" "is_lo_surrogate (ucast (y :: u16))"
  shows "utf16_code (from_surrogate (ucast x) (ucast y)) = [x, y]" "unat (from_surrogate (ucast x) (ucast y)) < 0x110000"
    "0x10000 \<le> unat (from_surrogate (ucast x) (ucast y))"
proof -
  let ?c = "from_surrogate (ucast x) (ucast y)"
  have xy: "unat x div 1024 = 54" "unat y div 1024 = 55" using assms by (simp_all add: hi_range lo_range unat_unit)
  have c: "unat ?c = 65536 + 1024 * (unat x mod 1024) + unat y mod 1024" by (simp add: from_surrogate_unat unat_unit)
  have b: "unat x mod 1024 < 1024" "unat y mod 1024 < 1024" by simp_all
  show l: "unat ?c < 0x110000" "0x10000 \<le> unat ?c" using b unfolding c by linarith+
  have "unat ?c = (64 + unat x mod 1024) * 1024 + unat y mod 1024" unfolding c by simp
  then have "unat ?c div 1024 = 64 + unat x mod 1024" "unat ?c mod 1024 = unat y mod 1024"
    using b by (simp_all only: div_mult_self3 mod_mult_self3 div_less mod_less)
  then have "unat (get_hi_surrogate ?c) = unat x" "unat (get_lo_surrogate ?c) = unat y"
    using hi_surrogate_unat [OF l(2,1)] lo_surrogate_unat [of ?c] xy div_mult_mod_eq [of "unat x" 1024] div_mult_mod_eq [of "unat y" 1024]
    by simp_all
  then have "ucast (get_hi_surrogate ?c) = x" "ucast (get_lo_surrogate ?c) = y"
    using unat_u16_less by (simp_all add: word_unat_eq_iff unat_ucast_fit)
  then show "utf16_code ?c = [x, y]" using l(2) by (simp add: utf16_code_def word_less_nat_alt)
qed

lemma single_unit: "utf16_code (ucast (x :: u16)) = [x]"
proof -
  have "ucast (ucast x :: u32) = x" using unat_u16_less [of x] by (simp add: word_unat_eq_iff unat_ucast_fit unat_unit)
  then show ?thesis using unat_u16_less [of x] by (simp add: utf16_code_def word_less_nat_alt unat_unit)
qed

lemma next_code_units:
  "utf16_code (fst (next_code (x # q))) @ snd (next_code (x # q)) = x # q" "unat (fst (next_code (x # q))) < 0x110000"
proof -
  have "unat x < 0x110000" using unat_u16_less [of x] by linarith
  then show "utf16_code (fst (next_code (x # q))) @ snd (next_code (x # q)) = x # q" "unat (fst (next_code (x # q))) < 0x110000"
    by (auto simp: next_code.simps(2) Let_def single_unit surrogate_pair unat_unit)
qed

lemma codes_units: "concat (map utf16_code (codes s)) = s"
  by (induction s rule: codes.induct) (simp_all add: next_code_units(1))

lemma codes_bound: "\<forall>c \<in> set (codes s). unat c < 0x110000"
  by (induction s rule: codes.induct) (simp_all add: next_code_units(2))

lemma encode_nonempty [simp]: "utf8_encode c \<noteq> []"
  by (simp add: utf8_encode_def)

lemma utf16_of_encoded:
  "\<forall>c \<in> set cs. unat c < 0x110000 \<Longrightarrow> utf16_of (concat (map utf8_encode cs)) = concat (map utf16_code cs)"
proof (induction cs)
  case (Cons c cs)
  let ?p = "utf8_encode c @ concat (map utf8_encode cs)"
  have ne: "?p \<noteq> []" by simp
  obtain c' k where s: "utf8_decode_len ?p = Inr (c', k)" "utf16_of ?p = utf16_code c' @ utf16_of (drop k ?p)"
    using utf16_step [OF ne] by metis
  have "utf8_decode_len ?p = Inr (c, utf8_encode_len c)" using Cons.prems by (intro decode_len_encode) simp
  then have "c' = c" "k = utf8_encode_len c" using s(1) by simp_all
  then show ?case using s(2) Cons by simp
qed simp

lemma to_cstring16_spec:
  assumes "length q + 3 * length s < n"
  shows "to_cstring16 False n q s = Inr (q @ concat (map utf8_encode (codes s)) @ [0])"
  using assms
proof (induction "length s" arbitrary: q s rule: less_induct)
  case less
  show ?case
  proof (cases s)
    case Nil
    then show ?thesis using less.prems by (simp add: emit_def)
  next
    case (Cons x t)
    let ?c = "fst (next_code s)" and ?r = "snd (next_code s)"
    have one: "(if x < 0x80 then [ucast x] else utf8_encode (ucast x)) = utf8_encode (ucast x)"
    proof (cases "x < 0x80")
      case True
      then have "(ucast x :: u32) < 0x80" "ucast x = (ucast (ucast x :: u32) :: u8)"
        using unat_u16_less [of x] by (simp_all add: word_less_nat_alt unat_unit word_unat_eq_iff unat_ucast_fit)
      then show ?thesis using True by (simp add: utf8_encode_def)
    qed simp
    have l: "utf8_encode_len (ucast x) \<le> 3" for x :: u16
      using unat_u16_less [of x] by (simp add: utf8_encode_len_def word_less_nat_alt unat_unit)
    have f: "length q + utf8_encode_len ?c + 3 * length ?r < n"
      using less.prems Cons l [of x]
      by (cases t) (auto simp: next_code.simps(2) Let_def utf8_encode_len_def split: if_splits)
    have lt: "length ?r < length s" using next_code_step Cons by simp
    have IH: "to_cstring16 False n (q @ utf8_encode ?c) ?r = Inr (q @ utf8_encode ?c @ concat (map utf8_encode (codes ?r)) @ [0])"
      using less.hyps [OF lt, of "q @ utf8_encode ?c"] f by simp
    have "to_cstring16 False n q s = res_bind (emit n q (utf8_encode ?c)) (\<lambda>q1. to_cstring16 False n q1 ?r)"
    proof (cases t)
      case Nil
      then show ?thesis using Cons one by (simp add: next_code.simps(2) Let_def)
    next
      case C: (Cons y u)
      have "x < 0x80 \<Longrightarrow> (ucast x :: u32) < 0x80" "(ucast x :: u32) < 0x80 \<Longrightarrow> x < 0x80"
        by (simp_all add: word_less_nat_alt unat_unit)
      then show ?thesis using Cons C one by (auto simp: next_code.simps(2) Let_def not_less)
    qed
    then show ?thesis using IH f Cons by (simp add: emit_def)
  qed
qed

lemma encode_byte:
  "(if b < 0x80 then [b] else [drop_bit 6 b OR 0xC0, (b AND 0x3F) OR 0x80]) = utf8_encode (ucast (b :: u8))"
  "utf8_encode_len (ucast b) = 1 + unat (drop_bit 7 b)"
proof -
  have u: "unat (ucast b :: u32) = unat b" by (rule unat_byte)
  have m: "unat (b AND 0x3F) = unat b mod 64" using unat_and_mask [of "0x3F" 6 b] by simp
  have "unat b mod 64 < 64" "unat b div 64 < 4" using unat_u8_less [of b] by (simp, linarith)
  then have "unat (drop_bit 6 b OR 0xC0) = unat b div 64 + 0xC0" "unat ((b AND 0x3F) OR 0x80) = unat b mod 64 + 0x80"
    using unat_or_tag [of "drop_bit 6 b" 2 "0xC0"] unat_or_tag [of "b AND 0x3F" 6 "0x80"] m by (simp_all add: unat_shift_right)
  then show "(if b < 0x80 then [b] else [drop_bit 6 b OR 0xC0, (b AND 0x3F) OR 0x80]) = utf8_encode (ucast (b :: u8))"
    using unat_u8_less [of b] u
    by (auto simp: utf8_encode_def word_less_nat_alt word_unat_eq_iff encode_bytes)
  have "unat b div 128 = (if unat b < 128 then 0 else 1)" using unat_u8_less [of b] by (simp; linarith)
  then show "utf8_encode_len (ucast b) = 1 + unat (drop_bit 7 b)"
    using unat_u8_less [of b] u by (simp add: utf8_encode_len_def word_less_nat_alt unat_shift_right)
qed

lemma to_cstring8_spec:
  assumes "length q + length s + sum_list (map (\<lambda>b. unat (drop_bit 7 b)) s) < n"
  shows "to_cstring8 n q s = Inr (q @ concat (map (utf8_encode \<circ> ucast) s) @ [0])"
  using assms
proof (induction s arbitrary: q)
  case (Cons b s)
  then show ?case using Cons.IH [of "q @ utf8_encode (ucast b)"] encode_byte(2) [of b]
    by (simp only: to_cstring8.simps encode_byte(1)) (simp add: emit_def)
qed (simp add: emit_def)

lemma next_code_narrow: "next_code (ucast b # map ucast s) = (ucast (b :: u8), map ucast (s :: u8 list))"
proof -
  have u: "unat (ucast (ucast b :: u16) :: u32) = unat b"
    using unat_u8_less [of b] by (simp add: unat_unit unat_ucast_fit)
  then have "\<not> is_hi_surrogate (ucast (ucast b :: u16))" using unat_u8_less [of b] by (simp add: hi_range)
  moreover have "ucast (ucast b :: u16) = (ucast b :: u32)" using u by (simp add: word_unat_eq_iff unat_byte)
  ultimately show ?thesis by (simp add: next_code.simps(2) Let_def)
qed

lemma codes_narrow: "codes (map ucast (s :: u8 list)) = map ucast s"
  by (induction s) (simp_all add: next_code_narrow)

lemma encode_count16_length: "encode_count16 s = length (concat (map utf8_encode (codes s)))"
  by (induction s rule: codes.induct) simp_all

lemma overwrite_append:
  assumes "i + length xs \<le> length dest"
  shows "overwrite (take i dest @ xs @ drop (i + length xs) dest) (i + length xs) ys = overwrite dest i (xs @ ys)"
  using assms by (simp add: overwrite_def ac_simps)

lemma encode_loop16_spec:
  assumes "j < length dest"
  shows "\<exists>m. encode_loop16 dest j s =
      (overwrite dest j (concat (map utf8_encode (take m (codes s))) @ [0]), j + length (concat (map utf8_encode (codes s)))) \<and>
    j + length (concat (map utf8_encode (take m (codes s)))) < length dest \<and>
    (codes s = take m (codes s) \<or> length dest \<le> j + length (concat (map utf8_encode (take (Suc m) (codes s)))))"
  using assms
proof (induction "length s" arbitrary: dest j s rule: less_induct)
  case less
  have nul: "overwrite dest j [0] = put_at dest j 0" using less.prems by (simp add: overwrite_def put_at_at Suc_diff_Suc [symmetric])
  show ?case
  proof (cases s)
    case Nil
    then show ?thesis using less.prems nul by simp
  next
    case (Cons x t)
    let ?c = "fst (next_code s)" and ?r = "snd (next_code s)"
    have cs: "codes s = ?c # codes ?r" using Cons by simp
    show ?thesis
    proof (cases "j + utf8_encode_len ?c \<ge> length dest")
      case True
      then show ?thesis using Cons nul less.prems cs by (intro exI [of _ 0]) (simp add: Let_def encode_count16_length)
    next
      case False
      let ?d = "take j dest @ utf8_encode ?c @ drop (j + utf8_encode_len ?c) dest"
      have lt: "length ?r < length s" using next_code_step Cons by simp
      have ld: "length ?d = length dest" using False by simp
      obtain m where m: "encode_loop16 ?d (j + utf8_encode_len ?c) ?r =
            (overwrite ?d (j + utf8_encode_len ?c) (concat (map utf8_encode (take m (codes ?r))) @ [0]),
             j + utf8_encode_len ?c + length (concat (map utf8_encode (codes ?r))))"
          "j + utf8_encode_len ?c + length (concat (map utf8_encode (take m (codes ?r)))) < length dest"
          "codes ?r = take m (codes ?r) \<or> length dest \<le> j + utf8_encode_len ?c + length (concat (map utf8_encode (take (Suc m) (codes ?r))))"
        using less.hyps [OF lt, of "j + utf8_encode_len ?c" ?d] False ld by (auto simp del: length_append)
      have "overwrite ?d (j + utf8_encode_len ?c) (concat (map utf8_encode (take m (codes ?r))) @ [0]) =
          overwrite dest j (utf8_encode ?c @ concat (map utf8_encode (take m (codes ?r))) @ [0])"
        using overwrite_append [of j "utf8_encode ?c" dest] False by simp
      then show ?thesis
        using m False Cons unfolding cs by (intro exI [of _ "Suc m"]) (auto simp: Let_def)
    qed
  qed
qed

lemma count8: "sum_list (map (\<lambda>x. 1 + of_bool (x \<ge> 0x80)) s) = encode_count16 (map ucast (s :: u8 list))"
proof -
  have "utf8_encode_len (ucast b) = 1 + of_bool (b \<ge> 0x80)" for b :: u8
    using unat_u8_less [of b] by (simp add: utf8_encode_len_def word_nat_order unat_byte)
  then show ?thesis by (induction s) (simp_all add: next_code_narrow)
qed

lemma encode_loop8_16: "encode_loop8 dest j s = encode_loop16 dest j (map ucast s)"
proof (induction s arbitrary: dest j)
  case (Cons b s)
  have two: "dest[j := x, j + 1 := y] = take j dest @ [x, y] @ drop (j + 2) dest" if "j + 2 < length dest" for x y
    using that by (simp add: upd_conv_take_nth_drop take_Suc_conv_app_nth min_absorb1 Cons_nth_drop_Suc [symmetric])
  have one: "dest[j := x] = take j dest @ [x] @ drop (j + 1) dest" if "j + 1 < length dest" for x
    using that by (simp add: upd_conv_take_nth_drop)
  show ?case
  proof (cases "b < 0x80")
    case True
    then have "utf8_encode (ucast b) = [b]" "utf8_encode_len (ucast b) = 1"
      using encode_byte(1) [of b] by (simp_all add: utf8_encode_len_def word_less_nat_alt unat_byte)
    then show ?thesis
      using True Cons.IH one [of b] count8 [of "b # s"] by (simp add: Let_def next_code_narrow del: encode_count16.simps)
  next
    case False
    then have "utf8_encode (ucast b) = [drop_bit 6 b OR 0xC0, (b AND 0x3F) OR 0x80]" "utf8_encode_len (ucast b) = 2"
      using encode_byte(1) [of b] unat_u8_less [of b] by (simp_all add: utf8_encode_len_def word_less_nat_alt unat_byte)
    then show ?thesis
      using False Cons.IH two count8 [of "b # s"] by (simp add: Let_def next_code_narrow del: encode_count16.simps)
  qed
qed simp

lemma to_cstring_bytes:
  assumes "length (units s) \<le> JS_STRING_LEN_MAX"
  shows "\<exists>r. JS_ToCStringLen2 ok False s = Inr r \<and> (r = None \<longrightarrow> \<not> ok \<or> 2 ^ 31 \<le> 3 * length (units s)) \<and>
    (\<forall>q. r = Some q \<longrightarrow> q = concat (map utf8_encode (codes (units s))) @ [0])"
proof (cases s)
  case (Str8 x)
  let ?count = "sum_list (map (\<lambda>b. unat (drop_bit 7 b)) x)"
  have b: "unat (drop_bit 7 b) \<le> 1" for b :: u8
    using unat_u8_less [of b] by (simp add: unat_shift_right)
  then have cl: "?count \<le> length x"
    using sum_list_mono [of x "\<lambda>b. unat (drop_bit 7 b)" "\<lambda>_. 1"] by (simp add: sum_list_triv)
  have bytes: "concat (map utf8_encode (codes (units s))) = concat (map (utf8_encode \<circ> ucast) x)"
    using Str8 by (simp add: codes_narrow)
  show ?thesis
  proof (cases "?count = 0")
    case True
    then have "\<forall>b \<in> set x. unat (drop_bit 7 b) = 0" by simp
    then have "b < 0x80" if "b \<in> set x" for b
      using that by (auto simp: unat_shift_right word_less_nat_alt div_eq_0_iff)
    then have "utf8_encode (ucast b) = [b]" if "b \<in> set x" for b
      using that encode_byte(1) [of b] by simp
    then have "concat (map (utf8_encode \<circ> ucast) x) = x" by (induction x) simp_all
    then show ?thesis using True Str8 bytes by (simp add: JS_ToCStringLen2_def)
  next
    case False
    have "length x + ?count < 2 ^ 31" using cl assms Str8 by simp
    then show ?thesis
      using False Str8 bytes to_cstring8_spec [of "[]" x "length x + ?count + 1"]
      by (auto simp: JS_ToCStringLen2_def alloc_string8_def)
  qed
next
  case (Str16 x)
  then show ?thesis
    using to_cstring16_spec [of "[]" x "length x * 3 + 1"] by (auto simp: JS_ToCStringLen2_def alloc_string8_def)
qed

section \<open>Properties\<close>

text \<open>
  C8. Every byte sequence becomes a string and nothing beyond it is read: \<open>JS_NewStringLen\<close> returns. It
  reports an invalid length exactly when there are more units than a string may hold, and out of
  memory only when the allocation fails. Otherwise the new string has the UTF-16 units of the text, as
  the arithmetic of the Unicode encoding forms gives them with each byte that starts no code point
  read as U+FFFD, stored narrow exactly when all of them fit a byte, whatever the allocator left in
  the new memory.
\<close>

theorem new_string_exact:
  "\<exists>r. JS_NewStringLen ok g8 g16 buf = Inr r \<and>
     (r = InvalidLength \<longleftrightarrow> length (utf16_of buf) > JS_STRING_LEN_MAX) \<and>
     (r = OutOfMemory \<longrightarrow> \<not> ok) \<and>
     (\<forall>s. r = NewStr s \<longrightarrow> units s = utf16_of buf \<and> (narrow (utf16_of buf) \<longleftrightarrow> (\<exists>x. s = Str8 x)))"
  by (rule JS_NewStringLen_units)

theorem new_string_exact_witness:
  "\<exists>s. JS_NewStringLen True (\<lambda>_. 7) (\<lambda>_. 7) [0x41, 0xC3, 0xA9, 0xFF] = Inr (NewStr s) \<and> units s = [0x41, 0xE9, 0xFFFD]"
proof -
  have u: "utf16_of [0x41, 0xC3, 0xA9, 0xFF] = [0x41, 0xE9, 0xFFFD]"
    by (simp add: utf16_of_decode utf8_decode_len_def utf8_decode_def byte_in_def Let_def utf16_code_def)
  obtain r where "JS_NewStringLen True (\<lambda>_. 7) (\<lambda>_. 7) [0x41, 0xC3, 0xA9, 0xFF] = Inr r" "r \<noteq> InvalidLength" "r \<noteq> OutOfMemory"
      "\<forall>s. r = NewStr s \<longrightarrow> units s = [0x41, 0xE9, 0xFFFD]"
    using new_string_exact [of True "\<lambda>_. 7" "\<lambda>_. 7" "[0x41, 0xC3, 0xA9, 0xFF]"] unfolding u by auto
  then show ?thesis by (cases r) auto
qed

text \<open>
  C7. Strings survive the trip through UTF-8. Writing a string of any units, unpaired surrogates
  included, to UTF-8 never overruns the buffer allocated for it; it fails only when the allocation does
  or its size passes the range of a C \<open>int\<close>; and reading the bytes back gives a string with the same
  units.
\<close>

theorem string_round_trip:
  assumes "length (units s) \<le> JS_STRING_LEN_MAX"
  shows "\<exists>r. JS_ToCStringLen2 ok False s = Inr r \<and> (r = None \<longrightarrow> \<not> ok \<or> 2 ^ 31 \<le> 3 * length (units s)) \<and>
    (\<forall>q. r = Some q \<longrightarrow>
       (\<exists>b t. q = b @ [0] \<and> JS_NewStringLen True g8 g16 b = Inr (NewStr t) \<and> units t = units s))"
proof -
  let ?b = "concat (map utf8_encode (codes (units s)))"
  have u: "utf16_of ?b = units s"
    using utf16_of_encoded [OF codes_bound [of "units s"]] codes_units [of "units s"] by simp
  obtain r where r: "JS_NewStringLen True g8 g16 ?b = Inr r" "r = InvalidLength \<longleftrightarrow> length (units s) > JS_STRING_LEN_MAX"
      "r = OutOfMemory \<longrightarrow> \<not> True" "\<forall>s'. r = NewStr s' \<longrightarrow> units s' = units s"
    using JS_NewStringLen_units [of True g8 g16 ?b] unfolding u by blast
  have "r \<noteq> InvalidLength" using r(2) assms by linarith
  then obtain t where "r = NewStr t" using r(3) by (cases r) simp_all
  then have "JS_NewStringLen True g8 g16 ?b = Inr (NewStr t)" "units t = units s" using r(1,4) by simp_all
  then show ?thesis using to_cstring_bytes [OF assms, of ok] by blast
qed

theorem string_round_trip_witness:
  "\<exists>b t. JS_ToCStringLen2 True False (Str16 [0xD83D, 0xDE00, 0xD800, 0x20AC]) = Inr (Some (b @ [0])) \<and>
     JS_NewStringLen True (\<lambda>_. 0) (\<lambda>_. 0) b = Inr (NewStr t) \<and> units t = [0xD83D, 0xDE00, 0xD800, 0x20AC]"
proof -
  obtain r where r: "JS_ToCStringLen2 True False (Str16 [0xD83D, 0xDE00, 0xD800, 0x20AC]) = Inr r" "r \<noteq> None"
      "\<forall>q. r = Some q \<longrightarrow> (\<exists>b t. q = b @ [0] \<and> JS_NewStringLen True (\<lambda>_. 0) (\<lambda>_. 0) b = Inr (NewStr t) \<and>
         units t = [0xD83D, 0xDE00, 0xD800, 0x20AC])"
    using string_round_trip [of "Str16 [0xD83D, 0xDE00, 0xD800, 0x20AC]" True "\<lambda>_. 0" "\<lambda>_. 0"] by auto
  then obtain q where q: "r = Some q" by blast
  then obtain b t where "q = b @ [0]" "JS_NewStringLen True (\<lambda>_. 0) (\<lambda>_. 0) b = Inr (NewStr t)" "units t = [0xD83D, 0xDE00, 0xD800, 0x20AC]"
    using r(3) by blast
  then show ?thesis using r(1) q by blast
qed



end
