(* ===== verification/DynBuf.thy ===== *)
theory DynBuf
  imports Bits
begin

text \<open>
  The growable byte buffer of the engine (\<open>src/cutils.h\<close>, \<open>DynBuf\<close>, \<open>dbuf_init2\<close> to \<open>dbuf_free\<close>). The
  allocated bytes are a list of length \<open>allocated_size\<close>; a write outside it is the fault \<open>BadPointer\<close>.
  The reallocation function is a parameter with the contract of \<open>realloc\<close>; an append either adds the
  bytes at the end or reports an error and keeps the contents.
\<close>

section \<open>Operations\<close>

record DynBuf =
  bytes :: "u8 list"
  db_size :: size_t
  allocated_size :: size_t
  db_error :: bool

type_synonym reallocator = "u8 list \<Rightarrow> size_t \<Rightarrow> u8 list option"

definition dbuf_init2 :: DynBuf where
  "dbuf_init2 = \<lparr>bytes = [], db_size = 0, allocated_size = 0, db_error = False\<rparr>"

definition dbuf_init :: DynBuf where
  "dbuf_init = dbuf_init2"

text \<open>The Boolean results say whether the C function returned 0.\<close>

definition dbuf_claim :: "reallocator \<Rightarrow> DynBuf \<Rightarrow> size_t \<Rightarrow> DynBuf \<times> bool" where
  "dbuf_claim re s len =
     (let new_size = db_size s + len
      in if new_size < len then (s, False)
         else if new_size > allocated_size s
         then
           (if db_error s then (s, False)
            else
              let sz = allocated_size s + allocated_size s div 2;
                  new_allocated_size = (if sz < new_size \<or> sz < allocated_size s then new_size else sz)
              in (case re (bytes s) new_allocated_size of
                    None \<Rightarrow> (s\<lparr>db_error := True\<rparr>, False)
                  | Some b \<Rightarrow> (s\<lparr>bytes := b, allocated_size := new_allocated_size\<rparr>, True)))
         else (s, True))"

text \<open>\<open>memcpy\<close> into the buffer at an offset.\<close>

definition db_write :: "DynBuf \<Rightarrow> size_t \<Rightarrow> u8 list \<Rightarrow> DynBuf res" where
  "db_write s off data =
     (if unat off + length data \<le> length (bytes s)
      then Inr (s\<lparr>bytes := take (unat off) (bytes s) @ data @ drop (unat off + length data) (bytes s)\<rparr>)
      else Inl BadPointer)"

definition db_read :: "DynBuf \<Rightarrow> size_t \<Rightarrow> nat \<Rightarrow> u8 list res" where
  "db_read s off n =
     (if unat off + n \<le> length (bytes s) then Inr (take n (drop (unat off) (bytes s))) else Inl BadPointer)"

definition dbuf_put :: "reallocator \<Rightarrow> DynBuf \<Rightarrow> u8 list \<Rightarrow> (DynBuf \<times> bool) res" where
  "dbuf_put re s data =
     (let len = of_nat (length data);
          (s1, ok) = (if db_size s + len > allocated_size s then dbuf_claim re s len else (s, True))
      in if \<not> ok then Inr (s1, False)
         else if len > 0
         then res_bind (db_write s1 (db_size s1) data) (\<lambda>s2. Inr (s2\<lparr>db_size := db_size s2 + len\<rparr>, True))
         else Inr (s1, True))"

definition dbuf_put_self :: "reallocator \<Rightarrow> DynBuf \<Rightarrow> size_t \<Rightarrow> size_t \<Rightarrow> (DynBuf \<times> bool) res" where
  "dbuf_put_self re s offset len =
     (let (s1, ok) = (if db_size s + len > allocated_size s then dbuf_claim re s len else (s, True))
      in if \<not> ok then Inr (s1, False)
         else if len > 0
         then res_bind (db_read s1 offset (unat len)) (\<lambda>data.
                res_bind (db_write s1 (db_size s1) data) (\<lambda>s2. Inr (s2\<lparr>db_size := db_size s2 + len\<rparr>, True)))
         else Inr (s1, True))"

text \<open>The bytes of a machine word, least significant first.\<close>

definition le_bytes :: "nat \<Rightarrow> 'a::len word \<Rightarrow> u8 list" where
  "le_bytes n v = map (\<lambda>i. ucast (drop_bit (8 * i) v)) [0..<n]"

definition dbuf_putc_slow :: "reallocator \<Rightarrow> DynBuf \<Rightarrow> u8 \<Rightarrow> (DynBuf \<times> bool) res" where
  "dbuf_putc_slow re s c = dbuf_put re s [c]"

definition dbuf_put_u16_slow :: "reallocator \<Rightarrow> DynBuf \<Rightarrow> u16 \<Rightarrow> (DynBuf \<times> bool) res" where
  "dbuf_put_u16_slow re s v = dbuf_put re s (le_bytes 2 v)"

definition dbuf_put_u32_slow :: "reallocator \<Rightarrow> DynBuf \<Rightarrow> u32 \<Rightarrow> (DynBuf \<times> bool) res" where
  "dbuf_put_u32_slow re s v = dbuf_put re s (le_bytes 4 v)"

definition dbuf_put_u64_slow :: "reallocator \<Rightarrow> DynBuf \<Rightarrow> u64 \<Rightarrow> (DynBuf \<times> bool) res" where
  "dbuf_put_u64_slow re s v = dbuf_put re s (le_bytes 8 v)"

text \<open>The inline fast paths.\<close>

definition db_fast :: "DynBuf \<Rightarrow> u8 list \<Rightarrow> (DynBuf \<times> bool) res" where
  "db_fast s data =
     res_bind (db_write s (db_size s) data) (\<lambda>s1. Inr (s1\<lparr>db_size := db_size s1 + of_nat (length data)\<rparr>, True))"

definition dbuf_putc :: "reallocator \<Rightarrow> DynBuf \<Rightarrow> u8 \<Rightarrow> (DynBuf \<times> bool) res" where
  "dbuf_putc re s v = (if allocated_size s - db_size s < 1 then dbuf_putc_slow re s v else db_fast s [v])"

definition dbuf_put_u16 :: "reallocator \<Rightarrow> DynBuf \<Rightarrow> u16 \<Rightarrow> (DynBuf \<times> bool) res" where
  "dbuf_put_u16 re s v = (if allocated_size s - db_size s < 2 then dbuf_put_u16_slow re s v else db_fast s (le_bytes 2 v))"

definition dbuf_put_u32 :: "reallocator \<Rightarrow> DynBuf \<Rightarrow> u32 \<Rightarrow> (DynBuf \<times> bool) res" where
  "dbuf_put_u32 re s v = (if allocated_size s - db_size s < 4 then dbuf_put_u32_slow re s v else db_fast s (le_bytes 4 v))"

definition dbuf_put_u64 :: "reallocator \<Rightarrow> DynBuf \<Rightarrow> u64 \<Rightarrow> (DynBuf \<times> bool) res" where
  "dbuf_put_u64 re s v = (if allocated_size s - db_size s < 8 then dbuf_put_u64_slow re s v else db_fast s (le_bytes 8 v))"

text \<open>A C string: the bytes up to the first zero.\<close>

definition dbuf_putstr :: "reallocator \<Rightarrow> DynBuf \<Rightarrow> u8 list \<Rightarrow> (DynBuf \<times> bool) res" where
  "dbuf_putstr re s str = dbuf_put re s (takeWhile (\<lambda>b. b \<noteq> 0) str)"

text \<open>
  \<open>dbuf_printf\<close>, with what \<open>vsnprintf\<close> produces as argument. \<open>Some\<close> is a text: \<open>vsnprintf\<close> returns its
  length, an \<open>int\<close>, and writes at most the room it is given, the terminating zero included; the room
  asked for is one more, computed in \<open>int\<close> and converted to \<open>size_t\<close>. \<open>None\<close> is an output error:
  \<open>vsnprintf\<close> returns \<open>-1\<close>, which passes the test for the fast case, and \<open>dbuf_put\<close> is called with the
  length \<open>SIZE_MAX\<close>, more than the 128 bytes it copies from.
\<close>

definition dbuf_printf :: "reallocator \<Rightarrow> DynBuf \<Rightarrow> u8 list option \<Rightarrow> (DynBuf \<times> bool) res" where
  "dbuf_printf re s printed =
     (case printed of
        None \<Rightarrow>
          let (s1, ok) = (if db_size s + (- 1) > allocated_size s then dbuf_claim re s (- 1) else (s, True))
          in if \<not> ok then Inr (s1, False) else Inl BadPointer
      | Some txt \<Rightarrow>
          if length txt < 128 then dbuf_put re s txt
          else
            (case dbuf_claim re s (scast (of_nat (length txt) + 1 :: u32)) of
               (s1, ok) \<Rightarrow>
                 if \<not> ok then Inr (s1, False)
                 else
                   let room = unat (allocated_size s1 - db_size s1)
                   in res_bind (if room = 0 then Inr s1 else db_write s1 (db_size s1) (take (room - 1) txt @ [0])) (\<lambda>s2.
                        Inr (s2\<lparr>db_size := db_size s2 + of_nat (length txt)\<rparr>, True))))"

definition dbuf_free :: "DynBuf \<Rightarrow> DynBuf" where
  "dbuf_free s = dbuf_init2"

definition dbuf_error :: "DynBuf \<Rightarrow> bool" where
  "dbuf_error s = db_error s"

definition dbuf_set_error :: "DynBuf \<Rightarrow> DynBuf" where
  "dbuf_set_error s = s\<lparr>db_error := True\<rparr>"

section \<open>Contract\<close>

definition dbuf_ok :: "DynBuf \<Rightarrow> bool" where
  "dbuf_ok s \<longleftrightarrow>
     length (bytes s) = unat (allocated_size s) \<and> db_size s \<le> allocated_size s \<and> unat (allocated_size s) < 2 ^ 63"

definition contents :: "DynBuf \<Rightarrow> u8 list" where
  "contents s = take (unat (db_size s)) (bytes s)"

text \<open>
  What \<open>realloc\<close> promises: a block of the size asked for that starts with the old bytes; no object is
  larger than half the address space.
\<close>

definition keeps_bytes :: "reallocator \<Rightarrow> bool" where
  "keeps_bytes re \<longleftrightarrow>
     (\<forall>old n new. re old n = Some new \<longrightarrow>
        unat n < 2 ^ 63 \<and> length new = unat n \<and> take (min (length old) (unat n)) new = take (min (length old) (unat n)) old)"

text \<open>An append that keeps the buffer well formed and adds the data or leaves the contents.\<close>

definition appends :: "u8 list \<Rightarrow> DynBuf \<Rightarrow> (DynBuf \<times> bool) res \<Rightarrow> bool" where
  "appends data s r \<longleftrightarrow>
     (case r of Inl _ \<Rightarrow> False
      | Inr (s', ok) \<Rightarrow>
          dbuf_ok s' \<and> contents s' = (if ok then contents s @ data else contents s) \<and> dbuf_error s' = (dbuf_error s \<or> \<not> ok))"

lemma claim_cases:
  assumes "dbuf_claim re s len = (s', ok)"
  obtains "s' = s" "ok \<longrightarrow> \<not> db_size s + len < len \<and> db_size s + len \<le> allocated_size s"
      "\<not> ok \<longrightarrow> db_error s \<or> db_size s + len < len"
    | "s' = s\<lparr>db_error := True\<rparr>" "\<not> ok"
    | a b where "\<not> db_size s + len < len" "db_size s + len \<le> a" "allocated_size s \<le> a" "re (bytes s) a = Some b"
        "s' = s\<lparr>bytes := b, allocated_size := a\<rparr>" "ok"
proof (cases "db_size s + len < len \<or> \<not> db_size s + len > allocated_size s \<or> db_error s")
  case True
  then show ?thesis using assms that(1) by (auto simp: dbuf_claim_def Let_def not_less split: if_splits)
next
  case False
  define sz where "sz = allocated_size s + allocated_size s div 2"
  define a where "a = (if sz < db_size s + len \<or> sz < allocated_size s then db_size s + len else sz)"
  have a: "db_size s + len \<le> a" "allocated_size s \<le> a" using False by (auto simp: a_def)
  have "dbuf_claim re s len = (case re (bytes s) a of None \<Rightarrow> (s\<lparr>db_error := True\<rparr>, False)
      | Some b \<Rightarrow> (s\<lparr>bytes := b, allocated_size := a\<rparr>, True))"
    using False unfolding a_def sz_def by (simp add: dbuf_claim_def Let_def)
  then show ?thesis using assms that(2,3) False a by (cases "re (bytes s) a") auto
qed

lemma add_no_wrap:
  assumes "\<not> a + b < (b :: u64)"
  shows "unat (a + b) = unat a + unat b"
proof (rule ccontr)
  assume n: "unat (a + b) \<noteq> unat a + unat b"
  then have "unat (a + b) = unat a + unat b - 18446744073709551616" using unat_plus_if' [of a b] by (simp split: if_splits)
  moreover have "unat a < 18446744073709551616" by simp
  ultimately have "unat (a + b) < unat b \<or> unat b = 0" by linarith
  then show False using assms n by (auto simp: word_less_nat_alt unat_eq_0)
qed

lemma claim_spec:
  assumes "keeps_bytes re" "dbuf_ok s" "dbuf_claim re s len = (s', ok)"
  shows "dbuf_ok s' \<and> contents s' = contents s \<and> db_size s' = db_size s \<and>
    (ok \<longrightarrow> unat (db_size s) + unat len \<le> length (bytes s')) \<and>
    (unat len < 2 ^ 63 \<longrightarrow> dbuf_error s' = (dbuf_error s \<or> \<not> ok))"
proof -
  have sz: "length (bytes s) = unat (allocated_size s)" "unat (db_size s) \<le> unat (allocated_size s)"
    using assms(2) by (simp_all add: dbuf_ok_def word_le_nat_alt)
  show ?thesis
    using assms(3)
  proof (cases rule: claim_cases)
    case 1
    moreover have "\<not> db_size s + len < len" if "unat len < 2 ^ 63"
    proof -
      have "unat (db_size s + len) = unat (db_size s) + unat len"
        using that sz assms(2) by (subst unat_add_fit) (simp_all add: dbuf_ok_def)
      then show ?thesis by (simp add: word_less_nat_alt)
    qed
    ultimately show ?thesis using assms(2) add_no_wrap sz by (auto simp: word_le_nat_alt dbuf_error_def)
  next
    case 2
    then show ?thesis using assms(2) by (simp add: dbuf_ok_def contents_def dbuf_error_def)
  next
    case (3 a b)
    have b: "unat a < 2 ^ 63" "length b = unat a" "take (min (length (bytes s)) (unat a)) b = take (min (length (bytes s)) (unat a)) (bytes s)"
      using assms(1) 3(4) by (simp_all add: keeps_bytes_def)
    have a: "unat (db_size s) + unat len \<le> unat a" "unat (allocated_size s) \<le> unat a"
      using 3(1-3) add_no_wrap by (simp_all add: word_le_nat_alt)
    then have "take (unat (allocated_size s)) b = bytes s" using b(3) sz(1) by (simp add: min_absorb1)
    then have "take (unat (db_size s)) b = take (unat (db_size s)) (bytes s)"
      using sz(2) by (metis min.absorb1 take_take)
    then show ?thesis using 3(5,6) a b(1,2) sz(2) by (simp add: dbuf_ok_def contents_def word_le_nat_alt dbuf_error_def)
  qed
qed

lemma write_end:
  assumes "dbuf_ok s" "unat (db_size s) + length data \<le> length (bytes s)"
  shows "\<exists>s'. db_write s (db_size s) data = Inr s' \<and>
    dbuf_ok (s'\<lparr>db_size := db_size s' + of_nat (length data)\<rparr>) \<and>
    contents (s'\<lparr>db_size := db_size s' + of_nat (length data)\<rparr>) = contents s @ data \<and> db_error s' = db_error s"
proof -
  have l: "length data < 2 ^ 64" "unat (db_size s) + length data < 2 ^ 64"
    using assms by (auto simp: dbuf_ok_def)
  then have u: "unat (of_nat (length data) :: u64) = length data" by (intro unat_of_nat_u64) simp
  then have "unat (db_size s + of_nat (length data)) = unat (db_size s) + length data"
    using l by (subst unat_add_fit) simp_all
  then show ?thesis using assms
    by (simp add: db_write_def dbuf_ok_def contents_def word_le_nat_alt)
qed

text \<open>The common end of the appending functions.\<close>

lemma append_end:
  assumes "dbuf_ok s1" "contents s1 = contents s" "dbuf_error s1 = (dbuf_error s \<or> \<not> ok)" "ok \<longrightarrow> unat (db_size s1) + length data \<le> length (bytes s1)"
    and r: "r = (if \<not> ok then Inr (s1, False) else if data \<noteq> []
      then res_bind (db_write s1 (db_size s1) data) (\<lambda>s2. Inr (s2\<lparr>db_size := db_size s2 + of_nat (length data)\<rparr>, True)) else Inr (s1, True))"
  shows "appends data s r"
proof (cases "ok \<and> data \<noteq> []")
  case True
  then obtain s2 where "db_write s1 (db_size s1) data = Inr s2"
      "dbuf_ok (s2\<lparr>db_size := db_size s2 + of_nat (length data)\<rparr>)"
      "contents (s2\<lparr>db_size := db_size s2 + of_nat (length data)\<rparr>) = contents s1 @ data" "db_error s2 = db_error s1"
    using write_end [OF assms(1)] assms(4) by blast
  then show ?thesis using True assms(2,3) r by (simp add: appends_def dbuf_error_def)
next
  case False
  then show ?thesis using assms by (cases ok) (simp_all add: appends_def)
qed

lemma put_appends:
  assumes "keeps_bytes re" "dbuf_ok s" "length data < 2 ^ 63"
  shows "appends data s (dbuf_put re s data)"
proof -
  let ?len = "of_nat (length data) :: u64"
  have u: "unat ?len = length data" using assms(3) by (intro unat_of_nat_u64) simp
  define c where "c = (if db_size s + ?len > allocated_size s then dbuf_claim re s ?len else (s, True))"
  obtain s1 ok where c1: "c = (s1, ok)" by fastforce
  have s1: "dbuf_ok s1 \<and> contents s1 = contents s \<and> db_size s1 = db_size s \<and> dbuf_error s1 = (dbuf_error s \<or> \<not> ok) \<and>
      (ok \<longrightarrow> unat (db_size s) + length data \<le> length (bytes s1))"
  proof (cases "db_size s + ?len > allocated_size s")
    case True
    then have "dbuf_claim re s ?len = (s1, ok)" using c1 by (simp add: c_def)
    then show ?thesis using claim_spec [OF assms(1,2)] u assms(3) by metis
  next
    case False
    have o: "length (bytes s) = unat (allocated_size s)" "unat (db_size s) \<le> unat (allocated_size s)"
      using assms(2) by (simp_all add: dbuf_ok_def word_le_nat_alt)
    have "unat (db_size s + ?len) = unat (db_size s) + length data"
      using o assms(2,3) u by (subst unat_add_fit) (simp_all add: dbuf_ok_def)
    then show ?thesis using False o c1 assms(2) by (simp add: c_def word_less_nat_alt)
  qed
  have "dbuf_put re s data = (if \<not> ok then Inr (s1, False) else if ?len > 0
      then res_bind (db_write s1 (db_size s1) data) (\<lambda>s2. Inr (s2\<lparr>db_size := db_size s2 + ?len\<rparr>, True)) else Inr (s1, True))"
    using c1 by (simp add: dbuf_put_def Let_def c_def)
  moreover have "?len > 0 \<longleftrightarrow> data \<noteq> []" by (simp add: word_less_nat_alt u)
  ultimately show ?thesis
    using s1 by (intro append_end [of s1 s ok]) simp_all
qed

lemma put_self_appends:
  assumes "keeps_bytes re" "dbuf_ok s" "unat offset + unat len \<le> unat (db_size s)"
  shows "appends (take (unat len) (drop (unat offset) (contents s))) s (dbuf_put_self re s offset len)"
proof -
  define c where "c = (if db_size s + len > allocated_size s then dbuf_claim re s len else (s, True))"
  obtain s1 ok where c1: "c = (s1, ok)" by fastforce
  have o: "length (bytes s) = unat (allocated_size s)" "unat (db_size s) \<le> unat (allocated_size s)" "unat (allocated_size s) < 2 ^ 63"
    using assms(2) by (simp_all add: dbuf_ok_def word_le_nat_alt)
  have s1: "dbuf_ok s1 \<and> contents s1 = contents s \<and> db_size s1 = db_size s \<and> dbuf_error s1 = (dbuf_error s \<or> \<not> ok) \<and>
      (ok \<longrightarrow> unat (db_size s) + unat len \<le> length (bytes s1))"
  proof (cases "db_size s + len > allocated_size s")
    case True
    then have "dbuf_claim re s len = (s1, ok)" using c1 by (simp add: c_def)
    moreover have "unat len < 2 ^ 63" using o assms(3) by linarith
    ultimately show ?thesis using claim_spec [OF assms(1,2)] by metis
  next
    case False
    have "unat (db_size s + len) = unat (db_size s) + unat len"
      using o assms(3) by (subst unat_add_fit) simp_all
    then show ?thesis using False o c1 assms(2) by (simp add: c_def word_less_nat_alt)
  qed
  let ?d = "take (unat len) (drop (unat offset) (contents s))"
  have rd: "db_read s1 offset (unat len) = Inr ?d" if ok
  proof -
    have "take (unat len) (drop (unat offset) (bytes s1)) = take (unat len) (drop (unat offset) (contents s1))"
      using assms(3) s1 by (simp add: contents_def drop_take min_def)
    then show ?thesis using that s1 assms(3) by (simp add: db_read_def)
  qed
  have ld: "length ?d = unat len" using assms(3) o by (simp add: contents_def)
  have "dbuf_put_self re s offset len = (if \<not> ok then Inr (s1, False) else if len > 0
      then res_bind (db_read s1 offset (unat len)) (\<lambda>data. res_bind (db_write s1 (db_size s1) data)
        (\<lambda>s2. Inr (s2\<lparr>db_size := db_size s2 + len\<rparr>, True))) else Inr (s1, True))"
    using c1 by (simp add: dbuf_put_self_def Let_def c_def)
  moreover have "len > 0 \<longleftrightarrow> ?d \<noteq> []" unfolding length_0_conv [symmetric] ld by (simp add: word_less_nat_alt)
  moreover have "of_nat (length ?d) = len" unfolding ld by simp
  ultimately show ?thesis
    using s1 rd ld by (intro append_end [of s1 s ok]) simp_all
qed

lemma fast_appends:
  assumes "dbuf_ok s" "\<not> allocated_size s - db_size s < of_nat (length data)" "length data < 2 ^ 63"
  shows "appends data s (db_fast s data)"
proof -
  have o: "length (bytes s) = unat (allocated_size s)" "unat (db_size s) \<le> unat (allocated_size s)"
    using assms(1) by (simp_all add: dbuf_ok_def word_le_nat_alt)
  have "unat (of_nat (length data) :: u64) = length data" using assms(3) by (intro unat_of_nat_u64) simp
  then have "unat (db_size s) + length data \<le> length (bytes s)"
    using assms(2) o by (simp add: word_less_nat_alt unat_sub_fit)
  then show ?thesis using write_end [OF assms(1), of data] by (auto simp: db_fast_def appends_def dbuf_error_def)
qed

lemma le_bytes_length [simp]: "length (le_bytes n v) = n"
  by (simp add: le_bytes_def)

text \<open>A non-negative \<open>int\<close> keeps its value as \<open>size_t\<close>.\<close>

lemma int_to_size:
  assumes "n + 1 < 2 ^ 31"
  shows "(scast (of_nat n + 1 :: u32) :: u64) = of_nat (n + 1)"
proof -
  obtain k where k: "k = int (n + 1)" "0 \<le> k" "k < 2 ^ 31" using assms by fastforce
  then have "signed_take_bit 31 k = k" by (intro signed_take_bit_int_eq_self) simp_all
  moreover have "(of_nat n + 1 :: u32) = of_int k" "(of_nat (n + 1) :: u64) = of_int k" using k(1) by simp_all
  ultimately show ?thesis by (simp add: signed_of_int)
qed

lemma printf_appends:
  assumes "keeps_bytes re" "dbuf_ok s" "length txt < 2 ^ 31 - 1"
  shows "appends txt s (dbuf_printf re s (Some txt))"
proof (cases "length txt < 128")
  case True
  then show ?thesis using put_appends [OF assms(1,2), of "txt"] by (simp add: dbuf_printf_def)
next
  case False
  let ?n = "scast (of_nat (length txt) + 1 :: u32) :: u64"
  have "?n = of_nat (length txt + 1)" using assms(3) by (intro int_to_size) simp
  then have u: "unat ?n = length txt + 1" "unat (of_nat (length txt) :: u64) = length txt"
    using assms(3) by (simp_all add: unat_of_nat_u64 del: of_nat_add of_nat_Suc)
  obtain s1 ok where c: "dbuf_claim re s ?n = (s1, ok)" by fastforce
  have s1: "dbuf_ok s1" "contents s1 = contents s" "db_size s1 = db_size s" "dbuf_error s1 = (dbuf_error s \<or> \<not> ok)" "ok \<Longrightarrow> unat (db_size s1) + (length txt + 1) \<le> length (bytes s1)"
    using claim_spec [OF assms(1,2) c] u assms(3) by simp_all
  show ?thesis
  proof (cases ok)
    case True
    define room where "room = unat (allocated_size s1 - db_size s1)"
    have "unat (db_size s1) \<le> unat (allocated_size s1)" "length (bytes s1) = unat (allocated_size s1)"
      using s1(1) by (simp_all add: dbuf_ok_def word_le_nat_alt)
    then have r: "length txt + 1 \<le> room" using s1(5) [OF True] by (simp add: room_def unat_sub_fit)
    then have t: "take (room - 1) txt = txt" by simp
    let ?b = "take (unat (db_size s1)) (bytes s1) @ (txt @ [0]) @ drop (unat (db_size s1) + length (txt @ [0])) (bytes s1)"
    have "db_write s1 (db_size s1) (txt @ [0]) = Inr (s1\<lparr>bytes := ?b\<rparr>)"
      using s1(5) [OF True] by (simp add: db_write_def)
    then have e: "dbuf_printf re s (Some txt) = Inr (s1\<lparr>bytes := ?b, db_size := db_size s1 + of_nat (length txt)\<rparr>, True)"
      using False c True r by (simp add: dbuf_printf_def room_def [symmetric] t)
    have "unat (db_size s1 + of_nat (length txt)) = unat (db_size s1) + length txt"
      using s1(1) s1(5) [OF True] u(2) by (subst unat_add_fit) (simp_all add: dbuf_ok_def)
    moreover have "unat (db_size s) \<le> length (bytes s)" using assms(2) by (simp add: dbuf_ok_def word_le_nat_alt)
    ultimately show ?thesis
      using s1 s1(5) [OF True] True unfolding e appends_def by (simp add: dbuf_ok_def contents_def word_le_nat_alt dbuf_error_def)
  next
    case f: False
    then show ?thesis using False c s1 by (simp add: dbuf_printf_def appends_def)
  qed
qed

text \<open>
  An output error of \<open>vsnprintf\<close> is not handled: with data in the buffer the copy of \<open>SIZE_MAX\<close> bytes
  is made.
\<close>

lemma printf_output_error:
  assumes "dbuf_ok s" "0 < db_size s"
  shows "dbuf_printf re s None = Inl BadPointer"
proof -
  have "unat (db_size s) \<le> unat (allocated_size s)" "0 < unat (db_size s)"
    using assms by (simp_all add: dbuf_ok_def word_le_nat_alt word_less_nat_alt)
  then have "unat (db_size s - 1) \<le> unat (allocated_size s)" by (subst unat_sub_fit) simp_all
  then have "\<not> db_size s - 1 > allocated_size s" by (simp add: word_less_nat_alt)
  then show ?thesis by (simp add: dbuf_printf_def)
qed

section \<open>Properties\<close>

text \<open>A sequence of appends whose results the caller does not look at, and the data each one adds.\<close>

datatype dbuf_op =
  Put "u8 list" | PutSelf size_t size_t | Putc u8 | PutU16 u16 | PutU32 u32 | PutU64 u64 | Putstr "u8 list" | Printf "u8 list"

fun dbuf_do :: "reallocator \<Rightarrow> dbuf_op \<Rightarrow> DynBuf \<Rightarrow> (DynBuf \<times> bool) res" where
  "dbuf_do re (Put d) s = dbuf_put re s d"
| "dbuf_do re (PutSelf off len) s = dbuf_put_self re s off len"
| "dbuf_do re (Putc c) s = dbuf_putc re s c"
| "dbuf_do re (PutU16 v) s = dbuf_put_u16 re s v"
| "dbuf_do re (PutU32 v) s = dbuf_put_u32 re s v"
| "dbuf_do re (PutU64 v) s = dbuf_put_u64 re s v"
| "dbuf_do re (Putstr d) s = dbuf_putstr re s d"
| "dbuf_do re (Printf d) s = dbuf_printf re s (Some d)"

fun op_data :: "dbuf_op \<Rightarrow> u8 list \<Rightarrow> u8 list" where
  "op_data (Put d) c = d"
| "op_data (PutSelf off len) c = take (unat len) (drop (unat off) c)"
| "op_data (Putc v) c = [v]"
| "op_data (PutU16 v) c = le_bytes 2 v"
| "op_data (PutU32 v) c = le_bytes 4 v"
| "op_data (PutU64 v) c = le_bytes 8 v"
| "op_data (Putstr d) c = takeWhile (\<lambda>b. b \<noteq> 0) d"
| "op_data (Printf d) c = d"

text \<open>
  The sizes C objects can have; a self-copy stays inside the contents; the length of a formatted text
  and its successor are values of \<open>int\<close>.
\<close>

fun op_fits :: "dbuf_op \<Rightarrow> u8 list \<Rightarrow> bool" where
  "op_fits (Put d) c \<longleftrightarrow> length d < 2 ^ 63"
| "op_fits (PutSelf off len) c \<longleftrightarrow> unat off + unat len \<le> length c"
| "op_fits (Putstr d) c \<longleftrightarrow> length d < 2 ^ 63"
| "op_fits (Printf d) c \<longleftrightarrow> length d < 2 ^ 31 - 1"
| "op_fits _ c \<longleftrightarrow> True"

lemma contents_length: "dbuf_ok s \<Longrightarrow> length (contents s) = unat (db_size s)"
  by (simp add: dbuf_ok_def contents_def word_le_nat_alt)

lemma op_appends:
  assumes "keeps_bytes re" "dbuf_ok s" "op_fits op (contents s)"
  shows "appends (op_data op (contents s)) s (dbuf_do re op s)"
proof (cases op)
  case (Putstr d)
  then have "length (takeWhile (\<lambda>b. b \<noteq> 0) d) < 2 ^ 63"
    using assms(3) length_takeWhile_le [of "\<lambda>b. b \<noteq> 0" d] by simp
  then show ?thesis using put_appends [OF assms(1,2)] Putstr by (simp add: dbuf_putstr_def)
next
  case (PutSelf off len)
  then show ?thesis using put_self_appends [OF assms(1,2)] assms(3) contents_length [OF assms(2)] by simp
next
  case (PutU16 v)
  then show ?thesis using put_appends [OF assms(1,2), of "le_bytes 2 v"] fast_appends [OF assms(2), of "le_bytes 2 v"]
    by (simp add: dbuf_put_u16_def dbuf_put_u16_slow_def)
next
  case (PutU32 v)
  then show ?thesis using put_appends [OF assms(1,2), of "le_bytes 4 v"] fast_appends [OF assms(2), of "le_bytes 4 v"]
    by (simp add: dbuf_put_u32_def dbuf_put_u32_slow_def)
next
  case (PutU64 v)
  then show ?thesis using put_appends [OF assms(1,2), of "le_bytes 8 v"] fast_appends [OF assms(2), of "le_bytes 8 v"]
    by (simp add: dbuf_put_u64_def dbuf_put_u64_slow_def)
next
  case (Putc v)
  then show ?thesis using put_appends [OF assms(1,2), of "[v]"] fast_appends [OF assms(2), of "[v]"]
    by (simp add: dbuf_putc_def dbuf_putc_slow_def)
next
  case (Put d)
  then show ?thesis using put_appends [OF assms(1,2)] assms(3) by simp
next
  case (Printf d)
  then show ?thesis using printf_appends [OF assms(1,2)] assms(3) by simp
qed

fun dbuf_run :: "(reallocator \<times> dbuf_op) list \<Rightarrow> DynBuf \<Rightarrow> DynBuf res" where
  "dbuf_run [] s = Inr s"
| "dbuf_run ((re, op) # ops) s = res_bind (dbuf_do re op s) (\<lambda>(s', _). dbuf_run ops s')"

fun written :: "dbuf_op list \<Rightarrow> u8 list \<Rightarrow> u8 list" where
  "written [] c = c"
| "written (op # ops) c = written ops (c @ op_data op c)"

text \<open>Operations that do not copy from the buffer itself fit whatever the contents are.\<close>

definition no_self :: "dbuf_op \<Rightarrow> bool" where
  "no_self op \<longleftrightarrow> (\<forall>off len. op \<noteq> PutSelf off len)"

lemma fits_any: "no_self op \<Longrightarrow> op_fits op c = op_fits op c'" "no_self op \<Longrightarrow> op_data op c = op_data op c'"
  by (cases op; simp add: no_self_def)+

lemma run_spec:
  assumes "\<forall>(re, op) \<in> set ops. keeps_bytes re \<and> no_self op \<and> op_fits op []" "dbuf_ok s"
  shows "\<exists>s'. dbuf_run ops s = Inr s' \<and> dbuf_ok s' \<and>
    (\<not> dbuf_error s' \<longrightarrow> \<not> dbuf_error s \<and> contents s' = written (map snd ops) (contents s))"
  using assms
proof (induction ops arbitrary: s)
  case (Cons x ops)
  obtain re op where x: "x = (re, op)" by fastforce
  have a: "appends (op_data op (contents s)) s (dbuf_do re op s)"
    using Cons.prems x fits_any(1) [of op "[]" "contents s"] by (intro op_appends) auto
  then obtain s1 ok where s1: "dbuf_do re op s = Inr (s1, ok)" "dbuf_ok s1"
      "contents s1 = (if ok then contents s @ op_data op (contents s) else contents s)" "dbuf_error s1 = (dbuf_error s \<or> \<not> ok)"
    by (auto simp: appends_def split: sum.splits)
  obtain s' where "dbuf_run ops s1 = Inr s'" "dbuf_ok s'"
      "\<not> dbuf_error s' \<longrightarrow> \<not> dbuf_error s1 \<and> contents s' = written (map snd ops) (contents s1)"
    using Cons.IH [of s1] Cons.prems(1) s1(2) by auto
  then show ?case using x s1 by auto
qed simp

lemma appendsE:
  assumes "appends data s r"
  obtains s' ok where "r = Inr (s', ok)" "dbuf_ok s'" "contents s' = (if ok then contents s @ data else contents s)"
    "dbuf_error s' = (dbuf_error s \<or> \<not> ok)"
proof (cases r)
  case (Inl f)
  then show ?thesis using assms by (simp add: appends_def)
next
  case (Inr x)
  then show ?thesis using assms that by (cases x) (simp add: appends_def)
qed

lemma written_concat:
  "\<forall>op \<in> set ops. no_self op \<Longrightarrow> written ops c = c @ concat (map (\<lambda>op. op_data op []) ops)"
proof (induction ops arbitrary: c)
  case (Cons op ops)
  then show ?case using fits_any(2) [of op c "[]"] by simp
qed simp

lemma init_ok: "dbuf_ok dbuf_init" "contents dbuf_init = []" "\<not> dbuf_error dbuf_init"
  by (simp_all add: dbuf_init_def dbuf_init2_def dbuf_ok_def contents_def dbuf_error_def)


text \<open>A reallocator that keeps the bytes, and one that always fails.\<close>

definition grow_zero :: reallocator where
  "grow_zero old n = (if unat n < 1000 then Some (take (unat n) (old @ replicate (unat n) 0)) else None)"

lemma grow_zero_ok: "keeps_bytes grow_zero"
  by (auto simp: keeps_bytes_def grow_zero_def min_def)


text \<open>
  C11. One test at the end is enough. A caller may append any sequence of data, each with its own
  allocation outcome, without looking at a single result: if the error flag is clear at the end, the
  buffer holds all the data in order.
\<close>

theorem dbuf_error_covers_run:
  assumes "\<forall>(re, op) \<in> set ops. keeps_bytes re \<and> no_self op \<and> op_fits op []"
  shows "\<exists>s'. dbuf_run ops dbuf_init = Inr s' \<and>
    (\<not> dbuf_error s' \<longrightarrow> contents s' = concat (map (\<lambda>(re, op). op_data op []) ops))"
proof -
  have n: "\<forall>op \<in> set (map snd ops). no_self op" using assms by auto
  obtain s' where "dbuf_run ops dbuf_init = Inr s'" "\<not> dbuf_error s' \<longrightarrow> contents s' = written (map snd ops) []"
    using run_spec [OF assms init_ok(1)] unfolding init_ok(2) by auto
  then show ?thesis using written_concat [OF n, of "[]"] by (auto simp: case_prod_unfold comp_def)
qed

theorem dbuf_error_covers_run_witness:
  "\<exists>s'. dbuf_run [(grow_zero, Putc 7), (grow_zero, PutU16 0x0203), (grow_zero, Putstr [1, 2, 0, 9])] dbuf_init = Inr s' \<and>
    \<not> dbuf_error s' \<and> contents s' = [7, 3, 2, 1, 2]"
proof -
  let ?ops = "[(grow_zero, Putc 7), (grow_zero, PutU16 0x0203), (grow_zero, Putstr [1, 2, 0, 9])]"
  have "case dbuf_run ?ops dbuf_init of Inl _ \<Rightarrow> False | Inr s' \<Rightarrow> \<not> dbuf_error s'" by code_simp
  then have clear: "\<not> dbuf_error s'" if "dbuf_run ?ops dbuf_init = Inr s'" for s' using that by simp
  have d: "le_bytes 2 (0x0203 :: u16) = [3, 2]" by (simp add: le_bytes_def upt_rec)
  have "\<forall>(re, op) \<in> set ?ops. keeps_bytes re \<and> no_self op \<and> op_fits op []"
    using grow_zero_ok by (simp add: no_self_def)
  from dbuf_error_covers_run [OF this] show ?thesis using clear d by auto
qed

end
