(* ===== verification/Limbs.thy ===== *)
theory Limbs
  imports Bits
begin

text \<open>
  The multi-precision routines under BigInt (\<open>src/quickjs.c\<close>, \<open>ADDC\<close> to \<open>js_mp_shr\<close>) on arrays of 32-bit
  limbs, least significant first. An array with its length is a list; a routine that overwrites an
  operand returns the new array. The contract of each routine is an equation between the numbers the
  arrays stand for, with the carry or borrow as the limb above the result.
\<close>

section \<open>Numbers of limb arrays\<close>

abbreviation LB :: int where "LB \<equiv> 4294967296"

fun lval :: "u32 list \<Rightarrow> int" where
  "lval [] = 0"
| "lval (x # xs) = uint x + LB * lval xs"

section \<open>Operations\<close>

definition ADDC :: "u32 \<Rightarrow> u32 \<Rightarrow> u32 \<Rightarrow> u32 \<times> u32" where
  "ADDC op1 op2 carry_in =
     (let a = op1 + op2;
          k1 = (if a < op1 then 1 else 0);
          a1 = a + carry_in
      in (a1, (if a1 < carry_in then 1 else 0) OR k1))"

definition clz32 :: "u32 \<Rightarrow> nat" where
  "clz32 a = length (takeWhile (\<lambda>i. \<not> bit a i) (rev [0..<32]))"

definition js_limb_clz :: "u32 \<Rightarrow> nat" where
  "js_limb_clz a = (if a = 0 then 32 else clz32 a)"

fun js_mp_add :: "u32 list \<Rightarrow> u32 list \<Rightarrow> u32 \<Rightarrow> u32 list \<times> u32" where
  "js_mp_add (x # xs) (y # ys) c =
     (case ADDC x y c of (r, c1) \<Rightarrow> case js_mp_add xs ys c1 of (rs, c2) \<Rightarrow> (r # rs, c2))"
| "js_mp_add _ _ c = ([], c)"

fun js_mp_sub :: "u32 list \<Rightarrow> u32 list \<Rightarrow> u32 \<Rightarrow> u32 list \<times> u32" where
  "js_mp_sub (v # xs) (y # ys) k =
     (let a = v - y;
          k1 = (if a > v then 1 else 0);
          v1 = a - k;
          k2 = (if v1 > a then 1 else 0) OR k1
      in case js_mp_sub xs ys k2 of (rs, k3) \<Rightarrow> (v1 # rs, k3))"
| "js_mp_sub _ _ k = ([], k)"

fun mp_neg_loop :: "u32 list \<Rightarrow> u32 \<Rightarrow> u32 list \<times> u32" where
  "mp_neg_loop [] carry = ([], carry)"
| "mp_neg_loop (x # xs) carry =
     (let v = NOT x + carry
      in case mp_neg_loop xs (if v < carry then 1 else 0) of (rs, c) \<Rightarrow> (v # rs, c))"

definition js_mp_neg :: "u32 list \<Rightarrow> u32 list \<times> u32" where
  "js_mp_neg xs = mp_neg_loop xs 1"

fun js_mp_mul1 :: "u32 list \<Rightarrow> u32 \<Rightarrow> u32 \<Rightarrow> u32 list \<times> u32" where
  "js_mp_mul1 [] b l = ([], l)"
| "js_mp_mul1 (x # xs) b l =
     (let t = ucast x * ucast b + ucast l :: u64
      in case js_mp_mul1 xs b (ucast (drop_bit 32 t)) of (rs, h) \<Rightarrow> (ucast t # rs, h))"

text \<open>Division by a limb runs from the high end: the recursion handles the higher limbs first.\<close>

fun js_mp_div1 :: "u32 list \<Rightarrow> u32 \<Rightarrow> u32 \<Rightarrow> u32 list \<times> u32" where
  "js_mp_div1 [] b r = ([], r)"
| "js_mp_div1 (x # xs) b r =
     (case js_mp_div1 xs b r of (qs, r1) \<Rightarrow>
        let a1 = push_bit 32 (ucast r1) OR ucast x :: u64
        in (ucast (a1 div ucast b) # qs, ucast (a1 mod ucast b)))"

fun add_mul1_loop :: "u32 list \<Rightarrow> u32 list \<Rightarrow> u32 \<Rightarrow> u32 \<Rightarrow> u32 list \<times> u32" where
  "add_mul1_loop (z # zs) (x # xs) b l =
     (let t = ucast x * ucast b + ucast l + ucast z :: u64
      in case add_mul1_loop zs xs b (ucast (drop_bit 32 t)) of (rs, h) \<Rightarrow> (ucast t # rs, h))"
| "add_mul1_loop _ _ b l = ([], l)"

definition js_mp_add_mul1 :: "u32 list \<Rightarrow> u32 list \<Rightarrow> u32 \<Rightarrow> u32 list \<times> u32" where
  "js_mp_add_mul1 tabr taba b = add_mul1_loop tabr taba b 0"

text \<open>
  The rows of the schoolbook product. The result array has a limb for each limb of the operands;
  \<open>res\<close> holds the limbs from the current row on, so the first is final after the row is added.
\<close>

fun mul_rows :: "u32 list \<Rightarrow> u32 list \<Rightarrow> u32 list \<Rightarrow> u32 list" where
  "mul_rows op1 [] res = res"
| "mul_rows op1 (y # ys) res =
     (case js_mp_add_mul1 (take (length op1) (tl res)) op1 y of (row, r) \<Rightarrow>
        hd res # mul_rows op1 ys (row @ [r]))"

definition js_mp_mul_basecase :: "u32 list \<Rightarrow> u32 list \<Rightarrow> u32 list" where
  "js_mp_mul_basecase op1 op2 =
     (case js_mp_mul1 op1 (hd op2) 0 of (row, r) \<Rightarrow> mul_rows op1 (tl op2) (row @ [r]))"

fun sub_mul1_loop :: "u32 list \<Rightarrow> u32 list \<Rightarrow> u32 \<Rightarrow> u32 \<Rightarrow> u32 list \<times> u32" where
  "sub_mul1_loop (z # zs) (x # xs) b l =
     (let t = ucast z - ucast x * ucast b - ucast l :: u64
      in case sub_mul1_loop zs xs b (ucast (- drop_bit 32 t)) of (rs, h) \<Rightarrow> (ucast t # rs, h))"
| "sub_mul1_loop _ _ b l = ([], l)"

definition js_mp_sub_mul1 :: "u32 list \<Rightarrow> u32 list \<Rightarrow> u32 \<Rightarrow> u32 list \<times> u32" where
  "js_mp_sub_mul1 tabr taba b = sub_mul1_loop tabr taba b 0"

definition js_udiv1norm_init :: "u32 \<Rightarrow> u32" where
  "js_udiv1norm_init d =
     (let a1 = - d - 1; a0 = - 1 :: u32
      in ucast ((push_bit 32 (ucast a1) OR ucast a0 :: u64) div ucast d))"

text \<open>Quotient and remainder.\<close>

definition js_udiv1norm :: "u32 \<Rightarrow> u32 \<Rightarrow> u32 \<Rightarrow> u32 \<Rightarrow> u32 \<times> u32" where
  "js_udiv1norm a1 a0 d d_inv =
     (let n1m = (if bit a0 31 then - 1 else 0);
          n_adj = a0 + (n1m AND d);
          a = ucast d_inv * ucast (a1 - n1m) + ucast n_adj :: u64;
          q = ucast (drop_bit 32 a) + a1;
          a2 = (push_bit 32 (ucast a1) OR ucast a0) - ucast q * ucast d - ucast d :: u64;
          ah = ucast (drop_bit 32 a2)
      in (q + (1 + ah), ucast a2 + (ah AND d)))"

abbreviation UDIV1NORM_THRESHOLD :: nat where "UDIV1NORM_THRESHOLD \<equiv> 3"

fun div1norm_loop :: "u32 list \<Rightarrow> u32 \<Rightarrow> u32 \<Rightarrow> u32 \<Rightarrow> u32 list \<times> u32" where
  "div1norm_loop [] b b_inv r = ([], r)"
| "div1norm_loop (x # xs) b b_inv r =
     (case div1norm_loop xs b b_inv r of (qs, r1) \<Rightarrow>
        case js_udiv1norm r1 x b b_inv of (q, r2) \<Rightarrow> (q # qs, r2))"

definition js_mp_div1norm :: "u32 list \<Rightarrow> u32 \<Rightarrow> u32 \<Rightarrow> u32 list \<times> u32" where
  "js_mp_div1norm taba b r =
     (if length taba \<ge> UDIV1NORM_THRESHOLD then div1norm_loop taba b (js_udiv1norm_init b) r
      else js_mp_div1 taba b r)"

text \<open>
  The inner loop of the long division that takes back a quotient digit; it has no bound in the code,
  and running out of fuel stands for a loop that does not end. Two rounds are enough.
\<close>

fun add_back :: "nat \<Rightarrow> u32 list \<Rightarrow> u32 \<Rightarrow> u32 list \<Rightarrow> u32 \<Rightarrow> (u32 \<times> u32 list \<times> u32) res" where
  "add_back 0 tabb q w a = Inl LoopsForever"
| "add_back (Suc fuel) tabb q w a =
     (case js_mp_add w tabb 0 of (w1, c) \<Rightarrow>
        if c \<noteq> 0
        then (if a + 1 = 0 then Inr (q - 1, w1, a + 1) else add_back fuel tabb (q - 1) w1 (a + 1))
        else add_back fuel tabb (q - 1) w1 a)"

definition quotient_digit :: "u32 \<Rightarrow> u32 \<Rightarrow> u32 \<Rightarrow> u32 \<Rightarrow> u32" where
  "quotient_digit hi lo b1 b1_inv =
     (if hi \<ge> b1 then - 1
      else if b1_inv \<noteq> 0 then fst (js_udiv1norm hi lo b1 b1_inv)
      else ucast ((push_bit 32 (ucast hi) OR ucast lo :: u64) div ucast b1))"

text \<open>
  One round: \<open>w\<close> are the limbs of the dividend the round works on, one more than the divisor has. The
  round gives the digit, the limbs of the remainder and the highest limb, which the next round leaves aside.
\<close>

definition divnorm_round :: "u32 list \<Rightarrow> u32 \<Rightarrow> u32 list \<Rightarrow> (u32 \<times> u32 list \<times> u32) res" where
  "divnorm_round tabb b1_inv w =
     (let nb = length tabb;
          q = quotient_digit (w ! nb) (w ! (nb - 1)) (tabb ! (nb - 1)) b1_inv
      in case js_mp_sub_mul1 (take nb w) tabb q of (w1, r) \<Rightarrow>
           let v = w ! nb; a = v - r
           in if a > v then add_back 2 tabb q w1 a else Inr (q, w1, a))"

fun divnorm_loop :: "u32 list \<Rightarrow> u32 \<Rightarrow> u32 list \<Rightarrow> u32 list \<Rightarrow> (u32 list \<times> u32 list) res" where
  "divnorm_loop tabb b1_inv [] w = Inr ([], w)"
| "divnorm_loop tabb b1_inv (x # xs) w =
     res_bind (divnorm_loop tabb b1_inv xs w) (\<lambda>(qs, w1).
       res_bind (divnorm_round tabb b1_inv (x # w1)) (\<lambda>(q, w2, _). Inr (q # qs, w2)))"

fun high_digit :: "u32 list \<Rightarrow> u32 list \<Rightarrow> u32" where
  "high_digit (a # as) (b # bs) = (if a \<noteq> b then (if a < b then 0 else 1) else high_digit as bs)"
| "high_digit _ _ = 1"

text \<open>The quotient and the remainder, the low limbs of \<open>taba\<close> at the end.\<close>

definition js_mp_divnorm :: "u32 list \<Rightarrow> u32 list \<Rightarrow> (u32 list \<times> u32 list) res" where
  "js_mp_divnorm taba tabb =
     (let na = length taba; nb = length tabb; b1 = tabb ! (nb - 1)
      in if nb = 1 then (case js_mp_div1norm taba b1 0 of (qs, r) \<Rightarrow> Inr (qs, [r]))
         else
           let n = na - nb;
               b1_inv = (if n \<ge> UDIV1NORM_THRESHOLD then js_udiv1norm_init b1 else 0);
               q = high_digit (rev (drop n taba)) (rev tabb);
               w = (if q \<noteq> 0 then fst (js_mp_sub (drop n taba) tabb 0) else drop n taba)
           in res_bind (divnorm_loop tabb b1_inv (take n taba) w) (\<lambda>(qs, w1). Inr (qs @ [q], w1)))"

fun shl_loop :: "u32 list \<Rightarrow> nat \<Rightarrow> u32 \<Rightarrow> u32 list \<times> u32" where
  "shl_loop [] s l = ([], l)"
| "shl_loop (v # xs) s l =
     (case shl_loop xs s (drop_bit (32 - s) v) of (rs, h) \<Rightarrow> ((push_bit s v OR l) # rs, h))"

definition js_mp_shl :: "u32 list \<Rightarrow> nat \<Rightarrow> u32 list \<times> u32" where
  "js_mp_shl taba s = shl_loop taba s 0"

fun shr_loop :: "u32 list \<Rightarrow> nat \<Rightarrow> u32 \<Rightarrow> u32 list \<times> u32" where
  "shr_loop [] s l = ([], l)"
| "shr_loop (a # xs) s high =
     (case shr_loop xs s high of (rs, l) \<Rightarrow> ((drop_bit s a OR push_bit (32 - s) l) # rs, a))"

definition js_mp_shr :: "u32 list \<Rightarrow> nat \<Rightarrow> u32 \<Rightarrow> u32 list \<times> u32" where
  "js_mp_shr tab s high = (case shr_loop tab s high of (rs, l) \<Rightarrow> (rs, l AND (push_bit s 1 - 1)))"

section \<open>Facts on limbs\<close>

lemma uint_limb: "0 \<le> uint (x :: u32)" "uint x < LB"
  using uint_lt2p [of x] by simp_all

lemma uint_dlimb: "0 \<le> uint (t :: u64)" "uint t < 18446744073709551616"
  using uint_lt2p [of t] by simp_all

lemma uint_widen: "uint (ucast (x :: u32) :: u64) = uint x"
  using uint_limb [of x] by (simp add: uint_up_ucast is_up)

lemma uint_low: "uint (ucast (t :: u64) :: u32) = uint t mod LB"
  by (subst unsigned_ucast_eq) (simp add: take_bit_eq_mod)

lemma uint_shift_right: "uint (drop_bit k (t :: 'a::len word)) = uint t div 2 ^ k"
proof -
  have "uint t mod 2 ^ LENGTH('a) = uint t" using uint_lt2p [of t] by (intro mod_pos_pos_trivial) simp_all
  then show ?thesis by (subst unsigned_drop_bit_eq) (simp add: drop_bit_eq_div take_bit_eq_mod)
qed

lemma uint_high: "uint (ucast (drop_bit 32 (t :: u64)) :: u32) = uint t div LB"
proof -
  have "uint t div LB < LB" using uint_dlimb [of t] by linarith
  then show ?thesis using uint_dlimb(1) [of t] uint_low [of "drop_bit 32 t"]
    by (simp add: pos_imp_zdiv_nonneg_iff uint_shift_right)
qed

lemma lval_bounds: "0 \<le> lval xs" "lval xs < LB ^ length xs"
proof (induction xs)
  case (Cons x xs)
  { case 1 show ?case using Cons uint_limb [of x] by simp }
  { case 2
    have "lval xs \<le> LB ^ length xs - 1" using Cons(2) by simp
    then have "LB * lval xs \<le> LB * (LB ^ length xs - 1)" by (intro mult_left_mono) simp_all
    then show ?case using uint_limb [of x] by (simp add: algebra_simps) }
qed simp_all

lemma lval_append: "lval (xs @ ys) = lval xs + LB ^ length xs * lval ys"
  by (induction xs) (simp_all add: algebra_simps)

section \<open>Contracts\<close>

lemma ADDC_spec:
  assumes "uint c \<le> 1" "ADDC x y c = (r, c')"
  shows "uint r + LB * uint c' = uint x + uint y + uint c \<and> uint c' \<le> 1"
proof -
  define a where "a = x + y"
  define a1 where "a1 = a + c"
  have r: "r = a1" "c' = (if a1 < c then 1 else 0) OR (if a < x then 1 else 0)"
    using assms(2) by (auto simp: ADDC_def Let_def a_def a1_def)
  have a: "uint a = (if uint x + uint y < LB then uint x + uint y else uint x + uint y - LB)"
    using uint_plus_if' [of x y] by (simp add: a_def)
  have a1: "uint a1 = (if uint a + uint c < LB then uint a + uint c else uint a + uint c - LB)"
    using uint_plus_if' [of a c] by (simp add: a1_def)
  have k1: "a < x \<longleftrightarrow> \<not> uint x + uint y < LB"
    using a uint_limb [of x] uint_limb [of y] by (auto simp: word_less_alt)
  have k2: "a1 < c \<longleftrightarrow> \<not> uint a + uint c < LB"
    using a1 uint_limb [of a] uint_limb [of c] by (auto simp: word_less_alt)
  show ?thesis
    using r a a1 k1 k2 assms(1) uint_limb [of x] uint_limb [of y] uint_limb [of c]
    by (cases "a < x"; cases "a1 < c") auto
qed

lemma js_mp_add_spec:
  assumes "js_mp_add xs ys c = (rs, c')" "length xs = length ys" "uint c \<le> 1"
  shows "lval rs + LB ^ length xs * uint c' = lval xs + lval ys + uint c \<and> length rs = length xs \<and> uint c' \<le> 1"
  using assms
proof (induction xs ys c arbitrary: rs c' rule: js_mp_add.induct)
  case (1 x xs y ys c)
  obtain r c1 where r: "ADDC x y c = (r, c1)" by fastforce
  obtain rs' c2 where rs: "js_mp_add xs ys c1 = (rs', c2)" by fastforce
  note A = ADDC_spec [OF 1(4) r]
  have "lval rs' + LB ^ length xs * uint c2 = lval xs + lval ys + uint c1 \<and> length rs' = length xs \<and> uint c2 \<le> 1"
    using 1(1) [OF r [symmetric] rs] 1(3) A by simp
  then show ?case using 1(2,3) r rs A by (auto simp: algebra_simps)
qed auto

lemma borrow_spec:
  fixes v y k v1 k2 :: u32
  assumes "uint k \<le> 1" "v1 = (v - y) - k" "k2 = (if v1 > v - y then 1 else 0) OR (if v - y > v then 1 else 0)"
  shows "uint v1 - LB * uint k2 = uint v - uint y - uint k \<and> uint k2 \<le> 1"
proof -
  define a where "a = v - y"
  have a: "uint a = (if uint y \<le> uint v then uint v - uint y else uint v - uint y + LB)"
    using uint_sub_if' [of v y] by (simp add: a_def)
  have v1: "uint v1 = (if uint k \<le> uint a then uint a - uint k else uint a - uint k + LB)"
    using uint_sub_if' [of a k] assms(2) by (simp add: a_def)
  have k1: "a > v \<longleftrightarrow> \<not> uint y \<le> uint v"
    using a uint_limb [of v] uint_limb [of y] by (auto simp: word_less_alt)
  have k2: "v1 > a \<longleftrightarrow> \<not> uint k \<le> uint a"
    using v1 uint_limb [of a] uint_limb [of k] by (auto simp: word_less_alt)
  show ?thesis
    using assms(3) a v1 k1 k2 assms(1) uint_limb [of v] uint_limb [of y] uint_limb [of k] unfolding a_def [symmetric]
    by (cases "a > v"; cases "v1 > a") auto
qed

lemma js_mp_sub_spec:
  assumes "js_mp_sub xs ys k = (rs, k')" "length xs = length ys" "uint k \<le> 1"
  shows "lval rs - LB ^ length xs * uint k' = lval xs - lval ys - uint k \<and> length rs = length xs \<and> uint k' \<le> 1"
  using assms
proof (induction xs ys k arbitrary: rs k' rule: js_mp_sub.induct)
  case (1 v xs y ys k)
  define v1 where "v1 = (v - y) - k"
  define k2 where "k2 = (if v1 > v - y then 1 else 0) OR (if v - y > v then 1 else 0 :: u32)"
  obtain rs' k3 where rs: "js_mp_sub xs ys k2 = (rs', k3)" by fastforce
  note A = borrow_spec [OF 1(4) v1_def k2_def]
  have "lval rs' - LB ^ length xs * uint k3 = lval xs - lval ys - uint k2 \<and> length rs' = length xs \<and> uint k3 \<le> 1"
    using 1(1) [OF refl refl refl refl, of rs' k3] 1(3) A rs unfolding v1_def k2_def by simp
  moreover have "rs = v1 # rs'" "k' = k3" using 1(2) rs by (simp_all add: Let_def v1_def k2_def)
  ultimately show ?case using A 1(3) by (auto simp: algebra_simps)
qed auto

lemma uint_minus_1: "uint (- 1 :: u32) = LB - 1"
  by (simp add: unsigned_minus_1_eq_mask mask_eq_exp_minus_1)

lemma uint_not: "uint (NOT x :: u32) = LB - 1 - uint x"
proof -
  have "NOT x = - 1 - x" by (simp add: not_eq_complement)
  then show ?thesis using uint_sub_if' [of "- 1" x] uint_minus_1 uint_limb [of x] by simp
qed

lemma mp_neg_loop_spec:
  assumes "mp_neg_loop xs c = (rs, c')" "uint c \<le> 1"
  shows "lval rs + LB ^ length xs * uint c' = LB ^ length xs - 1 - lval xs + uint c \<and> length rs = length xs \<and> uint c' \<le> 1"
  using assms
proof (induction xs arbitrary: c rs c')
  case (Cons x xs)
  define v where "v = NOT x + c"
  define c1 where "c1 = (if v < c then 1 else 0 :: u32)"
  obtain rs' c2 where rs: "mp_neg_loop xs c1 = (rs', c2)" by fastforce
  have n: "uint (NOT x) = LB - 1 - uint x" by (rule uint_not)
  have v: "uint v = (if uint (NOT x) + uint c < LB then uint (NOT x) + uint c else uint (NOT x) + uint c - LB)"
    using uint_plus_if' [of "NOT x" c] by (simp add: v_def)
  have "v < c \<longleftrightarrow> \<not> uint (NOT x) + uint c < LB"
    using v uint_limb [of "NOT x"] uint_limb [of c] by (auto simp: word_less_alt)
  then have A: "uint v + LB * uint c1 = LB - 1 - uint x + uint c" "uint c1 \<le> 1"
    using v n by (auto simp: c1_def)
  have "rs = v # rs'" "c' = c2" using Cons.prems(1) rs by (simp_all add: Let_def v_def c1_def)
  then show ?case using Cons.IH [OF rs A(2)] A by (auto simp: algebra_simps)
qed simp

lemma limb_prod: "uint (x :: u32) * uint (b :: u32) \<le> 18446744065119617025"
proof -
  have "uint x * uint b \<le> 4294967295 * 4294967295"
    using uint_limb [of x] uint_limb [of b] by (intro mult_mono) simp_all
  then show ?thesis by simp
qed

lemma wide_prod: "uint (ucast (x :: u32) * ucast (b :: u32) :: u64) = uint x * uint b"
  using limb_prod [of x b] uint_mult_lem [of "ucast x :: u64" "ucast b"] by (simp add: uint_widen)

lemma wide_mul_add:
  "uint (ucast (x :: u32) * ucast (b :: u32) + ucast (l :: u32) :: u64) = uint x * uint b + uint l"
  "uint (ucast x * ucast b + ucast l + ucast (z :: u32) :: u64) = uint x * uint b + uint l + uint z"
proof -
  show e: "uint (ucast x * ucast b + ucast l :: u64) = uint x * uint b + uint l"
    using limb_prod [of x b] uint_limb [of l] uint_add_lem [of "ucast x * ucast b :: u64" "ucast l"]
    by (simp add: wide_prod uint_widen)
  show "uint (ucast x * ucast b + ucast l + ucast z :: u64) = uint x * uint b + uint l + uint z"
    using limb_prod [of x b] uint_limb [of l] uint_limb [of z] uint_add_lem [of "ucast x * ucast b + ucast l :: u64" "ucast z"]
    by (simp add: e uint_widen)
qed

lemma split_dlimb: "uint (ucast t :: u32) + LB * uint (ucast (drop_bit 32 t) :: u32) = uint (t :: u64)"
  by (simp only: uint_high) (simp add: uint_low)

lemma js_mp_mul1_spec:
  assumes "js_mp_mul1 xs b l = (rs, h)"
  shows "lval rs + LB ^ length xs * uint h = lval xs * uint b + uint l \<and> length rs = length xs"
  using assms
proof (induction xs arbitrary: l rs h)
  case (Cons x xs)
  define t where "t = (ucast x * ucast b + ucast l :: u64)"
  obtain rs' h' where rs: "js_mp_mul1 xs b (ucast (drop_bit 32 t)) = (rs', h')" by fastforce
  have "rs = ucast t # rs'" "h = h'" using Cons.prems rs by (simp_all add: Let_def t_def)
  moreover have "uint (ucast t :: u32) + LB * uint (ucast (drop_bit 32 t) :: u32) = uint x * uint b + uint l"
    using split_dlimb [of t] wide_mul_add(1) [of x b l] by (simp add: t_def)
  ultimately show ?case using Cons.IH [OF rs] by (auto simp: algebra_simps)
qed simp

lemma add_mul1_loop_spec:
  assumes "add_mul1_loop zs xs b l = (rs, h)" "length zs = length xs"
  shows "lval rs + LB ^ length xs * uint h = lval zs + lval xs * uint b + uint l \<and> length rs = length xs"
  using assms
proof (induction zs xs b l arbitrary: rs h rule: add_mul1_loop.induct)
  case (1 z zs x xs b l)
  define t where "t = (ucast x * ucast b + ucast l + ucast z :: u64)"
  obtain rs' h' where rs: "add_mul1_loop zs xs b (ucast (drop_bit 32 t)) = (rs', h')" by fastforce
  have IH: "lval rs' + LB ^ length xs * uint h' = lval zs + lval xs * uint b + uint (ucast (drop_bit 32 t) :: u32) \<and> length rs' = length xs"
    using 1(1) [OF t_def rs] 1(3) by simp
  have "rs = ucast t # rs'" "h = h'" using 1(2) rs by (simp_all add: Let_def t_def)
  moreover have "uint (ucast t :: u32) + LB * uint (ucast (drop_bit 32 t) :: u32) = uint x * uint b + uint l + uint z"
    using split_dlimb [of t] wide_mul_add(2) [of x b l z] by (simp add: t_def)
  ultimately show ?case using IH by (auto simp: algebra_simps)
qed auto

lemma mul_rows_spec:
  assumes "length res = length op1 + 1" "op1 \<noteq> []"
  shows "lval (mul_rows op1 ys res) = lval res + LB * (lval op1 * lval ys) \<and> length (mul_rows op1 ys res) = length res + length ys"
  using assms
proof (induction ys arbitrary: res)
  case (Cons y ys)
  obtain r0 rt where res: "res = r0 # rt" "length rt = length op1" using Cons.prems by (cases res) auto
  obtain row r where row: "js_mp_add_mul1 rt op1 y = (row, r)" by fastforce
  then have R: "lval row + LB ^ length op1 * uint r = lval rt + lval op1 * uint y" "length row = length op1"
    using add_mul1_loop_spec [of rt op1 y 0 row r] res by (simp_all add: js_mp_add_mul1_def)
  have "mul_rows op1 (y # ys) res = r0 # mul_rows op1 ys (row @ [r])" using row res by simp
  moreover have "lval (mul_rows op1 ys (row @ [r])) = lval (row @ [r]) + LB * (lval op1 * lval ys) \<and>
      length (mul_rows op1 ys (row @ [r])) = length (row @ [r]) + length ys"
    using Cons.IH [of "row @ [r]"] R Cons.prems by simp
  ultimately show ?case using R res by (simp add: lval_append algebra_simps)
qed simp

lemma js_mp_mul_basecase_spec:
  assumes "op1 \<noteq> []" "op2 \<noteq> []"
  shows "lval (js_mp_mul_basecase op1 op2) = lval op1 * lval op2 \<and> length (js_mp_mul_basecase op1 op2) = length op1 + length op2"
proof -
  obtain y ys where y: "op2 = y # ys" using assms(2) by (cases op2) auto
  obtain row r where row: "js_mp_mul1 op1 y 0 = (row, r)" by fastforce
  note R = js_mp_mul1_spec [OF row]
  show ?thesis
    using mul_rows_spec [of "row @ [r]" op1 ys] R row assms(1) y
    by (simp add: js_mp_mul_basecase_def lval_append algebra_simps)
qed

lemma sub_mul1_limb:
  fixes z x b l :: u32 and t :: u64
  assumes "t = ucast z - ucast x * ucast b - ucast l"
  shows "uint (ucast t :: u32) - LB * uint (ucast (- drop_bit 32 t) :: u32) = uint z - uint x * uint b - uint l"
proof -
  define d where "d = uint z - uint x * uint b - uint l"
  have "uint t = ((uint z - uint x * uint b mod 18446744073709551616) mod 18446744073709551616 - uint l) mod 18446744073709551616"
    unfolding assms by (simp add: uint_word_ariths uint_widen)
  then have t: "uint t = d mod 18446744073709551616" by (simp add: d_def mod_simps)
  have q: "- 4294967295 \<le> d div LB" "d div LB \<le> 0"
    using limb_prod [of x b] uint_limb [of z] uint_limb [of x] uint_limb [of b] uint_limb [of l]
      mult_nonneg_nonneg [of "uint x" "uint b"] unfolding d_def by linarith+
  have "d mod 18446744073709551616 div LB = d div LB mod LB"
    using zmod_zmult2_eq [of LB d LB] by (simp add: div_mult_self4)
  then have h: "uint (drop_bit 32 t) = d div LB mod LB" using t by (simp add: uint_shift_right)
  have "uint (- drop_bit 32 t) mod LB = (- (d div LB)) mod LB"
  proof -
    have "uint (- drop_bit 32 t) = (- (d div LB mod LB)) mod 18446744073709551616"
      using h by (simp add: uint_word_ariths)
    also have "\<dots> mod LB = (- (d div LB mod LB)) mod LB" by (rule mod_mod_cancel) simp
    finally show ?thesis by (simp add: mod_simps)
  qed
  also have "\<dots> = - (d div LB)" using q by (intro mod_pos_pos_trivial) simp_all
  finally have "uint (ucast (- drop_bit 32 t) :: u32) = - (d div LB)" by (simp add: uint_low)
  moreover have "uint (ucast t :: u32) = d mod LB" using t by (simp add: uint_low mod_mod_cancel)
  ultimately show ?thesis unfolding d_def [symmetric] using div_mult_mod_eq [of d LB] by simp
qed

lemma sub_mul1_loop_spec:
  assumes "sub_mul1_loop zs xs b l = (rs, h)" "length zs = length xs"
  shows "lval rs - LB ^ length xs * uint h = lval zs - lval xs * uint b - uint l \<and> length rs = length xs"
  using assms
proof (induction zs xs b l arbitrary: rs h rule: sub_mul1_loop.induct)
  case (1 z zs x xs b l)
  define t where "t = (ucast z - ucast x * ucast b - ucast l :: u64)"
  define l' where "l' = (ucast (- drop_bit 32 t) :: u32)"
  obtain rs' h' where rs: "sub_mul1_loop zs xs b l' = (rs', h')" by fastforce
  have IH: "lval rs' - LB ^ length xs * uint h' = lval zs - lval xs * uint b - uint l' \<and> length rs' = length xs"
    using 1(1) [OF t_def rs [unfolded l'_def]] 1(3) by (simp add: l'_def)
  have "rs = ucast t # rs'" "h = h'" using 1(2) rs by (simp_all add: Let_def t_def l'_def)
  moreover have "uint (ucast t :: u32) - LB * uint l' = uint z - uint x * uint b - uint l"
    unfolding l'_def by (rule sub_mul1_limb) (rule t_def)
  ultimately show ?case using IH by (auto simp: algebra_simps)
qed auto

lemma join_dlimb: "uint (push_bit 32 (ucast (r :: u32)) OR ucast (x :: u32) :: u64) = uint r * LB + uint x"
proof -
  have x: "unat (ucast x :: u64) = unat x" "unat (ucast r :: u64) = unat r"
    using unat_u32_less [of x] unat_u32_less [of r] by (simp_all add: unat_ucast_fit)
  have p: "unat (push_bit 32 (ucast r :: u64)) = unat r * 4294967296"
    using unat_u32_less [of r] x by (subst unat_shift_left) simp_all
  have "unat (ucast x OR push_bit 32 (ucast r :: u64)) = unat x + unat r * 4294967296"
    using unat_or_tag [of "ucast x :: u64" 32 "push_bit 32 (ucast r)"] x p unat_u32_less [of x] unat_u32_less [of r]
    by (simp add: take_bit_push_bit)
  then have "int (unat (push_bit 32 (ucast r :: u64) OR ucast x)) = int (unat r) * LB + int (unat x)"
    by (simp add: or.commute)
  then show ?thesis by simp
qed

lemma div_below: "a < b * c \<Longrightarrow> 0 < b \<Longrightarrow> a div b < (c :: int)"
proof (rule ccontr)
  assume a: "a < b * c" "0 < b" "\<not> a div b < c"
  then have "b * c \<le> b * (a div b)" by simp
  also have "\<dots> \<le> a" using a(2) by (simp add: minus_mod_eq_mult_div [symmetric])
  finally show False using a(1) by simp
qed

lemma div1_step:
  assumes "uint (r :: u32) < uint (b :: u32)" "a = push_bit 32 (ucast r) OR (ucast (x :: u32) :: u64)"
  shows "uint r * LB + uint x = uint (ucast (a div ucast b) :: u32) * uint b + uint (ucast (a mod ucast b) :: u32)"
    "uint (ucast (a mod ucast b) :: u32) < uint (b :: u32)"
proof -
  have a: "uint a = uint r * LB + uint x" using assms(2) join_dlimb by simp
  have b: "0 < uint b" using assms(1) uint_limb [of r] by linarith
  have "uint a < uint b * LB"
  proof -
    have "uint r * LB + LB \<le> uint b * LB" using assms(1) by (simp add: algebra_simps)
    then show ?thesis using a uint_limb [of x] by linarith
  qed
  then have "uint a div uint b < LB" using b by (rule div_below)
  moreover have "0 \<le> uint a div uint b" using b by (simp add: pos_imp_zdiv_nonneg_iff)
  ultimately have q: "uint (ucast (a div ucast b) :: u32) = uint a div uint b"
    by (simp add: uint_low uint_div uint_widen)
  have m: "uint a mod uint b < uint b" "0 \<le> uint a mod uint b" using b by simp_all
  then have r: "uint (ucast (a mod ucast b) :: u32) = uint a mod uint b"
    using uint_limb [of b] by (simp add: uint_low uint_mod uint_widen)
  show "uint (ucast (a mod ucast b) :: u32) < uint b" using r m by simp
  show "uint r * LB + uint x = uint (ucast (a div ucast b) :: u32) * uint b + uint (ucast (a mod ucast b) :: u32)"
    unfolding q r a [symmetric] by simp
qed

lemma js_mp_div1_spec:
  assumes "js_mp_div1 xs b r = (qs, r')" "uint r < uint b"
  shows "lval xs + LB ^ length xs * uint r = lval qs * uint b + uint r' \<and> uint r' < uint b \<and> length qs = length xs"
  using assms
proof (induction xs arbitrary: qs r')
  case (Cons x xs)
  obtain qs1 r1 where q: "js_mp_div1 xs b r = (qs1, r1)" by fastforce
  define a where "a = (push_bit 32 (ucast r1) OR ucast x :: u64)"
  have IH: "lval xs + LB ^ length xs * uint r = lval qs1 * uint b + uint r1" "uint r1 < uint b" "length qs1 = length xs"
    using Cons.IH [OF q Cons.prems(2)] by simp_all
  have e: "qs = ucast (a div ucast b) # qs1" "r' = ucast (a mod ucast b)"
    using Cons.prems(1) q by (simp_all add: Let_def a_def)
  note S = div1_step [OF IH(2) a_def]
  have "LB * (lval xs + LB ^ length xs * uint r) = LB * (lval qs1 * uint b + uint r1)" using IH(1) by simp
  then show ?case using S IH(3) unfolding e by (simp add: algebra_simps)
qed simp

lemma udiv_gap:
  fixes B d m k a1 a0 b :: int
  assumes "(B + m) * d + k = B * B"
  shows "(a1 * B + a0) * B - (m * (a1 + b) + (a0 - b * (B - d)) + a1 * B) * d = (B - d) * (a0 - b * (B - d)) + k * (a1 + b)"
proof -
  have "m * d = B * B - k - B * d" using assms by (simp add: algebra_simps)
  then have "m * (a1 + b) * d = (B * B - k - B * d) * (a1 + b)" by (metis mult.assoc mult.commute)
  then show ?thesis by (simp add: algebra_simps)
qed

lemma udiv_estimate:
  fixes B d m k a1 a0 b :: int
  assumes d: "B \<le> 2 * d" "d < B" and k: "(B + m) * d + k = B * B" "1 \<le> k" "k \<le> d"
    and a: "0 \<le> a1" "a1 < d" "0 \<le> a0" "a0 < B"
    and b: "b = 0 \<and> 2 * a0 < B \<or> b = 1 \<and> B \<le> 2 * a0"
    and T: "T = m * (a1 + b) + (a0 - b * (B - d)) + a1 * B"
  shows "0 \<le> a1 * B + a0 - (T div B) * d" "a1 * B + a0 - (T div B) * d < 2 * d"
proof -
  define n where "n = a1 * B + a0"
  define u where "u = a0 - b * (B - d)"
  have u: "0 \<le> u" "u \<le> d" using b d a unfolding u_def by auto
  have g: "n * B - T * d = (B - d) * u + k * (a1 + b)"
    unfolding T n_def u_def using udiv_gap [OF k(1)] by simp
  have ab: "0 \<le> a1 + b" "a1 + b \<le> d" using a b by auto
  have 1: "0 \<le> (B - d) * u" "(B - d) * u \<le> (B - d) * d" using u d(2) by (simp_all add: mult_left_mono)
  have 2: "0 \<le> k * (a1 + b)" "k * (a1 + b) \<le> d * d" using k ab by (simp_all add: mult_mono)
  have g1: "0 \<le> n * B - T * d" "n * B - T * d \<le> B * d" using g 1 2 by (simp_all add: algebra_simps)
  have B: "0 < B" using d a by linarith
  have d0: "0 < d" using d a by linarith
  have q: "(T div B) * B \<le> T" "T < (T div B) * B + B"
    using B div_mult_mod_eq [of T B] pos_mod_bound [OF B, of T] pos_mod_sign [OF B, of T] by linarith+
  have "(T div B) * B * d \<le> T * d" using q(1) d0 by (simp add: mult_right_mono)
  then have "0 \<le> (n - (T div B) * d) * B" using g1(1) by (simp add: algebra_simps)
  then show "0 \<le> a1 * B + a0 - (T div B) * d" using B unfolding n_def by (simp add: zero_le_mult_iff)
  have "T * d < ((T div B) * B + B) * d" using q(2) d0 by (simp add: mult_strict_right_mono)
  then have "(n - (T div B) * d) * B < 2 * d * B" using g1(2) by (simp add: algebra_simps)
  then show "a1 * B + a0 - (T div B) * d < 2 * d" using B unfolding n_def by simp
qed

lemma udiv_inv:
  fixes d :: u32
  assumes "LB \<le> 2 * uint d"
  obtains k where "(LB + uint (js_udiv1norm_init d)) * uint d + k = LB * LB" "1 \<le> k" "k \<le> uint d"
proof -
  have d: "0 < uint d" "uint d < LB" using assms uint_limb [of d] by linarith+
  have a1: "uint (- d - 1) = LB - 1 - uint d"
  proof -
    have "- d - 1 = NOT d" by (simp add: not_eq_complement)
    then show ?thesis by (simp add: uint_not)
  qed
  define a where "a = (push_bit 32 (ucast (- d - 1 :: u32)) OR ucast (- 1 :: u32) :: u64)"
  have av: "uint a = LB * LB - uint d * LB - 1"
    unfolding a_def by (simp only: join_dlimb a1 uint_minus_1) (simp add: algebra_simps)
  have q0: "0 \<le> uint a div uint d" using d by (simp add: pos_imp_zdiv_nonneg_iff)
  have "LB * LB \<le> (2 * uint d) * LB" using assms by simp
  then have "uint a < uint d * LB" using av by linarith
  then have "uint a div uint d < LB" using d(1) by (rule div_below)
  then have q: "uint (js_udiv1norm_init d) = uint a div uint d"
    using q0 unfolding js_udiv1norm_init_def a_def Let_def by (simp add: uint_low uint_div uint_widen)
  define k where "k = 1 + uint a mod uint d"
  have "(LB + uint (js_udiv1norm_init d)) * uint d + k = LB * LB"
    unfolding q k_def using av div_mult_mod_eq [of "uint a" "uint d"] by (simp add: algebra_simps)
  moreover have "1 \<le> k" using d unfolding k_def by simp
  moreover have "k \<le> uint d" using pos_mod_bound [OF d(1), of "uint a"] unfolding k_def by linarith
  ultimately show ?thesis using that by blast
qed

lemma bit31: "bit (x :: u32) 31 \<longleftrightarrow> LB \<le> 2 * uint x"
proof -
  have "bit (uint x) 31 = bit x 31" by (simp add: bit_unsigned_iff)
  then have "bit x 31 \<longleftrightarrow> odd (uint x div 2 ^ 31)" by (metis bit_iff_odd)
  moreover have "(uint x div 2 ^ 31 = 0 \<and> 2 * uint x < LB) \<or> (uint x div 2 ^ 31 = 1 \<and> LB \<le> 2 * uint x)"
  proof -
    define v where "v = uint x"
    have "0 \<le> v" "v < LB" using uint_limb [of x] by (simp_all add: v_def)
    moreover define k where "k = v div 2147483648"
    ultimately have "0 \<le> k" "k \<le> 1" "k * 2147483648 \<le> v" "v < k * 2147483648 + 2147483648"
      unfolding k_def by linarith+
    then have "(k = 0 \<and> 2 * v < LB) \<or> (k = 1 \<and> LB \<le> 2 * v)" by (cases "k = 0") simp_all
    then show ?thesis unfolding v_def [symmetric] by (simp add: k_def)
  qed
  ultimately show ?thesis by auto
qed

lemma n_adj:
  fixes a0 d :: u32
  assumes "LB \<le> 2 * uint d"
  shows "uint (a0 + ((if bit a0 31 then - 1 else 0) AND d)) = uint a0 - (if bit a0 31 then 1 else 0) * (LB - uint d)"
  using assms bit31 [of a0] uint_limb [of a0] uint_limb [of d] by (simp add: uint_plus_if')

lemma udiv_a2:
  fixes a1 a0 d q :: u32
  assumes "t = uint a1 * LB + uint a0 - uint q * uint d - uint d" "- uint d \<le> t" "t < uint d"
    and "a2 = (push_bit 32 (ucast a1) OR ucast a0) - ucast q * ucast d - (ucast d :: u64)"
  shows "uint a2 = (if t < 0 then t + 18446744073709551616 else t)"
proof -
  have "a2 = word_of_int (uint a1 * LB + uint a0) - word_of_int (uint q * uint d) - word_of_int (uint d)"
    unfolding assms(4) by (metis join_dlimb wide_prod uint_widen word_of_int_uint)
  then have "a2 = word_of_int t" unfolding assms(1) by simp
  then have "uint a2 = t mod 18446744073709551616" by (simp add: uint_word_of_int)
  moreover have "t mod 18446744073709551616 = t + 18446744073709551616" if "t < 0"
    using that assms(2) uint_limb [of d] mod_pos_pos_trivial [of "t + 18446744073709551616" 18446744073709551616] by simp
  ultimately show ?thesis using assms(2,3) uint_limb [of d] by simp
qed

lemma udiv_final:
  fixes a2 :: u64 and d q :: u32
  assumes "uint a2 = (if t < 0 then t + 18446744073709551616 else t)" "- uint d \<le> t" "t < uint d"
    and "0 \<le> t \<Longrightarrow> uint q + 1 < LB"
    and ah: "ah = ucast (drop_bit 32 a2)"
  shows "uint (q + (1 + ah)) = uint q + (if t < 0 then 0 else 1)"
    "uint (ucast a2 + (ah AND d)) = (if t < 0 then t + uint d else t)"
proof -
  have d: "0 \<le> uint d" "uint d < LB" using uint_limb [of d] by simp_all
  have m: "ah = (if t < 0 then - 1 else 0)"
  proof (cases "t < 0")
    case True
    then have "uint a2 div LB = LB - 1" using assms(1,2) d by simp
    then have "uint ah = uint (- 1 :: u32)" unfolding ah uint_high uint_minus_1 .
    then have "ah = - 1" by (simp only: word_uint_eq_iff)
    then show ?thesis using True by simp
  next
    case False
    then have "uint a2 div LB = 0" using assms(1,3) d by simp
    then have "uint ah = uint (0 :: u32)" unfolding ah uint_high by simp
    then have "ah = 0" by (simp only: word_uint_eq_iff)
    then show ?thesis using False by simp
  qed
  show "uint (q + (1 + ah)) = uint q + (if t < 0 then 0 else 1)"
    using assms(4) uint_add_lem [of q 1] unfolding m by simp
  have low: "uint (ucast a2 :: u32) = (if t < 0 then t + LB else t)"
  proof (cases "t < 0")
    case True
    have "(t + 18446744073709551616) mod LB = (t + LB) mod LB" using mod_mult_self1 [of t LB LB] by simp
    moreover have "(t + LB) mod LB = t + LB" using True assms(2) d by (intro mod_pos_pos_trivial) linarith+
    ultimately show ?thesis using True assms(1) by (simp only: uint_low if_True)
  qed (use assms(1,3) d in \<open>simp add: uint_low\<close>)
  show "uint (ucast a2 + (ah AND d)) = (if t < 0 then t + uint d else t)"
    using low assms(2,3) d uint_plus_if' [of "ucast a2 :: u32" d] unfolding m by simp
qed

lemma js_udiv1norm_spec:
  assumes d: "LB \<le> 2 * uint d" and a: "uint a1 < uint d"
    and r: "js_udiv1norm a1 a0 d (js_udiv1norm_init d) = (q, r)"
  shows "uint a1 * LB + uint a0 = uint q * uint d + uint r \<and> uint r < uint d"
proof -
  obtain k where k: "(LB + uint (js_udiv1norm_init d)) * uint d + k = LB * LB" "1 \<le> k" "k \<le> uint d"
    using udiv_inv [OF d] .
  define b :: int where "b = (if bit a0 31 then 1 else 0)"
  define a2 where "a2 = (ucast (js_udiv1norm_init d) * ucast (a1 - (if bit a0 31 then - 1 else 0)) +
    ucast (a0 + ((if bit a0 31 then - 1 else 0) AND d)) :: u64)"
  define T where "T = uint (js_udiv1norm_init d) * (uint a1 + b) + (uint a0 - b * (LB - uint d)) + uint a1 * LB"
  have "uint (a1 - (if bit a0 31 then - 1 else 0)) = uint a1 + b"
    using a uint_limb [of d] uint_add_lem [of a1 1] by (simp add: b_def)
  then have a2: "uint a2 + uint a1 * LB = T" unfolding a2_def T_def wide_mul_add n_adj [OF d] by (simp add: b_def)
  have bb: "b = 0 \<and> 2 * uint a0 < LB \<or> b = 1 \<and> LB \<le> 2 * uint a0" unfolding b_def using bit31 [of a0] by simp
  note est = udiv_estimate [OF d uint_limb(2) k uint_limb(1) a uint_limb bb T_def]
  define q1 where "q1 = ucast (drop_bit 32 a2) + a1"
  have Tq: "T div LB = uint a2 div LB + uint a1" using a2 by simp
  have n: "uint a1 * LB + uint a0 < uint d * LB"
  proof -
    have "(uint a1 + 1) * LB \<le> uint d * LB" using a by (intro mult_right_mono) simp_all
    then show ?thesis using uint_limb [of a0] by (simp add: algebra_simps)
  qed
  have "T div LB * uint d < LB * uint d" using est(1) n by (simp add: mult.commute)
  then have "T div LB < LB" using uint_limb(1) [of d] by (simp add: mult_less_cancel_right)
  then have q1: "uint q1 = T div LB" unfolding q1_def Tq
    using uint_add_lem [of "ucast (drop_bit 32 a2)" a1] by (simp add: uint_high)
  define t where "t = uint a1 * LB + uint a0 - uint q1 * uint d - uint d"
  define a3 where "a3 = (push_bit 32 (ucast a1) OR ucast a0) - ucast q1 * ucast d - (ucast d :: u64)"
  have t: "- uint d \<le> t" "t < uint d" using est unfolding t_def q1 by linarith+
  note a3 = udiv_a2 [OF t_def t a3_def]
  have q2: "uint q1 + 1 < LB" if "0 \<le> t"
  proof -
    have "(uint q1 + 1) * uint d < LB * uint d" using that n unfolding t_def by (simp add: algebra_simps)
    then show ?thesis using uint_limb(1) [of d] by (simp add: mult_less_cancel_right)
  qed
  have e: "q = q1 + (1 + ucast (drop_bit 32 a3))" "r = ucast a3 + (ucast (drop_bit 32 a3) AND d)"
    using r unfolding js_udiv1norm_def Let_def a3_def q1_def a2_def by simp_all
  have F: "uint q = uint q1 + (if t < 0 then 0 else 1)" "uint r = (if t < 0 then t + uint d else t)"
    unfolding e using udiv_final [OF a3 t _ refl, of q1] q2 by blast+
  show ?thesis unfolding F using t by (simp add: t_def algebra_simps)
qed

lemma div1norm_loop_spec:
  assumes "LB \<le> 2 * uint b" "div1norm_loop xs b (js_udiv1norm_init b) r = (qs, r')" "uint r < uint b"
  shows "lval xs + LB ^ length xs * uint r = lval qs * uint b + uint r' \<and> uint r' < uint b \<and> length qs = length xs"
  using assms(2)
proof (induction xs arbitrary: qs r')
  case (Cons x xs)
  obtain qs1 r1 where q: "div1norm_loop xs b (js_udiv1norm_init b) r = (qs1, r1)" by fastforce
  obtain q r2 where u: "js_udiv1norm r1 x b (js_udiv1norm_init b) = (q, r2)" by fastforce
  have IH: "lval xs + LB ^ length xs * uint r = lval qs1 * uint b + uint r1" "uint r1 < uint b" "length qs1 = length xs"
    using Cons.IH [OF q] by simp_all
  have e: "qs = q # qs1" "r' = r2" using Cons.prems q u by simp_all
  have "LB * (lval xs + LB ^ length xs * uint r) = LB * (lval qs1 * uint b + uint r1)" using IH(1) by simp
  then show ?case using js_udiv1norm_spec [OF assms(1) IH(2) u] IH(3) unfolding e by (simp add: algebra_simps)
qed (use assms(3) in simp)

lemma js_mp_div1norm_spec:
  assumes "js_mp_div1norm xs b r = (qs, r')" "uint r < uint b" "LB \<le> 2 * uint b"
  shows "lval xs + LB ^ length xs * uint r = lval qs * uint b + uint r' \<and> uint r' < uint b \<and> length qs = length xs"
  using assms js_mp_div1_spec div1norm_loop_spec unfolding js_mp_div1norm_def by (simp split: if_splits)
lemma uint_shift_left: "s \<le> 32 \<Longrightarrow> uint (push_bit s (v :: u32)) = (uint v mod 2 ^ (32 - s)) * 2 ^ s"
  by (subst unsigned_push_bit_eq) (simp add: take_bit_push_bit, simp add: push_bit_eq_mult take_bit_eq_mod)

lemma limb_exp: "s \<le> 32 \<Longrightarrow> 2 ^ (32 - s) * 2 ^ s = (LB :: int)"
  by (simp add: power_add [symmetric])

lemma uint_shift_or:
  assumes "s \<le> 32" "uint l < 2 ^ s"
  shows "uint (push_bit s v OR l :: u32) = (uint v mod 2 ^ (32 - s)) * 2 ^ s + uint l"
proof -
  have "int (unat l) < int (2 ^ s)" using assms(2) by simp
  then have "l AND push_bit s v = 0" by (intro and_high_low [of _ s]) (simp_all only: of_nat_less_iff, simp add: take_bit_push_bit)
  then have e: "push_bit s v OR l = push_bit s v + l" using or_eq_add [of l "push_bit s v"] by (simp add: or.commute add.commute)
  have "(uint v mod 2 ^ (32 - s) + 1) * 2 ^ s \<le> 2 ^ (32 - s) * 2 ^ s" by (intro mult_right_mono) (simp_all add: zless_imp_add1_zle)
  then have "uint v mod 2 ^ (32 - s) * 2 ^ s + uint l < LB" using assms(2) limb_exp [OF assms(1)] by (simp add: algebra_simps)
  then show ?thesis unfolding e using uint_add_lem [of "push_bit s v" l] by (simp add: uint_shift_left [OF assms(1)])
qed

lemma split_limb: "s \<le> 32 \<Longrightarrow> uint v * 2 ^ s = (uint v mod 2 ^ (32 - s)) * 2 ^ s + LB * (uint v div 2 ^ (32 - s))"
proof -
  assume s: "s \<le> 32"
  have "uint v * 2 ^ s = (uint v div 2 ^ (32 - s) * 2 ^ (32 - s) + uint v mod 2 ^ (32 - s)) * 2 ^ s" by (simp only: div_mult_mod_eq)
  also have "\<dots> = (uint v mod 2 ^ (32 - s)) * 2 ^ s + (2 ^ (32 - s) * 2 ^ s) * (uint v div 2 ^ (32 - s))"
    by (simp only: algebra_simps)
  finally show ?thesis unfolding limb_exp [OF s] .
qed

lemma limb_div_bound: "s \<le> 32 \<Longrightarrow> uint (v :: u32) div 2 ^ (32 - s) < 2 ^ s"
  using limb_exp [of s] uint_limb [of v] by (intro div_below) simp_all

lemma shl_loop_spec:
  assumes "shl_loop xs s l = (rs, h)" "s \<le> 32" "uint l < 2 ^ s"
  shows "lval rs + LB ^ length xs * uint h = lval xs * 2 ^ s + uint l \<and> uint h < 2 ^ s \<and> length rs = length xs"
  using assms(1,3)
proof (induction xs arbitrary: l rs)
  case (Cons v xs)
  obtain rs1 where r: "shl_loop xs s (drop_bit (32 - s) v) = (rs1, h)" "rs = (push_bit s v OR l) # rs1"
    using Cons.prems(1) by (auto split: prod.splits)
  have d: "uint (drop_bit (32 - s) v) < 2 ^ s" using limb_div_bound [OF assms(2)] by (simp add: uint_shift_right)
  have IH: "lval rs1 + LB ^ length xs * uint h = lval xs * 2 ^ s + uint v div 2 ^ (32 - s)" "uint h < 2 ^ s" "length rs1 = length xs"
    using Cons.IH [OF r(1) d] by (simp_all add: uint_shift_right)
  have "LB * (lval rs1 + LB ^ length xs * uint h) = LB * (lval xs * 2 ^ s + uint v div 2 ^ (32 - s))" using IH(1) by simp
  then show ?case using uint_shift_or [OF assms(2) Cons.prems(2), of v] split_limb [OF assms(2), of v] IH(2,3) r(2)
    by (simp add: algebra_simps)
qed simp

lemma js_mp_shl_spec:
  assumes "js_mp_shl xs s = (rs, h)" "s \<le> 32"
  shows "lval rs + LB ^ length xs * uint h = lval xs * 2 ^ s \<and> uint h < 2 ^ s \<and> length rs = length xs"
  using shl_loop_spec [of xs s 0 rs h] assms by (simp add: js_mp_shl_def)

lemma shr_limb:
  assumes "s \<le> 32"
  shows "uint (drop_bit s a OR push_bit (32 - s) l :: u32) * 2 ^ s + uint a mod 2 ^ s = (uint l mod 2 ^ s) * LB + uint a"
proof -
  have "uint (drop_bit s a) < 2 ^ (32 - s)" using limb_div_bound [of "32 - s" a] assms by (simp add: uint_shift_right)
  then have "uint (drop_bit s a OR push_bit (32 - s) l) = (uint l mod 2 ^ s) * 2 ^ (32 - s) + uint a div 2 ^ s"
    using uint_shift_or [of "32 - s" "drop_bit s a" l] assms
    by (simp only: or.commute [of "drop_bit s a"] uint_shift_right) simp
  then have "uint (drop_bit s a OR push_bit (32 - s) l) * 2 ^ s + uint a mod 2 ^ s =
      (uint l mod 2 ^ s) * (2 ^ (32 - s) * 2 ^ s) + (uint a div 2 ^ s * 2 ^ s + uint a mod 2 ^ s)"
    by (simp only: distrib_right mult.assoc add.assoc)
  then show ?thesis unfolding limb_exp [OF assms] by (simp only: div_mult_mod_eq)
qed

lemma shr_loop_spec:
  assumes "shr_loop xs s high = (rs, l)" "s \<le> 32"
  shows "lval rs * 2 ^ s + uint l mod 2 ^ s = lval xs + LB ^ length xs * (uint high mod 2 ^ s) \<and> length rs = length xs"
  using assms(1)
proof (induction xs arbitrary: l rs)
  case (Cons a xs)
  obtain rs1 l1 where r1: "shr_loop xs s high = (rs1, l1)" by fastforce
  have r: "rs = (drop_bit s a OR push_bit (32 - s) l1) # rs1" "l = a" using Cons.prems r1 by auto
  have IH: "lval rs1 * 2 ^ s + uint l1 mod 2 ^ s = lval xs + LB ^ length xs * (uint high mod 2 ^ s)" "length rs1 = length xs"
    using Cons.IH [OF r1] by simp_all
  have "LB * (lval rs1 * 2 ^ s + uint l1 mod 2 ^ s) = LB * (lval xs + LB ^ length xs * (uint high mod 2 ^ s))" using IH(1) by simp
  then show ?case using shr_limb [OF assms(2), of a l1] IH(2) unfolding r by (simp add: algebra_simps)
qed simp

lemma uint_and_mask: "s \<le> 31 \<Longrightarrow> uint (l AND (push_bit s 1 - 1) :: u32) = uint l mod 2 ^ s"
  by (simp add: push_bit_of_1 mask_eq_exp_minus_1 [symmetric] take_bit_eq_mask [symmetric])
    (subst unsigned_take_bit_eq, simp add: take_bit_eq_mod)

lemma js_mp_shr_spec:
  assumes "js_mp_shr xs s high = (rs, r)" "s \<le> 31"
  shows "lval rs * 2 ^ s + uint r = lval xs + LB ^ length xs * (uint high mod 2 ^ s) \<and> uint r < 2 ^ s \<and> length rs = length xs"
proof -
  obtain rs1 l where l1: "shr_loop xs s high = (rs1, l)" by fastforce
  then have l: "rs1 = rs" "r = l AND (push_bit s 1 - 1)" using assms(1) by (simp_all add: js_mp_shr_def)
  show ?thesis using shr_loop_spec [OF l1] assms(2) unfolding l(1) l(2) uint_and_mask [OF assms(2)] by simp
qed

lemma digit_estimate:
  fixes B P u b1 b' w' q :: int
  assumes "0 < P" "B \<le> 2 * b1" "0 \<le> b'" "b' < P" "0 \<le> w'" "w' < P" "0 \<le> q" "q < B"
    and hi: "q * b1 \<le> u" and lo: "q = B - 1 \<or> u < (q + 1) * b1"
    and W: "u * P + w' < B * (b1 * P + b')"
  shows "- 2 * (b1 * P + b') < u * P + w' - q * (b1 * P + b')" "u * P + w' - q * (b1 * P + b') < b1 * P + b'"
proof -
  have "q * b' \<le> (B - 1) * P" using assms by (intro mult_mono) simp_all
  then have 1: "q * b' \<le> B * P - P" by (simp add: algebra_simps)
  have 2: "q * (b1 * P) \<le> u * P" using hi assms(1) by (simp add: mult.assoc [symmetric] mult_right_mono)
  have 3: "B * P \<le> 2 * (b1 * P)" using assms(1,2) by (simp add: mult.assoc [symmetric])
  show "- 2 * (b1 * P + b') < u * P + w' - q * (b1 * P + b')"
    unfolding distrib_left using 1 2 3 assms(1,3,5) by linarith
  show "u * P + w' - q * (b1 * P + b') < b1 * P + b'"
  proof (cases "q = B - 1")
    case False
    then have "(u + 1) * P \<le> (q + 1) * b1 * P" using lo assms(1) by (intro mult_right_mono) simp_all
    then have "u * P + P \<le> q * (b1 * P) + b1 * P" by (simp add: algebra_simps)
    moreover have "0 \<le> q * b' + b'" using assms by simp
    ultimately show ?thesis unfolding distrib_left using assms(6) by linarith
  next
    case True
    show ?thesis using W unfolding True left_diff_distrib mult_1 by linarith
  qed
qed

lemma uint_inc: "a + 1 \<noteq> 0 \<Longrightarrow> uint (a + 1 :: u32) = uint a + 1"
proof -
  assume "a + 1 \<noteq> 0"
  then have "uint (a + 1) \<noteq> 0" by (simp only: uint_0_iff simp_thms)
  moreover have "uint (a + 1) = (uint a + 1) mod LB" by (simp add: uint_word_ariths)
  moreover have "uint a + 1 < LB \<or> uint a + 1 = LB" using uint_limb(2) [of a] by linarith
  ultimately show ?thesis using uint_limb(1) [of a] mod_pos_pos_trivial [of "uint a + 1" LB] by force
qed

lemma add_back_spec:
  assumes "X = lval w + LB ^ length tabb * (uint a - LB)" "X < 0" "- int k * lval tabb \<le> X" "length w = length tabb"
  shows "\<exists>j w'. add_back k tabb q w a = Inr (q - of_nat j, w', 0) \<and> lval w' = X + int j * lval tabb \<and>
    X + int j * lval tabb < lval tabb \<and> length w' = length tabb \<and> j \<le> k"
  using assms
proof (induction k arbitrary: X q w a)
  case (Suc k)
  obtain w1 c where w1: "js_mp_add w tabb 0 = (w1, c)" by fastforce
  define N where "N = LB ^ length tabb"
  have N: "0 < N" unfolding N_def by simp
  have s: "lval w1 + N * uint c = lval w + lval tabb" "length w1 = length tabb" "uint c \<le> 1"
    using js_mp_add_spec [OF w1] Suc.prems(4) by (simp_all add: N_def)
  define a1 where "a1 = (if c \<noteq> 0 then a + 1 else a)"
  have "uint c = 0 \<or> uint c = 1" using s(3) uint_limb(1) [of c] by linarith
  then have c: "uint c = (if c \<noteq> 0 then 1 else 0)" by (auto simp: word_uint_eq_iff)
  show ?case
  proof (cases "c \<noteq> 0 \<and> a + 1 = 0")
    case True
    then have "a = - 1" by (simp add: eq_neg_iff_add_eq_0)
    then have "uint a - LB = - 1" "uint c = 1" using True c uint_minus_1 by simp_all
    then have v: "lval w1 = X + lval tabb" using s(1) Suc.prems(1) unfolding N_def [symmetric] by simp
    have "add_back (Suc k) tabb q w a = Inr (q - of_nat 1, w1, 0)" using True w1 by simp
    moreover have "lval w1 = X + int 1 * lval tabb" "X + int 1 * lval tabb < lval tabb" using v Suc.prems(2) by simp_all
    ultimately show ?thesis using s(2) by (intro exI [of _ 1] exI [of _ w1] conjI) (assumption | simp)+
  next
    case False
    have "uint a1 = uint a + uint c" using False c uint_inc [of a] unfolding a1_def by (cases "c = 0") simp_all
    then have X: "X + lval tabb = lval w1 + N * (uint a1 - LB)"
      using s(1) Suc.prems(1) unfolding N_def [symmetric] by (simp only: right_diff_distrib distrib_left)
    have "uint a1 - LB \<le> - 1" using uint_limb [of a1] by linarith
    then have "N * (uint a1 - LB) \<le> N * (- 1)" using N by (intro mult_left_mono) simp_all
    then have "X + lval tabb < 0" using X lval_bounds(2) [of w1] s(2) by (simp add: N_def)
    moreover have "- int k * lval tabb \<le> X + lval tabb" using Suc.prems(3) by (simp add: algebra_simps)
    ultimately obtain j w' where "add_back k tabb (q - 1) w1 a1 = Inr (q - 1 - of_nat j, w', 0)"
        "lval w' = X + lval tabb + int j * lval tabb" "X + lval tabb + int j * lval tabb < lval tabb"
        "length w' = length tabb" "j \<le> k"
      using Suc.IH [OF X [unfolded N_def], of "q - 1"] s(2) by blast
    moreover have "add_back (Suc k) tabb q w a = add_back k tabb (q - 1) w1 a1" using w1 False by (auto simp: a1_def)
    ultimately show ?thesis
      by (intro exI [of _ "Suc j"] exI [of _ w'] conjI) (simp_all only: diff_diff_eq of_nat_Suc, simp_all add: algebra_simps)
  qed
qed simp

lemma quotient_digit_spec:
  assumes "LB \<le> 2 * uint b1" "b1_inv \<noteq> 0 \<longrightarrow> b1_inv = js_udiv1norm_init b1" "q = quotient_digit hi lo b1 b1_inv"
  shows "uint q * uint b1 \<le> uint hi * LB + uint lo" "uint q = LB - 1 \<or> uint hi * LB + uint lo < (uint q + 1) * uint b1"
proof -
  consider "b1 \<le> hi" | r :: u32 where "uint hi * LB + uint lo = uint q * uint b1 + uint r" "uint r < uint (b1 :: u32)"
  proof (cases "b1 \<le> hi")
    case False
    then have h: "uint hi < uint b1" by (simp add: word_le_def)
    show ?thesis
    proof (cases "b1_inv = 0")
      case True
      then have "q = ucast ((push_bit 32 (ucast hi) OR ucast lo :: u64) div ucast b1)"
        using False assms(3) by (simp add: quotient_digit_def)
      then show ?thesis using that(2) div1_step [OF h refl, of lo] by blast
    next
      case False
      obtain r where "js_udiv1norm hi lo b1 b1_inv = (q, r)"
        using assms(3) False h by (cases "js_udiv1norm hi lo b1 b1_inv") (simp add: quotient_digit_def word_le_def)
      then show ?thesis using that(2) js_udiv1norm_spec [OF assms(1) h, of lo q r] assms(2) False by blast
    qed
  qed (use that in blast)
  then have "uint q * uint b1 \<le> uint hi * LB + uint lo \<and> (uint q = LB - 1 \<or> uint hi * LB + uint lo < (uint q + 1) * uint b1)"
  proof cases
    case 1
    then have q: "uint q = LB - 1" using assms(3) uint_minus_1 by (simp add: quotient_digit_def)
    have "(LB - 1) * uint b1 \<le> LB * uint hi" using 1 uint_limb [of b1] by (intro mult_mono) (simp_all add: word_le_def)
    then have "(LB - 1) * uint b1 \<le> uint hi * LB + uint lo" using uint_limb(1) [of lo] by linarith
    then show ?thesis unfolding q by blast
  next
    case 2
    then show ?thesis unfolding distrib_right using uint_limb(1) [of r] by linarith
  qed
  then show "uint q * uint b1 \<le> uint hi * LB + uint lo" "uint q = LB - 1 \<or> uint hi * LB + uint lo < (uint q + 1) * uint b1"
    by blast+
qed

lemma uint_sub_nat: "int j \<le> uint q \<Longrightarrow> uint (q - of_nat j :: u32) = uint q - int j"
proof -
  assume "int j \<le> uint q"
  then have "(uint q - int j) mod LB = uint q - int j" using uint_limb(2) [of q] by (intro mod_pos_pos_trivial) linarith+
  moreover have "q - of_nat j = word_of_int (uint q - int j)" by simp
  moreover have "uint (word_of_int (uint q - int j) :: u32) = (uint q - int j) mod LB" by (subst uint_word_of_int) simp
  ultimately show ?thesis by (simp only:)
qed

lemma sub_no_borrow: "uint r \<le> uint v \<Longrightarrow> \<not> v - r > v \<and> uint (v - r :: u32) = uint v - uint r"
  using uint_limb(1) [of r] by (simp add: word_less_def uint_sub_if')

lemma sub_borrow: "uint v < uint r \<Longrightarrow> v - r > v \<and> uint (v - r :: u32) = uint v - uint r + LB"
  using uint_limb(2) [of r] by (simp add: word_less_def uint_sub_if')

lemma divnorm_finish:
  assumes X: "X = lval w1 + LB ^ length tabb * (uint v - uint r)" "X = W - uint q * lval tabb" "0 \<le> W"
    and e: "- 2 * lval tabb < X" "X < lval tabb" and l: "length w1 = length tabb"
  shows "\<exists>q' w'. (let a = v - r in if a > v then add_back 2 tabb q w1 a else Inr (q, w1, a)) = Inr (q', w', 0) \<and>
    W = uint q' * lval tabb + lval w' \<and> lval w' < lval tabb \<and> length w' = length tabb"
proof (cases "uint r \<le> uint v")
  case True
  have "uint v - uint r < 1"
  proof (rule ccontr)
    assume "\<not> ?thesis"
    then have "LB ^ length tabb * 1 \<le> LB ^ length tabb * (uint v - uint r)" by (intro mult_left_mono) simp_all
    then show False using X(1) e(2) lval_bounds(2) [of tabb] lval_bounds(1) [of w1] by linarith
  qed
  then have z: "uint v - uint r = 0" using True by simp
  then have "v = r" by (simp add: word_uint_eq_iff)
  then show ?thesis using sub_no_borrow [OF True] X e l z by (simp add: Let_def)
next
  case False
  then have a: "v - r > v" "uint (v - r) - LB = uint v - uint r" using sub_borrow [of v r] by simp_all
  have "LB ^ length tabb * (uint v - uint r) \<le> LB ^ length tabb * (- 1)" using False by (intro mult_left_mono) simp_all
  then have "X < 0" using X(1) lval_bounds(2) [of w1] unfolding l by linarith
  moreover have "- int 2 * lval tabb \<le> X" using e(1) by simp
  ultimately obtain j w' where j: "add_back 2 tabb q w1 (v - r) = Inr (q - of_nat j, w', 0)"
      "lval w' = X + int j * lval tabb" "X + int j * lval tabb < lval tabb" "length w' = length tabb"
    using add_back_spec [of X w1 tabb "v - r" 2 q] X(1) l unfolding a(2) by blast
  have "int j \<le> uint q"
  proof (rule ccontr)
    assume "\<not> ?thesis"
    then have "(uint q - int j + 1) * lval tabb \<le> 0" using lval_bounds(1) [of tabb] by (intro mult_nonpos_nonneg) simp_all
    then show False using j(3) X(2,3) by (simp add: algebra_simps)
  qed
  then have "uint (q - of_nat j) = uint q - int j" by (rule uint_sub_nat)
  then have "W = uint (q - of_nat j) * lval tabb + lval w'" using X(2) j(2) by (simp add: left_diff_distrib)
  then show ?thesis using a(1) j by (intro exI [of _ "q - of_nat j"] exI [of _ w']) (simp add: Let_def)
qed

lemma divnorm_round_spec:
  assumes b: "tabb = bl @ [b1]" "LB \<le> 2 * uint b1" "bl \<noteq> []"
    and i: "b1_inv \<noteq> 0 \<longrightarrow> b1_inv = js_udiv1norm_init b1"
    and w: "length w = Suc (length tabb)" "lval w < LB * lval tabb"
  shows "\<exists>q w'. divnorm_round tabb b1_inv w = Inr (q, w', 0) \<and> lval w = uint q * lval tabb + lval w' \<and>
    lval w' < lval tabb \<and> length w' = length tabb"
proof -
  define n where "n = length bl"
  define P where "P = LB ^ n"
  obtain ls lo hi where ws: "w = ls @ [lo, hi]" "length ls = n"
  proof -
    have "w = take n w @ [w ! n, w ! Suc n]"
      using w(1) b(1) by (intro nth_equalityI) (auto simp: n_def nth_append less_Suc_eq)
    then show ?thesis using that w(1) b(1) by (metis length_take length_append_singleton le_add2 min.absorb2 n_def plus_1_eq_Suc le_SucI)
  qed
  have P: "0 < P" by (simp add: P_def)
  have bv: "lval tabb = uint b1 * P + lval bl" unfolding b(1) lval_append by (simp add: P_def n_def mult.commute)
  have wv: "lval w = (uint hi * LB + uint lo) * P + lval ls" unfolding ws(1) lval_append by (simp add: P_def ws(2) algebra_simps)
  define q where "q = quotient_digit hi lo b1 b1_inv"
  note qd = quotient_digit_spec [OF b(2) i q_def]
  have e: "- 2 * lval tabb < lval w - uint q * lval tabb" "lval w - uint q * lval tabb < lval tabb"
    using digit_estimate [OF P b(2) lval_bounds(1) _ lval_bounds(1) _ uint_limb qd, of bl ls] w(2) lval_bounds(2) [of bl] lval_bounds(2) [of ls] ws(2)
    unfolding bv wv P_def n_def by simp_all
  obtain w1 r where s: "js_mp_sub_mul1 (ls @ [lo]) tabb q = (w1, r)" by fastforce
  have sv: "lval w1 - LB ^ length tabb * uint r = lval (ls @ [lo]) - lval tabb * uint q" "length w1 = length tabb"
    using sub_mul1_loop_spec [OF s [unfolded js_mp_sub_mul1_def]] ws(2) b(1) by (simp_all add: n_def)
  have "lval w = lval (ls @ [lo]) + LB ^ length tabb * uint hi"
    unfolding wv by (simp add: lval_append ws(2) b(1) P_def n_def algebra_simps)
  then have X: "lval w - uint q * lval tabb = lval w1 + LB ^ length tabb * (uint hi - uint r)"
    using sv(1) by (simp add: algebra_simps)
  have "divnorm_round tabb b1_inv w = (let a = hi - r in if a > hi then add_back 2 tabb q w1 a else Inr (q, w1, a))"
    using s ws by (simp add: divnorm_round_def b(1) nth_append q_def n_def Let_def)
  then show ?thesis using divnorm_finish [OF X refl lval_bounds(1) e sv(2)] by simp
qed

lemma divnorm_loop_spec:
  assumes b: "tabb = bl @ [b1]" "LB \<le> 2 * uint b1" "bl \<noteq> []"
    and i: "b1_inv \<noteq> 0 \<longrightarrow> b1_inv = js_udiv1norm_init b1"
    and w: "length w = length tabb" "lval w < lval tabb"
  shows "\<exists>qs w'. divnorm_loop tabb b1_inv xs w = Inr (qs, w') \<and> lval (xs @ w) = lval qs * lval tabb + lval w' \<and>
    lval w' < lval tabb \<and> length w' = length tabb \<and> length qs = length xs"
proof (induction xs)
  case (Cons x xs)
  then obtain qs w1 where IH: "divnorm_loop tabb b1_inv xs w = Inr (qs, w1)" "lval (xs @ w) = lval qs * lval tabb + lval w1"
    "lval w1 < lval tabb" "length w1 = length tabb" "length qs = length xs" by blast
  have "lval (x # w1) < LB * lval tabb" using IH(3) uint_limb [of x] by simp
  then obtain q w' where r: "divnorm_round tabb b1_inv (x # w1) = Inr (q, w', 0)" "lval (x # w1) = uint q * lval tabb + lval w'"
    "lval w' < lval tabb" "length w' = length tabb"
    using divnorm_round_spec [OF b i, of "x # w1"] IH(4) by auto
  have "LB * lval (xs @ w) = LB * (lval qs * lval tabb + lval w1)" using IH(2) by simp
  then have "lval ((x # xs) @ w) = lval (q # qs) * lval tabb + lval w'" using r(2) by (simp add: algebra_simps)
  then show ?case using IH(1,5) r(1,3,4) by simp
qed (use w in simp)

lemma high_digit_spec:
  assumes "length as = length bs"
  shows "high_digit (rev as) (rev bs) = (if lval bs \<le> lval as then 1 else 0)"
  using assms
proof (induction as arbitrary: bs rule: rev_induct)
  case (snoc a as)
  then obtain b bs1 where b: "bs = bs1 @ [b]" "length as = length bs1" by (cases bs rule: rev_cases) auto
  have l: "lval (as @ [a]) = lval as + LB ^ length bs1 * uint a" "lval (bs1 @ [b]) = lval bs1 + LB ^ length bs1 * uint b"
    by (simp_all add: lval_append b(2))
  have less: "lval u + LB ^ length bs1 * x < lval v + LB ^ length bs1 * y" if "x < y" "length u = length bs1" for u v x y
  proof -
    have "LB ^ length bs1 * (x + 1) \<le> LB ^ length bs1 * y" using that(1) by (intro mult_left_mono) simp_all
    then show ?thesis using lval_bounds(2) [of u] lval_bounds(1) [of v] that(2) by (simp add: distrib_left)
  qed
  consider "a = b" | "uint a < uint b" | "uint b < uint a" by (metis linorder_neqE word_uint_eq_iff)
  then show ?case
  proof cases
    case 1
    then show ?thesis using snoc.IH [OF b(2)] unfolding b(1) l by simp
  next
    case 2
    then show ?thesis using less [OF 2, of as bs1] b(2) unfolding b(1) l by (auto simp: word_less_def)
  next
    case 3
    then show ?thesis using less [OF 3, of bs1 as] unfolding b(1) l by (auto simp: word_less_def)
  qed
qed simp

lemma lval_normal:
  assumes "LB \<le> 2 * uint b1" "tabb = bl @ [b1]"
  shows "LB ^ length tabb \<le> 2 * lval tabb" "0 < lval tabb"
proof -
  have "LB * LB ^ length bl \<le> (2 * uint b1) * LB ^ length bl" using assms(1) by (intro mult_right_mono) simp_all
  then have "LB ^ Suc (length bl) \<le> 2 * (lval bl + LB ^ length bl * uint b1)"
    unfolding power_Suc distrib_left using lval_bounds(1) [of bl] by (simp only: mult.assoc mult.commute)
  then show "LB ^ length tabb \<le> 2 * lval tabb" by (simp add: assms(2) lval_append)
  then show "0 < lval tabb" using zero_less_power [of LB "length tabb"] by linarith
qed

lemma divnorm_first:
  assumes b: "LB \<le> 2 * uint b1" "tabb = bl @ [b1]" and l: "length ta = length tabb"
    and q: "q = high_digit (rev ta) (rev tabb)" and w: "w = (if q \<noteq> 0 then fst (js_mp_sub ta tabb 0) else ta)"
  shows "lval ta = uint q * lval tabb + lval w" "lval w < lval tabb" "length w = length tabb"
proof -
  obtain rs k where s: "js_mp_sub ta tabb 0 = (rs, k)" by fastforce
  have sv: "lval rs - LB ^ length ta * uint k = lval ta - lval tabb" "length rs = length ta" "uint k \<le> 1"
    using js_mp_sub_spec [OF s l] by simp_all
  have "uint q * lval tabb + lval w = lval ta \<and> lval w < lval tabb \<and> length w = length tabb"
  proof (cases "lval tabb \<le> lval ta")
    case True
    have "uint k = 0"
    proof (rule ccontr)
      assume "uint k \<noteq> 0"
      then have "uint k = 1" using sv(3) uint_limb(1) [of k] by linarith
      then show False using sv(1,2) True lval_bounds(2) [of rs] by simp
    qed
    then have "lval rs = lval ta - lval tabb" using sv(1) by simp
    then show ?thesis using True q w s sv(2) l high_digit_spec [OF l] lval_normal(1) [OF b] lval_bounds(2) [of ta]
      by simp
  qed (use q w l high_digit_spec [OF l] in simp)
  then show "lval ta = uint q * lval tabb + lval w" "lval w < lval tabb" "length w = length tabb" by simp_all
qed

lemma js_mp_divnorm_spec:
  assumes b: "tabb = bl @ [b1]" "LB \<le> 2 * uint b1" and n: "length tabb \<le> length taba"
  shows "\<exists>qs rs. js_mp_divnorm taba tabb = Inr (qs, rs) \<and> lval taba = lval qs * lval tabb + lval rs \<and>
    lval rs < lval tabb \<and> length rs = length tabb \<and> length qs = Suc (length taba - length tabb)"
proof (cases "bl = []")
  case True
  obtain qs r where q: "js_mp_div1norm taba b1 0 = (qs, r)" by fastforce
  have "lval taba = lval qs * uint b1 + uint r" "uint r < uint b1" "length qs = length taba"
    using js_mp_div1norm_spec [OF q _ b(2)] b(2) by auto
  then show ?thesis using q True n by (simp add: js_mp_divnorm_def b(1))
next
  case False
  define m where "m = length taba - length tabb"
  define b1_inv where "b1_inv = (if m \<ge> UDIV1NORM_THRESHOLD then js_udiv1norm_init b1 else 0)"
  define q where "q = high_digit (rev (drop m taba)) (rev tabb)"
  define w where "w = (if q \<noteq> 0 then fst (js_mp_sub (drop m taba) tabb 0) else drop m taba)"
  have l: "length (drop m taba) = length tabb" using n by (simp add: m_def)
  note f = divnorm_first [OF b(2,1) l q_def w_def]
  have i: "b1_inv \<noteq> 0 \<longrightarrow> b1_inv = js_udiv1norm_init b1" by (simp add: b1_inv_def)
  obtain qs w' where r: "divnorm_loop tabb b1_inv (take m taba) w = Inr (qs, w')"
      "lval (take m taba @ w) = lval qs * lval tabb + lval w'" "lval w' < lval tabb" "length w' = length tabb" "length qs = m"
    using divnorm_loop_spec [OF b False i f(3,2), of "take m taba"] by (auto simp: m_def)
  have nb: "length tabb \<noteq> 1" "tabb ! (length tabb - 1) = b1" using False by (simp_all add: b(1) nth_append)
  have "js_mp_divnorm taba tabb = res_bind (divnorm_loop tabb b1_inv (take m taba) w) (\<lambda>(qs, w1). Inr (qs @ [q], w1))"
    unfolding js_mp_divnorm_def Let_def nb(2) b1_inv_def w_def q_def m_def by (simp only: nb(1) if_False)
  then have "js_mp_divnorm taba tabb = Inr (qs @ [q], w')" unfolding r(1) by simp
  moreover have "lval taba = lval (qs @ [q]) * lval tabb + lval w'"
  proof -
    have m: "length (take m taba) = m" by (simp add: m_def)
    have "lval taba = lval (take m taba @ drop m taba)" by simp
    also have "\<dots> = lval (take m taba) + LB ^ m * (uint q * lval tabb + lval w)" using f(1) by (simp only: lval_append m)
    also have "\<dots> = lval (take m taba @ w) + LB ^ m * uint q * lval tabb"
      unfolding lval_append m by (simp add: algebra_simps)
    also have "\<dots> = lval (qs @ [q]) * lval tabb + lval w'" unfolding r(2) by (simp add: lval_append r(5) algebra_simps)
    finally show ?thesis .
  qed
  ultimately show ?thesis using r(3-5) by (simp add: m_def)
qed

lemma clz32_spec:
  assumes "x \<noteq> 0"
  shows "clz32 x < 32" "2147483648 \<le> uint x * 2 ^ clz32 x" "uint x < 2 ^ (32 - clz32 x)"
proof -
  note z = leading_zeros [OF assms _ clz32_def, simplified]
  then show "clz32 x < 32" "uint x < 2 ^ (32 - clz32 x)" by simp_all
  have "2 ^ (31 - clz32 x) * 2 ^ clz32 x \<le> uint x * 2 ^ clz32 x" using z(2) by simp
  then show "2147483648 \<le> uint x * 2 ^ clz32 x" using z(1) by (simp add: power_add [symmetric])
qed

end
