(* ===== verification/BigInt.thy ===== *)
theory BigInt
  imports Limbs
begin

text \<open>
  BigInt values (\<open>src/quickjs.c\<close>, \<open>js_bigint_new\<close> to \<open>js_bigint_cmp\<close>): two's complement numbers in an
  array of 32-bit limbs whose length is the field \<open>len\<close>. The structure is the list of its limbs. The
  argument \<open>alloc\<close> tells whether the allocator grants room for that many limbs; a raised exception is
  a value of \<open>bigint_error\<close>. This theory has the representation and the arithmetic operations.
\<close>

section \<open>Structure\<close>

type_synonym JSBigInt = "u32 list"

datatype bigint_error = TooLargeToAllocate | TooLarge | NoMemory | DivisionByZero | NegativeExponent

type_synonym 'a big = "bigint_error + 'a"

type_synonym limb_alloc = "nat \<Rightarrow> bool"

definition big_bind :: "'a big \<Rightarrow> ('a \<Rightarrow> 'b big) \<Rightarrow> 'b big" where
  "big_bind r k = (case r of Inl e \<Rightarrow> Inl e | Inr x \<Rightarrow> k x)"

abbreviation JS_BIGINT_MAX_SIZE :: nat where "JS_BIGINT_MAX_SIZE \<equiv> 32768"

section \<open>Construction\<close>

text \<open>The new object has its limbs still to be written; callers write all of them.\<close>

definition js_bigint_new :: "limb_alloc \<Rightarrow> nat \<Rightarrow> unit big" where
  "js_bigint_new alloc len =
     (if len > JS_BIGINT_MAX_SIZE then Inl TooLargeToAllocate else if \<not> alloc len then Inl NoMemory else Inr ())"

lemma js_bigint_new_code [code]:
  "js_bigint_new alloc len =
     (if 32768 < int len then Inl TooLargeToAllocate else if \<not> alloc len then Inl NoMemory else Inr ())"
  by (simp add: js_bigint_new_def)

definition js_bigint_set_si :: "u32 \<Rightarrow> JSBigInt" where
  "js_bigint_set_si a = [a]"

definition js_bigint_set_si64 :: "u64 \<Rightarrow> JSBigInt" where
  "js_bigint_set_si64 a =
     (if sint a \<ge> - 2147483648 \<and> sint a \<le> 2147483647 then [ucast a] else [ucast a, ucast (signed_drop_bit 32 a)])"

definition js_bigint_new_si :: "limb_alloc \<Rightarrow> u32 \<Rightarrow> JSBigInt big" where
  "js_bigint_new_si alloc a = big_bind (js_bigint_new alloc 1) (\<lambda>_. Inr [a])"

definition js_bigint_new_si64 :: "limb_alloc \<Rightarrow> u64 \<Rightarrow> JSBigInt big" where
  "js_bigint_new_si64 alloc a =
     (if sint a \<ge> - 2147483648 \<and> sint a \<le> 2147483647 then js_bigint_new_si alloc (ucast a)
      else big_bind (js_bigint_new alloc 2) (\<lambda>_. Inr [ucast a, ucast (signed_drop_bit 32 a)]))"

definition js_bigint_new_ui64 :: "limb_alloc \<Rightarrow> u64 \<Rightarrow> JSBigInt big" where
  "js_bigint_new_ui64 alloc a =
     (if a \<le> 9223372036854775807 then js_bigint_new_si64 alloc a
      else big_bind (js_bigint_new alloc ((65 + 32 - 1) div 32)) (\<lambda>_. Inr [ucast a, ucast (drop_bit 32 a), 0]))"

definition js_bigint_new_di :: "limb_alloc \<Rightarrow> u64 \<Rightarrow> JSBigInt big" where
  "js_bigint_new_di alloc a =
     (if a = scast (ucast a :: u32) then big_bind (js_bigint_new alloc 1) (\<lambda>_. Inr [ucast a])
      else big_bind (js_bigint_new alloc 2) (\<lambda>_. Inr [ucast a, ucast (signed_drop_bit 32 a)]))"

text \<open>
  The length without redundant high limbs. The reallocation that follows in the code may fail, in
  which case the old, larger block is kept: the limbs are the same.
\<close>

fun normalize_len :: "u32 list \<Rightarrow> nat \<Rightarrow> nat" where
  "normalize_len tab (Suc (Suc l)) =
     (let v = tab ! Suc l
      in if (v \<noteq> 0 \<and> v \<noteq> - 1) \<or> v AND 1 \<noteq> drop_bit 31 (tab ! l) then Suc (Suc l) else normalize_len tab (Suc l))"
| "normalize_len tab l = l"

definition js_bigint_normalize1 :: "u32 list \<Rightarrow> nat \<Rightarrow> JSBigInt" where
  "js_bigint_normalize1 a l = take (normalize_len a l) a"

definition js_bigint_normalize :: "u32 list \<Rightarrow> JSBigInt" where
  "js_bigint_normalize a = js_bigint_normalize1 a (length a)"

text \<open>The sign is 0 or 1 in the code; its negation as a limb is all zeros or all ones.\<close>

definition js_bigint_sign :: "JSBigInt \<Rightarrow> bool" where
  "js_bigint_sign a \<longleftrightarrow> drop_bit 31 (a ! (length a - 1)) \<noteq> 0"

definition sign_limb :: "JSBigInt \<Rightarrow> u32" where
  "sign_limb a = (if js_bigint_sign a then - 1 else 0)"

definition js_bigint_get_si_sat :: "JSBigInt \<Rightarrow> u32" where
  "js_bigint_get_si_sat a =
     (if length a = 1 then a ! 0 else if js_bigint_sign a then 0x80000000 else 0x7FFFFFFF)"

definition js_bigint_extend :: "limb_alloc \<Rightarrow> u32 list \<Rightarrow> u32 \<Rightarrow> JSBigInt big" where
  "js_bigint_extend alloc r op1 =
     (let n2 = length r
      in if (op1 \<noteq> 0 \<and> op1 \<noteq> - 1) \<or> op1 AND 1 \<noteq> drop_bit 31 (r ! (n2 - 1))
         then (if alloc (n2 + 1) then Inr (r @ [op1]) else Inl NoMemory)
         else Inr (js_bigint_normalize r))"

section \<open>Arithmetic\<close>

text \<open>
  The loops of the addition are chains of \<open>ADDC\<close>, as \<open>js_mp_add\<close> is; the shorter operand is continued
  by its sign.
\<close>

definition js_bigint_add :: "limb_alloc \<Rightarrow> JSBigInt \<Rightarrow> JSBigInt \<Rightarrow> bool \<Rightarrow> JSBigInt big" where
  "js_bigint_add alloc a b b_neg =
     (let n2 = max (length a) (length b);
          n1 = min (length a) (length b);
          m = (if b_neg then - 1 else 0)
      in big_bind (js_bigint_new alloc n2) (\<lambda>_.
           case js_mp_add (take n1 a) (map (\<lambda>y. y XOR m) (take n1 b)) (if b_neg then 1 else 0) of (r1, c1) \<Rightarrow>
             let a_sign = sign_limb a; b_sign = sign_limb b XOR m
             in case (if length a > length b then js_mp_add (drop n1 a) (replicate (n2 - n1) b_sign) c1
                      else if length a < length b then js_mp_add (replicate (n2 - n1) a_sign) (map (\<lambda>y. y XOR m) (drop n1 b)) c1
                      else ([], c1)) of (r2, c2) \<Rightarrow>
                  js_bigint_extend alloc (r1 @ r2) (a_sign + b_sign + c2)))"

definition js_bigint_neg :: "limb_alloc \<Rightarrow> JSBigInt \<Rightarrow> JSBigInt big" where
  "js_bigint_neg alloc a = js_bigint_add alloc (js_bigint_set_si 0) a True"

definition js_bigint_mul :: "limb_alloc \<Rightarrow> JSBigInt \<Rightarrow> JSBigInt \<Rightarrow> JSBigInt big" where
  "js_bigint_mul alloc a b =
     big_bind (js_bigint_new alloc (length a + length b)) (\<lambda>_.
       let na = length a; nb = length b;
           r = js_mp_mul_basecase a b;
           r1 = (if js_bigint_sign a then take na r @ fst (js_mp_sub (drop na r) b 0) else r);
           r2 = (if js_bigint_sign b then take nb r1 @ fst (js_mp_sub (drop nb r1) a 0) else r1)
       in Inr (js_bigint_normalize r2))"

text \<open>The magnitude of a number and its length without leading zero limbs.\<close>

definition magnitude :: "JSBigInt \<Rightarrow> u32 list" where
  "magnitude a = (if js_bigint_sign a then fst (js_mp_neg a) else a)"

fun strip_len :: "u32 list \<Rightarrow> nat \<Rightarrow> nat" where
  "strip_len tab (Suc (Suc n)) = (if tab ! Suc n = 0 then strip_len tab (Suc n) else Suc (Suc n))"
| "strip_len tab n = n"

definition js_bigint_divrem :: "limb_alloc \<Rightarrow> JSBigInt \<Rightarrow> JSBigInt \<Rightarrow> bool \<Rightarrow> JSBigInt big res" where
  "js_bigint_divrem alloc a b is_rem =
     (if length b = 1 \<and> b ! 0 = 0 then Inr (Inl DivisionByZero)
      else
        let a_sign = js_bigint_sign a; b_sign = js_bigint_sign b
        in case js_bigint_new alloc (length a + 2) of Inl e \<Rightarrow> Inr (Inl e) | Inr _ \<Rightarrow>
             let r0 = magnitude a; na0 = strip_len r0 (length a)
             in if \<not> alloc (length b) then Inr (Inl NoMemory)
                else
                  let b0 = magnitude b; nb = strip_len b0 (length b)
                  in if na0 < nb
                     then Inr (if is_rem then big_bind (js_bigint_new alloc (length a)) (\<lambda>_. Inr a)
                               else js_bigint_new_si alloc 0)
                     else
                       let shift = js_limb_clz (b0 ! (nb - 1));
                           tabb = (if shift \<noteq> 0 then fst (js_mp_shl (take nb b0) shift) else take nb b0);
                           taba = (if shift \<noteq> 0
                                   then (case js_mp_shl (take na0 r0) shift of (t, h) \<Rightarrow> if h \<noteq> 0 then t @ [h] else t)
                                   else take na0 r0);
                           na = length taba
                       in case js_bigint_new alloc (na - nb + 2) of Inl e \<Rightarrow> Inr (Inl e) | Inr _ \<Rightarrow>
                            res_bind (js_mp_divnorm taba tabb) (\<lambda>(q, r).
                              if is_rem
                              then
                                let r1 = (if shift \<noteq> 0 then fst (js_mp_shr r shift 0) else r) @ [0];
                                    r2 = (if a_sign then fst (js_mp_neg r1) else r1)
                                in Inr (Inr (js_bigint_normalize1 r2 (nb + 1)))
                              else
                                let q1 = q @ [0];
                                    q2 = (if a_sign \<noteq> b_sign then fst (js_mp_neg q1) else q1)
                                in Inr (Inr (js_bigint_normalize q2))))"

datatype logic_op = OP_or | OP_and | OP_xor

fun limb_op :: "logic_op \<Rightarrow> u32 \<Rightarrow> u32 \<Rightarrow> u32" where
  "limb_op OP_or x y = x OR y"
| "limb_op OP_and x y = x AND y"
| "limb_op OP_xor x y = x XOR y"

definition js_bigint_logic :: "limb_alloc \<Rightarrow> JSBigInt \<Rightarrow> JSBigInt \<Rightarrow> logic_op \<Rightarrow> JSBigInt big" where
  "js_bigint_logic alloc a0 b0 op =
     (let (a, b) = (if length a0 < length b0 then (b0, a0) else (a0, b0));
          b_sign = sign_limb b
      in big_bind (js_bigint_new alloc (length a)) (\<lambda>_.
           Inr (js_bigint_normalize
             (map2 (limb_op op) (take (length b) a) b @ map (\<lambda>x. limb_op op x b_sign) (drop (length b) a)))))"

definition js_bigint_not :: "limb_alloc \<Rightarrow> JSBigInt \<Rightarrow> JSBigInt big" where
  "js_bigint_not alloc a = big_bind (js_bigint_new alloc (length a)) (\<lambda>_. Inr (map (\<lambda>x. NOT x) a))"

definition js_bigint_shl :: "limb_alloc \<Rightarrow> JSBigInt \<Rightarrow> nat \<Rightarrow> JSBigInt big" where
  "js_bigint_shl alloc a shift1 =
     (if length a = 1 \<and> a ! 0 = 0 then js_bigint_new_si alloc 0
      else
        let d = shift1 div 32; shift = shift1 mod 32
        in big_bind (js_bigint_new alloc (length a + d)) (\<lambda>_.
             if shift = 0 then Inr (replicate d 0 @ a)
             else
               case js_mp_shl a shift of (r, l) \<Rightarrow>
                 let l1 = (if js_bigint_sign a then l OR push_bit shift (- 1) else l)
                 in js_bigint_extend alloc (replicate d 0 @ r) l1))"

definition js_bigint_shr :: "limb_alloc \<Rightarrow> JSBigInt \<Rightarrow> nat \<Rightarrow> JSBigInt big" where
  "js_bigint_shr alloc a shift1 =
     (let d = shift1 div 32; shift = shift1 mod 32
      in if d \<ge> length a then js_bigint_new_si alloc (sign_limb a)
         else
           big_bind (js_bigint_new alloc (length a - d)) (\<lambda>_.
             if shift = 0 then Inr (drop d a)
             else Inr (js_bigint_normalize (fst (js_mp_shr (drop d a) shift (sign_limb a))))))"

text \<open>Square and multiply over the bits of the exponent below the highest.\<close>

fun pow_loop :: "limb_alloc \<Rightarrow> JSBigInt \<Rightarrow> u32 \<Rightarrow> nat \<Rightarrow> JSBigInt \<Rightarrow> JSBigInt big" where
  "pow_loop alloc a e 0 r = Inr r"
| "pow_loop alloc a e (Suc i) r =
     big_bind (js_bigint_mul alloc r r) (\<lambda>r1.
       if bit e i then big_bind (js_bigint_mul alloc r1 a) (pow_loop alloc a e i) else pow_loop alloc a e i r1)"

definition pow_general :: "limb_alloc \<Rightarrow> JSBigInt \<Rightarrow> JSBigInt \<Rightarrow> JSBigInt big" where
  "pow_general alloc a b =
     (if length b > 1 then Inl TooLarge
      else if b ! 0 > 0x7FFFFFFF then Inl TooLarge
      else
        let e = b ! 0; n_bits = 32 - clz32 e
        in big_bind (js_bigint_new alloc (length a)) (\<lambda>_. pow_loop alloc a e (n_bits - 1) a))"

text \<open>A power of a power of two: one limb is set.\<close>

definition pow_of_two :: "limb_alloc \<Rightarrow> u32 \<Rightarrow> bool \<Rightarrow> JSBigInt \<Rightarrow> JSBigInt big" where
  "pow_of_two alloc v is_neg b =
     (let n = 32 - 1 - js_limb_clz v
      in if length b > 1 then Inl TooLarge
         else if b ! 0 > 0x7FFFFFFF then Inl TooLarge
         else
           let e = unat (b ! 0) * n
           in if e > JS_BIGINT_MAX_SIZE * 32 then Inl TooLarge
              else
                let neg = is_neg \<and> b ! 0 AND 1 \<noteq> 0;
                    len = (e + 32 + 1 - (if neg then 1 else 0)) div 32
                in big_bind (js_bigint_new alloc len) (\<lambda>_.
                     Inr ((replicate len 0)[e div 32 := push_bit (e mod 32) (if neg then - 1 else 1)])))"

definition js_bigint_pow :: "limb_alloc \<Rightarrow> JSBigInt \<Rightarrow> JSBigInt \<Rightarrow> JSBigInt big" where
  "js_bigint_pow alloc a b =
     (if js_bigint_sign b then Inl NegativeExponent
      else if length b = 1 \<and> b ! 0 = 0 then js_bigint_new_si alloc 1
      else if length a = 1
      then
        let v = a ! 0
        in if v \<le> 1 then js_bigint_new_si alloc v
           else if v = - 1 then js_bigint_new_si alloc (1 - 2 * (b ! 0 AND 1))
           else
             let is_neg = bit v 31; v1 = (if is_neg then - v else v)
             in if v1 AND (v1 - 1) = 0 then pow_of_two alloc v1 is_neg b else pow_general alloc a b
      else pow_general alloc a b)"

section \<open>Comparison\<close>

fun cmp_limbs :: "u32 list \<Rightarrow> u32 list \<Rightarrow> int" where
  "cmp_limbs (x # xs) (y # ys) = (if x \<noteq> y then (if x < y then - 1 else 1) else cmp_limbs xs ys)"
| "cmp_limbs _ _ = 0"

definition js_bigint_cmp :: "JSBigInt \<Rightarrow> JSBigInt \<Rightarrow> int" where
  "js_bigint_cmp a b =
     (let a_sign = js_bigint_sign a; b_sign = js_bigint_sign b
      in if a_sign \<noteq> b_sign then 1 - 2 * of_bool a_sign
         else if length a \<noteq> length b
         then (if length a < length b then 2 * of_bool a_sign - 1 else 1 - 2 * of_bool a_sign)
         else cmp_limbs (rev a) (rev b))"

section \<open>Representation\<close>

lemma lval_inj: "lval a = lval b \<Longrightarrow> length a = length b \<Longrightarrow> a = b"
proof (induction a arbitrary: b)
  case (Cons x a)
  then obtain y b1 where b: "b = y # b1" by (cases b) auto
  have e: "uint x + LB * lval a = uint y + LB * lval b1" using Cons.prems(1) by (simp add: b)
  then have "(uint x + LB * lval a) mod LB = (uint y + LB * lval b1) mod LB" by simp
  then have "uint x = uint y" using uint_limb [of x] uint_limb [of y] by simp
  then show ?case using e Cons b by (simp add: word_uint_eq_iff)
qed simp


definition sval :: "JSBigInt \<Rightarrow> int" where
  "sval a = lval a - (if js_bigint_sign a then LB ^ length a else 0)"

definition normal :: "JSBigInt \<Rightarrow> bool" where
  "normal a \<longleftrightarrow> a \<noteq> [] \<and> (length a \<ge> 2 \<longrightarrow> last a \<noteq> sign_limb (butlast a))"

lemma drop31: "drop_bit 31 (t :: u32) = (if bit t 31 then 1 else 0)"
proof -
  have "uint (drop_bit 31 t) = (if bit t 31 then 1 else 0)"
  proof -
    define k where "k = uint t div 2147483648"
    have "k * 2147483648 \<le> uint t" "uint t < k * 2147483648 + 2147483648" unfolding k_def by linarith+
    then have "k = (if LB \<le> 2 * uint t then 1 else 0)"
      using uint_limb(1) [of t] uint_limb(2) [of t] by (cases "LB \<le> 2 * uint t"; simp only: if_True if_False; linarith)
    then show ?thesis using bit31 [of t] by (simp add: uint_shift_right k_def [symmetric])
  qed
  then show ?thesis by (simp add: word_uint_eq_iff split: if_splits)
qed

lemma sign_last: "a \<noteq> [] \<Longrightarrow> js_bigint_sign a \<longleftrightarrow> bit (last a) 31"
  by (simp add: js_bigint_sign_def last_conv_nth drop31)

lemma sign_snoc [simp]: "js_bigint_sign (xs @ [t]) \<longleftrightarrow> bit t 31"
  by (simp add: sign_last)

lemma sign_append: "ys \<noteq> [] \<Longrightarrow> js_bigint_sign (xs @ ys) = js_bigint_sign ys"
  by (simp add: sign_last)

lemma lval_sign: "a \<noteq> [] \<Longrightarrow> js_bigint_sign a \<longleftrightarrow> LB ^ length a \<le> 2 * lval a"
proof -
  assume "a \<noteq> []"
  then obtain xs t where a: "a = xs @ [t]" using rev_exhaust by blast
  define N where "N = LB ^ length xs"
  have N: "0 < N" by (simp add: N_def)
  define p where "p = N * uint t"
  have v: "lval a = lval xs + p" "LB ^ length a = N * LB" by (simp_all add: a lval_append N_def p_def)
  have b: "0 \<le> lval xs" "lval xs < N" using lval_bounds [of xs] by (simp_all add: N_def)
  show ?thesis
  proof (cases "bit t 31")
    case True
    then have "N * LB \<le> N * (2 * uint t)" using bit31 [of t] N by simp
    then have "N * LB \<le> 2 * p" unfolding p_def by (simp only: mult.left_commute)
    then have "LB ^ length a \<le> 2 * lval a" unfolding v using b by presburger
    then show ?thesis using True by (simp add: a)
  next
    case False
    then have "N * (2 * (uint t + 1)) \<le> N * LB" using bit31 [of t] N by simp
    then have "2 * (p + N) \<le> N * LB" unfolding p_def by (simp only: mult.left_commute distrib_left mult_1_right)
    then have "\<not> LB ^ length a \<le> 2 * lval a" unfolding v using b by presburger
    then show ?thesis using False by (simp add: a)
  qed
qed

lemma sval_range: "a \<noteq> [] \<Longrightarrow> - (LB ^ length a) \<le> 2 * sval a \<and> 2 * sval a < LB ^ length a"
  using lval_sign [of a] lval_bounds [of a] by (auto simp: sval_def)

lemma sval_neg: "a \<noteq> [] \<Longrightarrow> sval a < 0 \<longleftrightarrow> js_bigint_sign a"
  using lval_sign [of a] lval_bounds [of a] by (auto simp: sval_def)

lemma mult_gap: "z \<noteq> 0 \<Longrightarrow> 0 < N \<Longrightarrow> N \<le> z * N \<or> z * N \<le> - (N :: int)"
  using mult_right_mono [of 1 z N] mult_right_mono [of z "- 1" N] by fastforce

lemma sval_unique:
  assumes "a \<noteq> []" "lval a = v + k * LB ^ length a" "- (LB ^ length a) \<le> 2 * v" "2 * v < LB ^ length a"
  shows "sval a = v"
proof -
  define N where "N = LB ^ length a"
  define s :: int where "s = (if js_bigint_sign a then 1 else 0)"
  have N: "0 < N" by (simp add: N_def)
  have e: "sval a = v + (k - s) * N" using assms(2) by (simp add: sval_def s_def N_def algebra_simps)
  have r: "- N \<le> 2 * sval a" "2 * sval a < N" "- N \<le> 2 * v" "2 * v < N"
    using sval_range [OF assms(1)] assms(3,4) by (simp_all add: N_def)
  have "k - s = 0"
  proof (rule ccontr)
    assume "k - s \<noteq> 0"
    then show False using e r mult_gap [OF _ N, of "k - s"] by linarith
  qed
  then show ?thesis using e by simp
qed

lemma sval_snoc: "sval (xs @ [t]) = lval xs + LB ^ length xs * (uint t - (if bit t 31 then LB else 0))"
  by (simp add: sval_def lval_append algebra_simps)

lemma sign_limb_bit: "a \<noteq> [] \<Longrightarrow> bit (sign_limb a) 31 \<longleftrightarrow> js_bigint_sign a"
  by (simp add: sign_limb_def)

lemma uint_sign_limb: "uint (sign_limb a) = (if js_bigint_sign a then LB - 1 else 0)"
  using uint_minus_1 by (simp add: sign_limb_def)

lemma sval_sign_limb: "a \<noteq> [] \<Longrightarrow> sval (a @ [sign_limb a]) = sval a"
  by (simp add: sval_snoc uint_sign_limb sign_limb_bit) (simp add: sval_def)

lemma redundant_limb:
  assumes "a \<noteq> []"
  shows "(t \<noteq> 0 \<and> t \<noteq> - 1) \<or> t AND 1 \<noteq> drop_bit 31 (last a) \<longleftrightarrow> t \<noteq> sign_limb a"
  using sign_last [OF assms] by (cases "bit (last a) 31") (auto simp: sign_limb_def drop31)


lemma normalize_len_spec:
  assumes "0 < l" "l \<le> length tab"
  shows "0 < normalize_len tab l \<and> normalize_len tab l \<le> l \<and> sval (take (normalize_len tab l) tab) = sval (take l tab) \<and>
    normal (take (normalize_len tab l) tab)"
  using assms
proof (induction tab l rule: normalize_len.induct)
  case (1 tab l)
  define a where "a = take (Suc l) tab"
  have t: "take (Suc (Suc l)) tab = a @ [tab ! Suc l]" using 1(3) by (simp add: a_def take_Suc_conv_app_nth)
  have a: "a \<noteq> []" "last a = tab ! l" using 1(3) by (auto simp: a_def take_Suc_conv_app_nth)
  have r: "(tab ! Suc l \<noteq> 0 \<and> tab ! Suc l \<noteq> - 1) \<or> tab ! Suc l AND 1 \<noteq> drop_bit 31 (tab ! l) \<longleftrightarrow> tab ! Suc l \<noteq> sign_limb a"
    using redundant_limb [OF a(1), of "tab ! Suc l"] unfolding a(2) .
  show ?case
  proof (cases "tab ! Suc l = sign_limb a")
    case True
    then have nr: "\<not> ((tab ! Suc l \<noteq> 0 \<and> tab ! Suc l \<noteq> - 1) \<or> tab ! Suc l AND 1 \<noteq> drop_bit 31 (tab ! l))"
      using r by blast
    then have n: "normalize_len tab (Suc (Suc l)) = normalize_len tab (Suc l)"
      unfolding normalize_len.simps Let_def by (rule if_not_P)
    have "sval (take (Suc (Suc l)) tab) = sval (take (Suc l) tab)" unfolding t True using sval_sign_limb [OF a(1)] by (simp add: a_def)
    then show ?thesis using 1(1) [OF refl nr] 1(3) unfolding n by simp
  next
    case False
    then have "(tab ! Suc l \<noteq> 0 \<and> tab ! Suc l \<noteq> - 1) \<or> tab ! Suc l AND 1 \<noteq> drop_bit 31 (tab ! l)" using r by blast
    then have "normalize_len tab (Suc (Suc l)) = Suc (Suc l)" unfolding normalize_len.simps Let_def by (rule if_P)
    moreover have "normal (take (Suc (Suc l)) tab)" using False a(1) unfolding t by (simp add: normal_def)
    ultimately show ?thesis by simp
  qed
qed (auto simp: normal_def)

lemma normalize1_spec:
  assumes "0 < l" "l \<le> length a"
  shows "normal (js_bigint_normalize1 a l)" "sval (js_bigint_normalize1 a l) = sval (take l a)"
    "length (js_bigint_normalize1 a l) \<le> l"
  using normalize_len_spec [OF assms] assms by (simp_all add: js_bigint_normalize1_def)

lemma normalize_spec:
  assumes "a \<noteq> []"
  shows "normal (js_bigint_normalize a)" "sval (js_bigint_normalize a) = sval a" "length (js_bigint_normalize a) \<le> length a"
  using normalize1_spec [of "length a" a] assms by (simp_all add: js_bigint_normalize_def)

lemma normal_wide:
  assumes "normal (xs @ [t])" "xs \<noteq> []"
  shows "\<not> (- (LB ^ length xs) \<le> 2 * sval (xs @ [t]) \<and> 2 * sval (xs @ [t]) < LB ^ length xs)"
proof
  assume r: "- (LB ^ length xs) \<le> 2 * sval (xs @ [t]) \<and> 2 * sval (xs @ [t]) < LB ^ length xs"
  define u where "u = uint t - (if bit t 31 then LB else 0)"
  have e: "sval (xs @ [t]) = lval xs + LB ^ length xs * u" by (simp add: sval_snoc u_def)
  then have "sval xs = sval (xs @ [t])" using sval_unique [OF assms(2), of "sval (xs @ [t])" "- u"] r by (simp add: algebra_simps)
  then have "lval xs - (if js_bigint_sign xs then LB ^ length xs else 0) = lval xs + LB ^ length xs * u"
    unfolding e by (simp only: sval_def)
  then have "LB ^ length xs * (u + (if js_bigint_sign xs then 1 else 0)) = 0" by (cases "js_bigint_sign xs") (simp_all add: distrib_left)
  then have "u = - (if js_bigint_sign xs then 1 else 0)" by (simp add: eq_neg_iff_add_eq_0)
  then have "uint t = uint (sign_limb xs)" using bit31 [of t] uint_limb(1) [of t] uint_limb(2) [of t] unfolding uint_sign_limb u_def
    by (cases "bit t 31"; cases "js_bigint_sign xs"; simp only: if_True if_False; linarith)
  then show False using assms by (cases xs) (simp_all add: normal_def word_uint_eq_iff)
qed

lemma normal_unique:
  assumes "normal a" "normal b" "sval a = sval b"
  shows "a = b"
proof -
  have shorter: "\<not> length x < length y" if n: "normal x" "normal y" "sval x = sval y" for x y
  proof
    assume l: "length x < length y"
    have "y \<noteq> []" using n(2) by (simp add: normal_def)
    then obtain ys t where y: "y = ys @ [t]" using rev_exhaust by blast
    have x: "x \<noteq> []" "length x \<le> length ys" using n(1) l by (auto simp: normal_def y)
    then have ys: "ys \<noteq> []" by auto
    have "LB ^ length x \<le> LB ^ length ys" using x(2) by (simp add: power_increasing)
    then show False using normal_wide [of ys t] n ys sval_range [OF x(1)] unfolding y by linarith
  qed
  have l: "length a = length b" using shorter [of a b] shorter [of b a] assms by force
  have "js_bigint_sign a = js_bigint_sign b" using assms sval_neg [of a] sval_neg [of b] by (simp add: normal_def)
  then have "lval a = lval b" using assms(3) unfolding sval_def l by simp
  then show ?thesis using l by (rule lval_inj)
qed

end
