(* ===== verification/BigIntArith.thy ===== *)
theory BigIntArith
  imports BigInt
begin

text \<open>
  Correctness of the ring, bitwise, shift and comparison operations of \<open>JSBigInt\<close>
  (\<open>src/quickjs.c\<close>, \<open>js_bigint_add\<close> to \<open>js_bigint_shr\<close> and
  \<open>js_bigint_cmp\<close>).  Each is exact on the signed values \<^const>\<open>sval\<close> of its
  operands and returns a number in canonical form, or it raises one of the two
  errors \<open>js_bigint_new\<close> raises, and then only for the reason that error names.
\<close>

section \<open>Addition, negation, multiplication\<close>

definition yields :: "limb_alloc \<Rightarrow> nat \<Rightarrow> int \<Rightarrow> JSBigInt big \<Rightarrow> bool" where
  "yields alloc n v r =
     (case r of Inr x \<Rightarrow> normal x \<and> sval x = v
      | Inl e \<Rightarrow> e = TooLargeToAllocate \<and> n > JS_BIGINT_MAX_SIZE \<or> e = NoMemory \<and> (\<exists>m. \<not> alloc m))"

lemma yields_new:
  assumes "js_bigint_new alloc n = Inr () \<Longrightarrow> yields alloc m v (k ())" "n \<le> m"
  shows "yields alloc m v (big_bind (js_bigint_new alloc n) k)"
  using assms by (auto simp: big_bind_def js_bigint_new_def yields_def split: if_splits)

lemma yields_Inr: "yields alloc n v (Inr x) \<longleftrightarrow> normal x \<and> sval x = v"
  by (simp add: yields_def)

lemma extend_spec: "r \<noteq> [] \<Longrightarrow> yields alloc n (sval (r @ [t])) (js_bigint_extend alloc r t)"
proof -
  assume r: "r \<noteq> []"
  have l: "r ! (length r - 1) = last r" using r by (simp add: last_conv_nth)
  show ?thesis
  proof (cases "t = sign_limb r")
    case True
    then have "js_bigint_extend alloc r t = Inr (js_bigint_normalize r)"
      using redundant_limb [OF r, of t] by (simp only: js_bigint_extend_def Let_def l) (simp only: simp_thms if_False)
    then show ?thesis using True normalize_spec [OF r] sval_sign_limb [OF r] by (simp add: yields_Inr)
  next
    case False
    then have "js_bigint_extend alloc r t = (if alloc (length r + 1) then Inr (r @ [t]) else Inl NoMemory)"
      using redundant_limb [OF r, of t] by (simp only: js_bigint_extend_def Let_def l) (simp only: simp_thms if_True)
    moreover have "normal (r @ [t])" using False r by (simp add: normal_def)
    ultimately show ?thesis by (auto simp: yields_def)
  qed
qed

lemma js_mp_add_append:
  assumes "js_mp_add xs ys c = (r1, c1)" "length xs = length ys" "js_mp_add us vs c1 = (r2, c2)"
  shows "js_mp_add (xs @ us) (ys @ vs) c = (r1 @ r2, c2)"
  using assms by (induction xs ys c arbitrary: r1 rule: js_mp_add.induct) (auto split: prod.splits)

definition sign_extend :: "JSBigInt \<Rightarrow> nat \<Rightarrow> JSBigInt" where
  "sign_extend a n = a @ replicate (n - length a) (sign_limb a)"

lemma sval_extend_by: "a \<noteq> [] \<Longrightarrow> sval (a @ replicate k (sign_limb a)) = sval a"
proof (induction k)
  case (Suc k)
  define b where "b = a @ replicate k (sign_limb a)"
  have "sign_limb b = sign_limb a"
    using Suc.prems by (cases k) (simp_all add: b_def sign_limb_def sign_append sign_last)
  then have "sval (b @ [sign_limb a]) = sval b" using sval_sign_limb [of b] Suc.prems by (simp add: b_def)
  then show ?case using Suc by (simp add: b_def replicate_append_same [symmetric])
qed simp

lemma sval_sign_extend [simp]: "a \<noteq> [] \<Longrightarrow> sval (sign_extend a n) = sval a"
  by (simp add: sign_extend_def sval_extend_by)

lemma length_sign_extend [simp]: "length (sign_extend a n) = max (length a) n"
  by (simp add: sign_extend_def)

lemma lval_not: "lval (map (\<lambda>x. NOT x) a) = LB ^ length a - 1 - lval a"
  by (induction a) (simp_all add: uint_not algebra_simps)

lemma limbs_even: "0 < n \<Longrightarrow> \<exists>h. LB ^ n = 2 * h"
  by (cases n) simp_all

lemma sval_not: "a \<noteq> [] \<Longrightarrow> sval (map (\<lambda>x. NOT x) a) = - sval a - 1"
proof -
  assume a: "a \<noteq> []"
  obtain h where h: "LB ^ length a = 2 * h" using limbs_even [of "length a"] a by auto
  have r: "- h \<le> sval a" "sval a < h" using sval_range [OF a] unfolding h by simp_all
  show ?thesis
    by (rule sval_unique [where k = "if js_bigint_sign a then 0 else 1"])
      (use a r in \<open>auto simp: lval_not h sval_def\<close>)
qed

lemma lval_sval: "lval a = sval a + (if js_bigint_sign a then 1 else 0) * LB ^ length a"
  by (simp add: sval_def)

lemma uint_of_int32: "uint (word_of_int i :: u32) = i mod LB"
  by (subst uint_word_of_int) simp

lemma add_core:
  assumes l: "length a = n" "length b = n" "0 < n" and c: "js_mp_add a b c0 = (r, c)" "uint c0 \<le> 1"
  shows "sval (r @ [sign_limb a + sign_limb b + c]) = sval a + sval b + uint c0"
proof -
  define N where "N = LB ^ n"
  have N: "1 \<le> N" by (simp add: N_def)
  have s: "lval r + N * uint c = lval a + lval b + uint c0" "length r = n"
    using js_mp_add_spec [OF c(1) _ c(2)] l by (simp_all add: N_def)
  define sa sb :: int where "sa = (if js_bigint_sign a then 1 else 0)" and "sb = (if js_bigint_sign b then 1 else 0)"
  define t where "t = sign_limb a + sign_limb b + c"
  define k where "k = (uint c - sa - sb) div LB"
  have "t = word_of_int (uint c - sa - sb)" by (simp add: t_def sign_limb_def sa_def sb_def)
  then have "uint t = (uint c - sa - sb) mod LB" by (simp only: uint_of_int32)
  then have t: "uint t = uint c - sa - sb - k * LB" by (simp add: k_def minus_div_mult_eq_mod)
  have v: "lval a = sval a + sa * N" "lval b = sval b + sb * N" unfolding lval_sval by (simp_all add: l N_def sa_def sb_def)
  have e: "lval (r @ [t]) = sval a + sval b + uint c0 + (- k) * LB ^ length (r @ [t])"
    using s v by (simp add: lval_append N_def [symmetric] t algebra_simps)
  have an: "a \<noteq> []" "b \<noteq> []" using l by auto
  have "- N \<le> 2 * sval a" "2 * sval a < N" "- N \<le> 2 * sval b" "2 * sval b < N"
    using sval_range [OF an(1)] sval_range [OF an(2)] l by (simp_all add: N_def)
  then have "- (4 * N) \<le> 2 * (sval a + sval b + uint c0)" "2 * (sval a + sval b + uint c0) < 4 * N"
    using c(2) uint_limb(1) [of c0] N by presburger+
  moreover have "4 * N \<le> LB ^ length (r @ [t])" using N by (simp add: s(2) N_def)
  ultimately have "sval (r @ [t]) = sval a + sval b + uint c0" by (intro sval_unique [OF _ e]) auto
  then show ?thesis by (simp add: t_def)
qed

lemma sign_limb_not: "a \<noteq> [] \<Longrightarrow> sign_limb (map (\<lambda>x. NOT x) a) = NOT (sign_limb a)"
  by (simp add: sign_limb_def sign_last last_map bit_not_iff)

lemma sign_extend_nil: "a \<noteq> [] \<Longrightarrow> sign_extend a n \<noteq> []"
  by (simp add: sign_extend_def)

lemma sign_limb_extend: "a \<noteq> [] \<Longrightarrow> sign_limb (sign_extend a n) = sign_limb a"
  using sval_neg [of "sign_extend a n"] sval_neg [of a] by (simp add: sign_limb_def sign_extend_nil)

lemma js_bigint_add_spec:
  assumes "a \<noteq> []" "b \<noteq> []"
  shows "yields alloc (max (length a) (length b)) (if neg then sval a - sval b else sval a + sval b) (js_bigint_add alloc a b neg)"
proof -
  define n2 where "n2 = max (length a) (length b)"
  define n1 where "n1 = min (length a) (length b)"
  define f where "f = (\<lambda>y :: u32. if neg then NOT y else y)"
  have fx: "x XOR (if neg then - 1 else 0) = f x" for x by (simp add: f_def)
  define c0 :: u32 where "c0 = (if neg then 1 else 0)"
  obtain r1 c1 where 1: "js_mp_add (take n1 a) (map f (take n1 b)) c0 = (r1, c1)" by fastforce
  define P where "P = (if length a > length b then js_mp_add (drop n1 a) (replicate (n2 - n1) (f (sign_limb b))) c1
                      else if length a < length b then js_mp_add (replicate (n2 - n1) (sign_limb a)) (map f (drop n1 b)) c1
                      else ([], c1))"
  obtain r2 c2 where 2: "P = (r2, c2)" by fastforce
  define A where "A = sign_extend a n2"
  define B where "B = map f (sign_extend b n2)"
  have "js_mp_add A B c0 = (r1 @ r2, c2)"
  proof -
    define A2 where "A2 = (if length a > length b then drop n1 a else if length a < length b then replicate (n2 - n1) (sign_limb a) else [])"
    define B2 where "B2 = (if length a > length b then replicate (n2 - n1) (f (sign_limb b)) else if length a < length b then map f (drop n1 b) else [])"
    have "A = take n1 a @ A2" by (auto simp: A_def A2_def sign_extend_def n1_def n2_def)
    moreover have "B = map f (take n1 b) @ B2"
      by (auto simp: B_def B2_def sign_extend_def n1_def n2_def take_map [symmetric] drop_map [symmetric])
    moreover have "js_mp_add A2 B2 c1 = (r2, c2)" using 2 by (auto simp: A2_def B2_def P_def split: if_splits)
    moreover have "length (take n1 a) = length (map f (take n1 b))" by (simp add: n1_def)
    ultimately show ?thesis using js_mp_add_append [OF 1, of A2 B2 r2 c2] by simp
  qed
  note s = add_core [of A n2 B, OF _ _ _ this]
  have c0: "uint c0 \<le> 1" by (simp add: c0_def)
  have AB: "length A = n2" "length B = n2" "0 < n2" using assms by (auto simp: A_def B_def n2_def less_max_iff_disj)
  have Av: "sval A = sval a" "sign_limb A = sign_limb a" using assms(1) by (simp_all add: A_def sign_limb_extend)
  have Bv: "sval B + uint c0 = (if neg then - sval b else sval b)" "sign_limb B = f (sign_limb b)"
    using assms(2) sval_not [of "sign_extend b n2"] sign_limb_not [of "sign_extend b n2"]
    by (cases neg; simp add: B_def f_def c0_def sign_limb_extend sign_extend_nil)+
  have v: "sval ((r1 @ r2) @ [sign_limb a + f (sign_limb b) + c2]) = (if neg then sval a - sval b else sval a + sval b)"
    using s [OF AB] Bv(1) unfolding Av Bv(2) by (simp add: c0_def split: if_splits)
  have "r1 @ r2 \<noteq> []"
    using js_mp_add_spec [OF \<open>js_mp_add A B c0 = (r1 @ r2, c2)\<close>] AB c0 by auto
  note x = extend_spec [OF this, of alloc n2 "sign_limb a + f (sign_limb b) + c2", unfolded v]
  have "js_bigint_add alloc a b neg = big_bind (js_bigint_new alloc n2) (\<lambda>_. js_bigint_extend alloc (r1 @ r2) (sign_limb a + f (sign_limb b) + c2))"
    unfolding js_bigint_add_def Let_def n2_def [symmetric] n1_def [symmetric] fx c0_def [symmetric] 1 prod.case P_def [symmetric] 2 ..
  then show ?thesis using x yields_new [of alloc n2 n2] by (simp add: n2_def)
qed


lemma js_bigint_neg_spec: "a \<noteq> [] \<Longrightarrow> yields alloc (length a) (- sval a) (js_bigint_neg alloc a)"
proof -
  assume a: "a \<noteq> []"
  have "sval [0] = 0" by (simp add: sval_def sign_last)
  moreover have "max 1 (length a) = length a" using a by (cases a) auto
  ultimately show ?thesis using js_bigint_add_spec [of "[0]" a alloc True] a by (simp add: js_bigint_neg_def js_bigint_set_si_def)
qed

lemma sub_high:
  assumes "length r = n + length b" "n \<le> length r" "x = take n r @ fst (js_mp_sub (drop n r) b 0)"
  shows "length x = length r \<and> (\<exists>k. lval x = lval r - LB ^ n * lval b + k * LB ^ length r)"
proof -
  obtain d k where s: "js_mp_sub (drop n r) b 0 = (d, k)" by fastforce
  have v: "lval d = lval (drop n r) - lval b + LB ^ length b * uint k" "length d = length b"
    using js_mp_sub_spec [OF s] assms(1) by simp_all
  have m: "length (take n r) = n" using assms(2) by simp
  have "lval r = lval (take n r @ drop n r)" by simp
  also have "\<dots> = lval (take n r) + LB ^ n * lval (drop n r)" unfolding lval_append m ..
  finally have "lval x = lval r - LB ^ n * lval b + uint k * LB ^ length r"
    unfolding assms(3) s fst_conv lval_append m v(1) by (simp add: assms(1) power_add algebra_simps)
  then show ?thesis using assms v(2) m by (auto simp: s)
qed

lemma js_bigint_mul_spec:
  assumes "a \<noteq> []" "b \<noteq> []"
  shows "yields alloc (length a + length b) (sval a * sval b) (js_bigint_mul alloc a b)"
proof -
  define na nb where "na = length a" and "nb = length b"
  define r where "r = js_mp_mul_basecase a b"
  define r1 where "r1 = (if js_bigint_sign a then take na r @ fst (js_mp_sub (drop na r) b 0) else r)"
  define r2 where "r2 = (if js_bigint_sign b then take nb r1 @ fst (js_mp_sub (drop nb r1) a 0) else r1)"
  define A B where "A = LB ^ na" and "B = LB ^ nb"
  define sa sb :: int where "sa = (if js_bigint_sign a then 1 else 0)" and "sb = (if js_bigint_sign b then 1 else 0)"
  have r: "lval r = lval a * lval b" "length r = na + nb"
    using js_mp_mul_basecase_spec [of a b] assms by (simp_all add: r_def na_def nb_def)
  have r1: "length r1 = na + nb \<and> (\<exists>k. lval r1 = lval r - sa * A * lval b + k * (A * B))"
    using sub_high [of r na b r1] r(2) by (cases "js_bigint_sign a") (auto simp: r1_def sa_def A_def B_def nb_def power_add intro: exI [of _ 0])
  then obtain k1 where k1: "lval r1 = lval r - sa * A * lval b + k1 * (A * B)" by blast
  have r2: "length r2 = na + nb \<and> (\<exists>k. lval r2 = lval r1 - sb * B * lval a + k * (A * B))"
    using sub_high [of r1 nb a r2] r1 by (cases "js_bigint_sign b") (auto simp: r2_def sb_def A_def B_def na_def power_add mult.commute intro: exI [of _ 0])
  then obtain k2 where k2: "lval r2 = lval r1 - sb * B * lval a + k2 * (A * B)" by blast
  have l: "lval a = sval a + sa * A" "lval b = sval b + sb * B" unfolding lval_sval [of a] lval_sval [of b] sa_def sb_def A_def B_def na_def nb_def by simp_all
  have e: "lval r2 = sval a * sval b + (k1 + k2 - sa * sb) * (A * B)"
    unfolding k2 k1 r(1) l by (simp add: algebra_simps)
  have "r2 \<noteq> []" "LB ^ length r2 = A * B" using r2 assms by (auto simp: na_def A_def B_def power_add)
  moreover have "2 * \<bar>sval a * sval b\<bar> < A * B"
  proof -
    have "2 * \<bar>sval a\<bar> \<le> A" "2 * \<bar>sval b\<bar> \<le> B"
      using sval_range [OF assms(1)] sval_range [OF assms(2)] by (auto simp: A_def B_def na_def nb_def)
    then have "(2 * \<bar>sval a\<bar>) * (2 * \<bar>sval b\<bar>) \<le> A * B" by (intro mult_mono) (simp_all add: A_def)
    moreover have "0 < A * B" by (simp add: A_def B_def)
    ultimately show ?thesis by (simp add: abs_mult)
  qed
  ultimately have v: "sval r2 = sval a * sval b" using e by (intro sval_unique [of r2 _ "k1 + k2 - sa * sb"]) auto
  have "js_bigint_mul alloc a b = big_bind (js_bigint_new alloc (na + nb)) (\<lambda>_. Inr (js_bigint_normalize r2))"
    unfolding js_bigint_mul_def Let_def na_def [symmetric] nb_def [symmetric] r_def [symmetric] r1_def [symmetric] r2_def [symmetric] ..
  then show ?thesis using yields_new [of alloc "na + nb" "na + nb"] normalize_spec [OF \<open>r2 \<noteq> []\<close>] v
    by (simp add: na_def nb_def yields_Inr)
qed

section \<open>Bitwise operations\<close>

lemma sval_Cons: "xs \<noteq> [] \<Longrightarrow> sval (x # xs) = uint x + LB * sval xs"
  using sign_append [of xs "[x]"] by (simp add: sval_def right_diff_distrib)

lemma bit_cons: "bit (uint (x :: u32) + LB * s) i \<longleftrightarrow> (if i < 32 then bit x i else bit s (i - 32))"
proof -
  have "uint x + LB * s = concat_bit 32 (uint x) s"
    using uint_limb [of x] by (simp add: concat_bit_eq push_bit_eq_mult take_bit_eq_mod)
  then show ?thesis by (simp add: bit_concat_bit_iff bit_unsigned_iff)
qed

lemma bit_single: "bit (sval [x]) i \<longleftrightarrow> (if i < 32 then bit x i else bit x 31)"
proof -
  have "sval [x] = uint x + LB * (if bit x 31 then - 1 else 0)" by (simp add: sval_def sign_last)
  then show ?thesis by (simp only: bit_cons) simp
qed

lemma bit_sval:
  "a \<noteq> [] \<Longrightarrow> bit (sval a) i \<longleftrightarrow> (if i < 32 * length a then bit (a ! (i div 32)) (i mod 32) else js_bigint_sign a)"
proof (induction a arbitrary: i rule: list_nonempty_induct)
  case (single x)
  then show ?case by (simp add: bit_single sign_last)
next
  case (cons x xs)
  show ?case
  proof (cases "i < 32")
    case True
    then show ?thesis using cons(1) by (simp add: sval_Cons bit_cons)
  next
    case False
    then have "i div 32 = Suc ((i - 32) div 32)" "i mod 32 = (i - 32) mod 32"
      by (simp_all add: div_if mod_if)
    then show ?thesis using False cons sign_append [of xs "[x]"] by (simp add: sval_Cons bit_cons) (auto)
  qed
qed

fun int_op :: "logic_op \<Rightarrow> int \<Rightarrow> int \<Rightarrow> int" where
  "int_op OP_or x y = x OR y"
| "int_op OP_and x y = x AND y"
| "int_op OP_xor x y = x XOR y"

fun bool_op :: "logic_op \<Rightarrow> bool \<Rightarrow> bool \<Rightarrow> bool" where
  "bool_op OP_or x y = (x \<or> y)"
| "bool_op OP_and x y = (x \<and> y)"
| "bool_op OP_xor x y = (x \<noteq> y)"

lemma bit_int_op: "bit (int_op op x y) i = bool_op op (bit x i) (bit y i)"
  by (cases op) (simp_all add: bit_or_iff bit_and_iff bit_xor_iff)

lemma bit_limb_op: "bit (limb_op op x y) i = bool_op op (bit x i) (bit y i)"
  by (cases op) (simp_all add: bit_or_iff bit_and_iff bit_xor_iff)

lemma int_op_commute: "int_op op x y = int_op op y x"
  by (cases op) (simp_all add: or.commute and.commute xor.commute)

lemma sval_map2:
  assumes "length a = length b" "a \<noteq> []"
  shows "sval (map2 (limb_op op) a b) = int_op op (sval a) (sval b)"
proof (rule bit_eqI)
  fix i
  define c where "c = map2 (limb_op op) a b"
  have b: "b \<noteq> []" "c \<noteq> []" "length c = length a" "length b = length a" using assms by (auto simp: c_def)
  have l: "last c = limb_op op (last a) (last b)" using assms b by (simp add: c_def last_conv_nth)
  show "bit (sval (map2 (limb_op op) a b)) i = bit (int_op op (sval a) (sval b)) i"
    unfolding c_def [symmetric] bit_int_op using assms b l
    by (simp add: bit_sval sign_last bit_limb_op) (auto simp: c_def bit_limb_op)
qed

lemma js_bigint_logic_spec:
  assumes "a \<noteq> []" "b \<noteq> []"
  shows "yields alloc (max (length a) (length b)) (int_op op (sval a) (sval b)) (js_bigint_logic alloc a b op)"
proof -
  have core: "yields alloc (length x) (int_op op (sval x) (sval y))
      (big_bind (js_bigint_new alloc (length x)) (\<lambda>_. Inr (js_bigint_normalize
         (map2 (limb_op op) (take (length y) x) y @ map (\<lambda>z. limb_op op z (sign_limb y)) (drop (length y) x)))))"
    if "x \<noteq> []" "y \<noteq> []" "length y \<le> length x" for x y
  proof -
    have "map2 (limb_op op) (take (length y) x) y @ map (\<lambda>z. limb_op op z (sign_limb y)) (drop (length y) x) =
        map2 (limb_op op) x (sign_extend y (length x))"
      using that(3) by (intro nth_equalityI) (auto simp: sign_extend_def nth_append)
    then show ?thesis
      using that sval_map2 [of x "sign_extend y (length x)"] normalize_spec [of "map2 (limb_op op) x (sign_extend y (length x))"]
      by (intro yields_new) (simp_all add: yields_Inr sign_extend_nil)
  qed
  show ?thesis
  proof (cases "length a < length b")
    case True
    then show ?thesis using core [of b a] assms int_op_commute [of op "sval a" "sval b"] by (simp add: js_bigint_logic_def)
  next
    case False
    then have "max (length a) (length b) = length a" by simp
    then show ?thesis using core [of a b] assms False unfolding js_bigint_logic_def by simp
  qed
qed

lemma js_bigint_not_spec: "normal a \<Longrightarrow> yields alloc (length a) (- sval a - 1) (js_bigint_not alloc a)"
proof -
  assume a: "normal a"
  then have n: "a \<noteq> []" by (simp add: normal_def)
  have "normal (map (\<lambda>x. NOT x) a)"
  proof -
    obtain xs t where x: "a = xs @ [t]" using n rev_exhaust by blast
    show ?thesis
    proof (cases "xs = []")
      case False
      then have "t \<noteq> sign_limb xs" using a x by (cases xs) (auto simp: normal_def)
      then show ?thesis using sign_limb_not [OF False] by (simp add: normal_def x)
    qed (simp add: normal_def x)
  qed
  then show ?thesis unfolding js_bigint_not_def using sval_not [OF n] by (intro yields_new) (simp_all add: yields_Inr)
qed

section \<open>Shifts and comparison\<close>

lemma normal_snoc: "normal (xs @ [t]) \<longleftrightarrow> xs = [] \<or> t \<noteq> sign_limb xs"
  by (cases xs) (auto simp: normal_def)

lemma normal_nonempty: "normal a \<Longrightarrow> a \<noteq> []"
  by (simp add: normal_def)

lemma sign_limb_append: "ys \<noteq> [] \<Longrightarrow> sign_limb (xs @ ys) = sign_limb ys"
  by (simp add: sign_limb_def sign_append)

lemma sval_append: "ys \<noteq> [] \<Longrightarrow> sval (xs @ ys) = lval xs + LB ^ length xs * sval ys"
  by (simp add: sval_def lval_append sign_append power_add right_diff_distrib)

lemma lval_zeros [simp]: "lval (replicate d 0) = 0"
  by (induction d) simp_all

lemma sval_zeros: "a \<noteq> [] \<Longrightarrow> sval (replicate d 0 @ a) = LB ^ d * sval a"
  by (simp add: sval_append)

lemma sign_limb_zeros: "sign_limb (replicate (Suc d) 0) = 0"
  by (simp add: sign_limb_def sign_last)

lemma normal_zeros:
  assumes "normal a" "a \<noteq> [0]"
  shows "normal (replicate d 0 @ a)"
proof -
  obtain xs t where a: "a = xs @ [t]" using normal_nonempty [OF assms(1)] rev_exhaust by blast
  have "replicate d 0 @ xs = [] \<or> t \<noteq> sign_limb (replicate d 0 @ xs)"
  proof (cases "xs = []")
    case True
    then show ?thesis using assms sign_limb_zeros by (cases d) (auto simp: a)
  next
    case False
    then show ?thesis using assms sign_limb_append [OF False, of "replicate d 0"] by (simp add: a normal_snoc)
  qed
  then show ?thesis using normal_snoc [of "replicate d 0 @ xs" t] by (simp add: a)
qed

lemma new_si_spec: "0 < n \<Longrightarrow> yields alloc n (sval [t]) (js_bigint_new_si alloc t)"
  unfolding js_bigint_new_si_def by (intro yields_new) (simp_all add: yields_Inr normal_def)

lemma sval_zero_limb [simp]: "sval [0] = 0"
  by (simp add: sval_def sign_last)

lemma two_power_limbs: "2 ^ s = LB ^ (s div 32) * (2 :: int) ^ (s mod 32)"
proof -
  have "(2 :: int) ^ s = 2 ^ (32 * (s div 32) + s mod 32)" by simp
  then show ?thesis by (simp only: power_add power_mult) simp
qed

lemma mask_mod: "s \<le> 32 \<Longrightarrow> (LB - 1) mod 2 ^ s = (2 :: int) ^ s - 1"
proof -
  assume "s \<le> 32"
  then have e: "LB - 1 = (2 ^ (32 - s) - 1) * 2 ^ s + ((2 :: int) ^ s - 1)" using limb_exp [of s] by (simp add: left_diff_distrib)
  show ?thesis unfolding e mod_mult_self3 by (rule mod_pos_pos_trivial) simp_all
qed

lemma shl_top:
  assumes "a \<noteq> []" "0 < s" "s < 32" "js_mp_shl a s = (r, l)"
    and l1: "l1 = (if js_bigint_sign a then l OR push_bit s (- 1) else l)"
  shows "sval (r @ [l1]) = sval a * 2 ^ s" "length r = length a"
proof -
  define N where "N = LB ^ length a"
  have s: "lval r + N * uint l = lval a * 2 ^ s" "uint l < 2 ^ s" "length r = length a"
    using js_mp_shl_spec [OF assms(4)] assms(3) by (simp_all add: N_def)
  show "length r = length a" by (rule s(3))
  have "(2 :: int) ^ s \<le> 2 ^ 31" using assms(3) by (intro power_increasing) simp_all
  then have p: "(2 :: int) ^ s \<le> 2147483648" by simp
  show "sval (r @ [l1]) = sval a * 2 ^ s"
  proof (cases "js_bigint_sign a")
    case True
    have "(2 :: int) ^ (32 - s) * 2 ^ s = LB" using limb_exp assms(3) by simp
    moreover have "(LB - 1) mod 2 ^ (32 - s) = (2 :: int) ^ (32 - s) - 1" using mask_mod [of "32 - s"] by simp
    ultimately have u: "uint l1 = LB - 2 ^ s + uint l"
      using uint_shift_or [of s l "- 1"] s(2) assms(3) True unfolding l1
      by (simp add: or.commute uint_minus_1 left_diff_distrib)
    have "2147483648 \<le> LB - 2 ^ s + uint l" using p uint_limb(1) [of l] by linarith
    then have "bit l1 31" unfolding bit31 u by simp
    then have "sval (r @ [l1]) = lval r + N * (uint l - 2 ^ s)" by (simp add: sval_snoc u s(3) N_def)
    then show ?thesis using s(1) True unfolding sval_def [of a] by (simp add: N_def left_diff_distrib right_diff_distrib)
  next
    case False
    then have "\<not> bit l1 31" using p s(2) unfolding bit31 l1 by simp
    then show ?thesis using False s unfolding sval_snoc sval_def [of a] by (simp add: N_def l1)
  qed
qed

lemma js_bigint_shl_spec:
  assumes "normal a"
  shows "yields alloc (length a + s div 32) (sval a * 2 ^ s) (js_bigint_shl alloc a s)"
proof -
  have a: "a \<noteq> []" using assms by (rule normal_nonempty)
  define d where "d = s div 32"
  define t where "t = s mod 32"
  have p: "2 ^ s = LB ^ d * (2 :: int) ^ t" unfolding d_def t_def by (rule two_power_limbs)
  show ?thesis
  proof (cases "a = [0]")
    case True
    then show ?thesis using new_si_spec [of "length a + s div 32" alloc 0] by (simp add: js_bigint_shl_def)
  next
    case nz: False
    then have z: "\<not> (length a = 1 \<and> a ! 0 = 0)" using a by (cases a) auto
    show ?thesis
    proof (cases "t = 0")
      case True
      then have "js_bigint_shl alloc a s = big_bind (js_bigint_new alloc (length a + d)) (\<lambda>_. Inr (replicate d 0 @ a))"
        using z unfolding js_bigint_shl_def Let_def d_def [symmetric] t_def [symmetric] by (simp only: if_False if_True refl)
      then show ?thesis using True p yields_new [of alloc "length a + d" "length a + d"] normal_zeros [OF assms nz] sval_zeros [OF a]
        by (simp add: yields_Inr d_def [symmetric])
    next
      case False
      obtain r l where r: "js_mp_shl a t = (r, l)" by fastforce
      define l1 where "l1 = (if js_bigint_sign a then l OR push_bit t (- 1) else l)"
      have top: "sval (r @ [l1]) = sval a * 2 ^ t" "length r = length a"
        using shl_top [OF a _ _ r l1_def] False by (simp_all add: t_def)
      have "js_bigint_shl alloc a s = big_bind (js_bigint_new alloc (length a + d)) (\<lambda>_. js_bigint_extend alloc (replicate d 0 @ r) l1)"
        using z False unfolding js_bigint_shl_def Let_def d_def [symmetric] t_def [symmetric] r prod.case l1_def by (simp only: if_False)
      moreover have "sval ((replicate d 0 @ r) @ [l1]) = sval a * 2 ^ s"
        using sval_zeros [of "r @ [l1]" d] top(1) by (simp add: p)
      moreover have "replicate d 0 @ r \<noteq> []" using top(2) a by auto
      ultimately show ?thesis using extend_spec [of "replicate d 0 @ r" alloc "length a + d" l1] yields_new [of alloc "length a + d" "length a + d"]
        by (simp add: d_def [symmetric])
    qed
  qed
qed

lemma normal_drop: "normal a \<Longrightarrow> d < length a \<Longrightarrow> normal (drop d a)"
proof -
  assume a: "normal a" "d < length a"
  then obtain xs t where x: "a = xs @ [t]" using normal_nonempty rev_exhaust by blast
  then have d: "d \<le> length xs" using a(2) by simp
  have "drop d xs = [] \<or> t \<noteq> sign_limb (drop d xs)"
    using a(1) sign_limb_append [of "drop d xs" "take d xs"] by (cases "drop d xs = []") (auto simp: x normal_snoc)
  then show ?thesis using d by (simp add: x normal_snoc)
qed

lemma sval_drop:
  assumes "d < length a"
  shows "sval (drop d a) = sval a div LB ^ d"
proof -
  have "sval a = sval (take d a @ drop d a)" by simp
  also have "\<dots> = lval (take d a) + LB ^ d * sval (drop d a)" using assms by (subst sval_append) simp_all
  finally have e: "sval a = lval (take d a) + LB ^ d * sval (drop d a)" .
  have "0 \<le> lval (take d a)" "lval (take d a) < LB ^ d" using lval_bounds [of "take d a"] assms by simp_all
  then show ?thesis unfolding e by (simp add: div_pos_pos_trivial)
qed

lemma div_stays:
  fixes x h p :: int
  assumes "- h \<le> x" "x < h" "0 < p"
  shows "- h \<le> x div p" "x div p < h"
proof -
  define q where "q = x div p"
  have e: "x = p * q + x mod p" "0 \<le> x mod p" "x mod p < p" using assms(3) by (simp_all add: q_def)
  have "- h \<le> q \<and> q < h"
  proof (cases "0 \<le> q")
    case True
    then have "1 * q \<le> p * q" using assms(3) by (intro mult_right_mono) simp_all
    then show ?thesis using True e assms by linarith
  next
    case False
    then have "(p - 1) * 1 \<le> (p - 1) * (- q)" using assms(3) by (intro mult_left_mono) simp_all
    then have "x \<le> q" using e by (simp add: algebra_simps)
    then show ?thesis using False assms by linarith
  qed
  then show "- h \<le> x div p" "x div p < h" by (simp_all add: q_def)
qed

lemma div_minus_one: "- m \<le> x \<Longrightarrow> x < 0 \<Longrightarrow> x div m = (- 1 :: int)"
proof -
  assume "- m \<le> x" "x < 0"
  then have "(x + m) div m = 0" by (intro div_pos_pos_trivial) simp_all
  moreover have "(x + m) div m = x div m + 1" using \<open>- m \<le> x\<close> \<open>x < 0\<close> by (subst div_add_self2) simp_all
  ultimately show ?thesis by simp
qed

lemma shr_limbs:
  assumes "a \<noteq> []" "0 < s" "s < 32" "js_mp_shr a s (sign_limb a) = (r, l)"
  shows "sval r = sval a div 2 ^ s" "r \<noteq> []"
proof -
  define N where "N = LB ^ length a"
  have s: "lval r * 2 ^ s + uint l = lval a + N * (uint (sign_limb a) mod 2 ^ s)" "uint l < 2 ^ s" "length r = length a"
    using js_mp_shr_spec [OF assms(4)] assms(3) by (simp_all add: N_def)
  show "r \<noteq> []" using s(3) assms(1) by auto
  define k :: int where "k = (if js_bigint_sign a then 1 else 0)"
  have "(LB - 1) mod 2 ^ s = (2 :: int) ^ s - 1" using mask_mod [of s] assms(3) by simp
  then have m: "uint (sign_limb a) mod 2 ^ s = k * (2 ^ s - 1)" by (simp add: uint_sign_limb k_def)
  have lv: "lval a = sval a + k * N" unfolding lval_sval [of a] by (simp add: k_def N_def)
  have "lval r * 2 ^ s + uint l = sval a + N * k * 2 ^ s"
    using s(1) unfolding m lv by (simp add: algebra_simps)
  then have e: "sval a = (lval r - k * N) * 2 ^ s + uint l" by (simp add: algebra_simps)
  have q: "sval a div 2 ^ s = lval r - k * N" unfolding e using s(2) uint_limb(1) [of l] by simp
  have h: "- N \<le> 2 * sval a" "2 * sval a < N" using sval_range [OF assms(1)] by (simp_all add: N_def)
  obtain H where H: "N = 2 * H" using limbs_even [of "length a"] assms(1) by (auto simp: N_def)
  have "- H \<le> sval a" "sval a < H" using h unfolding H by simp_all
  note b = div_stays [OF this, of "2 ^ s"]
  show "sval r = sval a div 2 ^ s"
  proof (rule sval_unique [where k = k])
    show "lval r = sval a div 2 ^ s + k * LB ^ length r" unfolding q s(3) by (simp add: N_def)
  qed (use b \<open>r \<noteq> []\<close> H s(3) in \<open>simp_all add: N_def\<close>)
qed

lemma js_bigint_shr_spec:
  assumes "normal a"
  shows "yields alloc (length a) (sval a div 2 ^ s) (js_bigint_shr alloc a s)"
proof -
  have a: "a \<noteq> []" using assms by (rule normal_nonempty)
  define d where "d = s div 32"
  define t where "t = s mod 32"
  have p: "2 ^ s = LB ^ d * (2 :: int) ^ t" unfolding d_def t_def by (rule two_power_limbs)
  show ?thesis
  proof (cases "length a \<le> d")
    case True
    have "LB ^ length a \<le> LB ^ d * 2 ^ t" using True power_increasing [of "length a" d LB] mult_mono [of "LB ^ length a" "LB ^ d" 1 "2 ^ t"] by simp
    then have "- (2 ^ s) \<le> sval a" "sval a < 2 ^ s" using sval_range [OF a] unfolding p by linarith+
    then have "sval a div 2 ^ s = (if js_bigint_sign a then - 1 else 0)"
      using sval_neg [OF a] div_minus_one [of "2 ^ s" "sval a"] by (cases "js_bigint_sign a") (simp_all add: div_pos_pos_trivial)
    also have "\<dots> = sval [sign_limb a]" by (simp add: sign_limb_def sval_def sign_last uint_minus_1)
    finally show ?thesis using True a new_si_spec [of "length a" alloc "sign_limb a"]
      by (simp add: js_bigint_shr_def d_def [symmetric])
  next
    case False
    then have d: "d < length a" "drop d a \<noteq> []" by simp_all
    have v: "sval a div 2 ^ s = sval (drop d a) div 2 ^ t" unfolding sval_drop [OF d(1)] p by (simp add: zdiv_zmult2_eq)
    show ?thesis
    proof (cases "t = 0")
      case True
      then have "js_bigint_shr alloc a s = big_bind (js_bigint_new alloc (length a - d)) (\<lambda>_. Inr (drop d a))"
        using False unfolding js_bigint_shr_def Let_def d_def [symmetric] t_def [symmetric] by simp
      then show ?thesis using v True normal_drop [OF assms d(1)] yields_new [of alloc "length a - d" "length a"] by (simp add: yields_Inr)
    next
      case t: False
      obtain r l where r: "js_mp_shr (drop d a) t (sign_limb (drop d a)) = (r, l)" by fastforce
      have sl: "sign_limb (drop d a) = sign_limb a" using sign_limb_append [OF d(2), of "take d a"] by simp
      have sr: "sval r = sval (drop d a) div 2 ^ t" "r \<noteq> []" using shr_limbs [OF d(2) _ _ r] t by (simp_all add: t_def)
      have "js_bigint_shr alloc a s = big_bind (js_bigint_new alloc (length a - d)) (\<lambda>_. Inr (js_bigint_normalize r))"
        using False t r unfolding js_bigint_shr_def Let_def d_def [symmetric] t_def [symmetric] sl by simp
      then show ?thesis using v sr normalize_spec [OF sr(2)] yields_new [of alloc "length a - d" "length a"] by (simp add: yields_Inr)
    qed
  qed
qed

lemma cmp_limbs_spec:
  assumes "length as = length bs"
  shows "cmp_limbs (rev as) (rev bs) = sgn (lval as - lval bs)"
  using assms
proof (induction as arbitrary: bs rule: rev_induct)
  case (snoc a as)
  then obtain b bs1 where b: "bs = bs1 @ [b]" "length as = length bs1" by (cases bs rule: rev_cases) auto
  define N where "N = LB ^ length bs1"
  have l: "lval (as @ [a]) - lval (bs1 @ [b]) = (uint a - uint b) * N + (lval as - lval bs1)"
    by (simp add: lval_append b(2) N_def algebra_simps)
  have d: "- N < lval as - lval bs1" "lval as - lval bs1 < N"
    using lval_bounds [of as] lval_bounds [of bs1] b(2) by (simp_all add: N_def)
  show ?case
  proof (cases "a = b")
    case False
    then have n: "uint a - uint b \<noteq> 0" by (simp add: word_uint_eq_iff)
    have "0 < N" by (simp add: N_def)
    define z where "z = (uint a - uint b) * N"
    have g: "N \<le> z \<or> z \<le> - N" using mult_gap [OF n \<open>0 < N\<close>] by (simp only: z_def)
    have "uint a < uint b \<longleftrightarrow> z < 0" using \<open>0 < N\<close> by (simp add: z_def mult_less_0_iff)
    then have "sgn (lval (as @ [a]) - lval (bs1 @ [b])) = (if a < b then - 1 else 1)"
      unfolding l word_less_def z_def [symmetric] using g d \<open>0 < N\<close> by (auto simp: sgn_if)
    then show ?thesis using False by (simp add: b(1))
  qed (use snoc.IH [OF b(2)] l in \<open>simp add: b(1)\<close>)
qed simp

lemma js_bigint_cmp_spec:
  assumes "normal a" "normal b"
  shows "js_bigint_cmp a b = sgn (sval a - sval b)"
proof -
  have n: "a \<noteq> []" "b \<noteq> []" using assms normal_nonempty by auto
  have longer: "if js_bigint_sign y then sval y < sval x else sval x < sval y"
    if l: "length x < length y" and x: "normal x" and y: "normal y" for x y
  proof -
    obtain ys t where ys: "y = ys @ [t]" using normal_nonempty [OF y] rev_exhaust by blast
    have xn: "x \<noteq> []" "length x \<le> length ys" using normal_nonempty [OF x] l by (auto simp: ys)
    then have "ys \<noteq> []" by auto
    note w = normal_wide [OF y [unfolded ys] this]
    define X Y where "X = LB ^ length x" and "Y = LB ^ length ys"
    have "X \<le> Y" using xn(2) by (simp add: power_increasing X_def Y_def)
    moreover have "0 < X" by (simp add: X_def)
    ultimately show ?thesis using w sval_range [OF xn(1)] sval_neg [OF normal_nonempty [OF y]]
      unfolding ys X_def [symmetric] Y_def [symmetric] by (auto split: if_splits)
  qed
  consider "js_bigint_sign a \<noteq> js_bigint_sign b" | "js_bigint_sign a = js_bigint_sign b" "length a < length b"
    | "js_bigint_sign a = js_bigint_sign b" "length b < length a"
    | "js_bigint_sign a = js_bigint_sign b" "length a = length b" by linarith
  then show ?thesis
  proof cases
    case 1
    then show ?thesis using sval_neg [OF n(1)] sval_neg [OF n(2)] by (auto simp: js_bigint_cmp_def sgn_if)
  next
    case 2
    then show ?thesis using longer [OF 2(2) assms] by (auto simp: js_bigint_cmp_def sgn_if split: if_splits)
  next
    case 3
    then show ?thesis using longer [OF 3(2) assms(2,1)] by (auto simp: js_bigint_cmp_def sgn_if split: if_splits)
  next
    case 4
    then have "sval a - sval b = lval a - lval b" unfolding sval_def 4(2) by simp
    then show ?thesis using 4 cmp_limbs_spec [OF 4(2)] by (simp add: js_bigint_cmp_def)
  qed
qed

lemma sval_single: "sval [v] = (if bit v 31 then uint v - LB else uint v)"
  by (simp add: sval_def sign_last)

section \<open>Exactness\<close>

text \<open>
  C12. Addition, subtraction, negation and multiplication of BigInts are exact: on operands of any
  length and sign the result, when there is one, is the canonical representation of the integer sum,
  difference, opposite or product.  The only errors are the size limit of \<open>js_bigint_new\<close>, raised
  only if the result array would exceed it, and a refused allocation.
\<close>

theorem bigint_ring_exact:
  assumes "a \<noteq> []" "b \<noteq> []"
  shows "yields alloc (max (length a) (length b)) (sval a + sval b) (js_bigint_add alloc a b False)
    \<and> yields alloc (max (length a) (length b)) (sval a - sval b) (js_bigint_add alloc a b True)
    \<and> yields alloc (length a) (- sval a) (js_bigint_neg alloc a)
    \<and> yields alloc (length a + length b) (sval a * sval b) (js_bigint_mul alloc a b)"
  using js_bigint_add_spec [OF assms, of alloc False] js_bigint_add_spec [OF assms, of alloc True]
    js_bigint_neg_spec [OF assms(1), of alloc] js_bigint_mul_spec [OF assms, of alloc]
  by simp

theorem bigint_ring_exact_witness:
  "yields (\<lambda>_. True) 1 (sval [0x7FFFFFFF] + sval [1]) (js_bigint_add (\<lambda>_. True) [0x7FFFFFFF] [1] False)
   \<and> js_bigint_add (\<lambda>_. True) [0x7FFFFFFF] [1] False = Inr [0x80000000, 0]"
proof -
  have "js_bigint_add (\<lambda>_. True) [0x7FFFFFFF] [1] False = Inr [0x80000000, 0]" by code_simp
  then show ?thesis using bigint_ring_exact [of "[0x7FFFFFFF]" "[1]" "\<lambda>_. True"] by simp
qed

text \<open>
  C13. The bitwise operations act on BigInts as on two's complement integers of unbounded width,
  a shift to the left multiplies by a power of two and a shift to the right divides by it, rounding
  towards minus infinity, for every shift count. Results are in canonical form. The errors are out of
  memory, only if some allocation fails, and too large, only if the limbs the operation asks for pass
  the limit of 32768 (\<open>JS_BIGINT_MAX_SIZE\<close>); the left shift asks for those of the operand and one for
  every 32 bits of the count.
\<close>

theorem bigint_bits_exact:
  assumes "normal a" "normal b"
  shows "yields alloc (max (length a) (length b)) (sval a AND sval b) (js_bigint_logic alloc a b OP_and)
    \<and> yields alloc (max (length a) (length b)) (sval a OR sval b) (js_bigint_logic alloc a b OP_or)
    \<and> yields alloc (max (length a) (length b)) (sval a XOR sval b) (js_bigint_logic alloc a b OP_xor)
    \<and> yields alloc (length a) (NOT (sval a)) (js_bigint_not alloc a)
    \<and> yields alloc (length a + s div 32) (sval a * 2 ^ s) (js_bigint_shl alloc a s)
    \<and> yields alloc (length a) (sval a div 2 ^ s) (js_bigint_shr alloc a s)"
  using js_bigint_logic_spec [OF assms [THEN normal_nonempty], of alloc OP_and]
    js_bigint_logic_spec [OF assms [THEN normal_nonempty], of alloc OP_or]
    js_bigint_logic_spec [OF assms [THEN normal_nonempty], of alloc OP_xor]
    js_bigint_not_spec [OF assms(1), of alloc] js_bigint_shl_spec [OF assms(1)] js_bigint_shr_spec [OF assms(1)]
  by (simp add: not_eq_complement)

theorem bigint_bits_exact_witness:
  "yields (\<lambda>_. True) 1 (sval [0xFFFFFFFB] div 2 ^ 1) (js_bigint_shr (\<lambda>_. True) [0xFFFFFFFB] 1)
   \<and> js_bigint_shr (\<lambda>_. True) [0xFFFFFFFB] 1 = Inr [0xFFFFFFFD]"
proof -
  have "js_bigint_shr (\<lambda>_. True) [0xFFFFFFFB] 1 = Inr [0xFFFFFFFD]" by code_simp
  then show ?thesis using bigint_bits_exact [of "[0xFFFFFFFB]" "[1]" "\<lambda>_. True" 1] by (simp add: normal_def)
qed

text \<open>
  C14. Comparison gives the sign of the difference of the two values, and since the representation is
  canonical it gives zero only for two equal limb arrays.
\<close>

theorem bigint_cmp_order:
  assumes "normal a" "normal b"
  shows "js_bigint_cmp a b = sgn (sval a - sval b) \<and> (js_bigint_cmp a b = 0 \<longleftrightarrow> a = b)"
  using js_bigint_cmp_spec [OF assms] normal_unique [OF assms] by (auto simp: sgn_0_0)

theorem bigint_cmp_order_witness:
  "js_bigint_cmp [0xFFFFFFFF] [0, 1] = sgn (sval [0xFFFFFFFF] - sval [0, 1]) \<and> js_bigint_cmp [0xFFFFFFFF] [0, 1] = - 1"
proof -
  have "js_bigint_cmp [0xFFFFFFFF] [0, 1] = - 1" "normal [0xFFFFFFFF]" "normal [0, 1]" by code_simp+
  then show ?thesis using bigint_cmp_order [of "[0xFFFFFFFF]" "[0, 1]"] by simp
qed

end
