(* ===== verification/BigIntDiv.thy ===== *)
theory BigIntDiv
  imports BigIntArith "HOL-Library.Signed_Division"
begin

text \<open>
  Correctness of \<open>js_bigint_divrem\<close> (\<open>src/quickjs.c\<close>): the routine takes the
  magnitudes of its operands, normalises the divisor with a shift, runs the long
  division \<open>js_mp_divnorm\<close> and gives quotient and remainder their signs.  The result is
  division that truncates towards zero, and the routine always returns.
\<close>

lemma uint_pos: "uint (h :: u32) \<noteq> 0 \<Longrightarrow> 1 \<le> uint h"
  using uint_limb(1) [of h] by linarith

lemma mp_neg_spec:
  assumes "x \<noteq> []"
  shows "length (fst (js_mp_neg x)) = length x" "\<exists>k. lval (fst (js_mp_neg x)) = - lval x + k * LB ^ length x"
proof -
  obtain r c where r: "js_mp_neg x = (r, c)" by fastforce
  have s: "lval r + LB ^ length x * uint c = LB ^ length x - lval x" "length r = length x"
    using mp_neg_loop_spec [of x 1 r c] r by (simp_all add: js_mp_neg_def)
  show "length (fst (js_mp_neg x)) = length x" using r s(2) by simp
  have "lval r = - lval x + (1 - uint c) * LB ^ length x" using s(1) by (simp add: algebra_simps)
  then show "\<exists>k. lval (fst (js_mp_neg x)) = - lval x + k * LB ^ length x" using r by auto
qed

lemma magnitude_spec:
  assumes "a \<noteq> []"
  shows "lval (magnitude a) = \<bar>sval a\<bar>" "length (magnitude a) = length a"
proof -
  define N where "N = LB ^ length a"
  show l: "length (magnitude a) = length a" using mp_neg_spec(1) [OF assms] by (simp add: magnitude_def)
  show "lval (magnitude a) = \<bar>sval a\<bar>"
  proof (cases "js_bigint_sign a")
    case True
    define m where "m = fst (js_mp_neg a)"
    obtain k where "lval m = - lval a + k * N" using mp_neg_spec(2) [OF assms] by (auto simp: m_def N_def)
    then have e: "lval m = - sval a + (k - 1) * N" using True by (simp add: sval_def N_def algebra_simps)
    have m: "0 \<le> lval m" "lval m < N" using lval_bounds [of m] l True by (simp_all add: N_def m_def magnitude_def)
    have s: "sval a < 0" "- N \<le> 2 * sval a" using sval_neg [OF assms] sval_range [OF assms] True by (simp_all add: N_def)
    have "k - 1 = 0"
    proof (rule ccontr)
      assume nz: "k - 1 \<noteq> 0"
      have "0 < N" by (simp add: N_def)
      then show False using mult_gap [OF nz \<open>0 < N\<close>] e m s by linarith
    qed
    then show ?thesis using e s True by (simp add: magnitude_def m_def)
  next
    case False
    then show ?thesis using lval_bounds(1) [of a] by (simp add: magnitude_def sval_def)
  qed
qed

lemma neg_value:
  assumes "x \<noteq> []" "\<not> js_bigint_sign x"
  shows "sval (fst (js_mp_neg x)) = - sval x" "fst (js_mp_neg x) \<noteq> []"
proof -
  obtain k where k: "lval (fst (js_mp_neg x)) = - lval x + k * LB ^ length x" using mp_neg_spec(2) [OF assms(1)] by blast
  show n: "fst (js_mp_neg x) \<noteq> []" using mp_neg_spec(1) [OF assms(1)] assms(1) by (metis length_0_conv)
  have "sval x = lval x" "0 \<le> lval x" using assms(2) lval_bounds by (simp_all add: sval_def)
  then show "sval (fst (js_mp_neg x)) = - sval x"
    using k sval_range [OF assms(1)] by (intro sval_unique [OF n, of _ k]) (simp_all add: mp_neg_spec(1) [OF assms(1)])
qed

lemma strip_len_spec:
  assumes "0 < n" "n \<le> length tab"
  shows "0 < strip_len tab n \<and> strip_len tab n \<le> n \<and> lval (take (strip_len tab n) tab) = lval (take n tab) \<and>
    (strip_len tab n \<noteq> 1 \<longrightarrow> tab ! (strip_len tab n - 1) \<noteq> 0)"
  using assms
proof (induction tab n rule: strip_len.induct)
  case (1 tab n)
  then show ?case by (auto simp: take_Suc_conv_app_nth lval_append split: if_splits)
qed simp_all

lemma strip_bound:
  assumes "n = strip_len tab (length tab)" "tab \<noteq> []" "lval tab \<noteq> 0"
  shows "LB ^ (n - 1) \<le> lval (take n tab)" "0 < n" "n \<le> length tab" "lval (take n tab) = lval tab"
    "lval (take n tab) = lval (take (n - 1) tab) + LB ^ (n - 1) * uint (tab ! (n - 1))" "tab ! (n - 1) \<noteq> 0"
proof -
  have s: "0 < n" "n \<le> length tab" "lval (take n tab) = lval tab" "n \<noteq> 1 \<longrightarrow> tab ! (n - 1) \<noteq> 0"
    using strip_len_spec [of "length tab" tab] assms by simp_all
  then show "0 < n" "n \<le> length tab" "lval (take n tab) = lval tab" by blast+
  obtain m where m: "n = Suc m" using s(1) gr0_implies_Suc by blast
  have t: "lval (take n tab) = lval (take m tab) + LB ^ m * uint (tab ! m)"
    using s(2) by (simp add: m take_Suc_conv_app_nth lval_append)
  then show "lval (take n tab) = lval (take (n - 1) tab) + LB ^ (n - 1) * uint (tab ! (n - 1))" by (simp add: m)
  show nz: "tab ! (n - 1) \<noteq> 0" using s(3,4) t assms(3) by (cases "m = 0") (auto simp: m)
  then have "uint (tab ! m) \<noteq> 0" using uint_0_iff [of "tab ! m"] by (simp add: m)
  then have "1 \<le> uint (tab ! m)" by (rule uint_pos)
  then have "LB ^ m * 1 \<le> LB ^ m * uint (tab ! m)" by (intro mult_left_mono) simp_all
  then have "LB ^ m \<le> lval (take n tab)" using lval_bounds(1) [of "take m tab"] unfolding t by linarith
  then show "LB ^ (n - 1) \<le> lval (take n tab)" by (simp add: m)
qed

text \<open>The operands after the shift that sets the high bit of the divisor.\<close>

lemma shifted_divisor:
  assumes "n = strip_len tab (length tab)" "tab \<noteq> []" "lval tab \<noteq> 0" "s = js_limb_clz (tab ! (n - 1))"
    and t: "t = (if s \<noteq> 0 then fst (js_mp_shl (take n tab) s) else take n tab)"
  shows "lval t = lval tab * 2 ^ s" "length t = n" "s < 32" "\<exists>bl b1. t = bl @ [b1] \<and> LB \<le> 2 * uint b1"
proof -
  note S = strip_bound [OF assms(1-3)]
  define x where "x = tab ! (n - 1)"
  have s: "s = clz32 x" using S(6) by (simp add: assms(4) js_limb_clz_def x_def)
  have c: "s < 32" "2147483648 \<le> uint x * 2 ^ s" "uint x < 2 ^ (32 - s)" using clz32_spec [of x] S(6) by (simp_all add: s x_def)
  show "s < 32" by (rule c(1))
  define N where "N = LB ^ (n - 1)"
  have N: "LB ^ n = N * LB" "0 < N" using S(2) power_minus_mult [of n LB] by (simp_all add: N_def)
  define v where "v = lval tab * 2 ^ s"
  have v: "v = lval (take (n - 1) tab) * 2 ^ s + N * (uint x * 2 ^ s)"
    unfolding v_def S(4) [symmetric] S(5) N_def x_def by (simp add: algebra_simps)
  have lo: "0 \<le> lval (take (n - 1) tab)" "lval (take (n - 1) tab) < N"
    using lval_bounds [of "take (n - 1) tab"] S(2,3) by (simp_all add: N_def)
  have hi: "v < LB ^ n"
  proof -
    have "(uint x + 1) * 2 ^ s \<le> 2 ^ (32 - s) * 2 ^ s" using c(3) by (intro mult_right_mono) simp_all
    then have "uint x * 2 ^ s + 2 ^ s \<le> LB" using limb_exp [of s] c(1) by (simp add: distrib_right)
    then have "N * (uint x * 2 ^ s + 2 ^ s) \<le> N * LB" using N(2) by simp
    moreover have "lval (take (n - 1) tab) * 2 ^ s < N * 2 ^ s" using lo(2) by simp
    ultimately show ?thesis unfolding v N(1) by (simp only: distrib_left)
  qed
  have lt: "lval t = v \<and> length t = n"
  proof (cases "s = 0")
    case True
    then show ?thesis using S(3,4) by (simp add: t v_def)
  next
    case False
    obtain r h where r: "js_mp_shl (take n tab) s = (r, h)" by fastforce
    have "lval r + LB ^ n * uint h = v" "length r = n"
      using js_mp_shl_spec [OF r] c(1) S(3,4) by (simp_all add: v_def)
    moreover have "uint h = 0"
    proof (rule ccontr)
      assume "uint h \<noteq> 0"
      then have "LB ^ n * 1 \<le> LB ^ n * uint h" by (intro mult_left_mono uint_pos) simp_all
      then show False using \<open>lval r + LB ^ n * uint h = v\<close> hi lval_bounds(1) [of r] by linarith
    qed
    ultimately show ?thesis using False r by (simp add: t)
  qed
  then show "lval t = lval tab * 2 ^ s" "length t = n" by (simp_all add: v_def)
  have "t \<noteq> []" using lt S(2) by auto
  then obtain bl b1 where b: "t = bl @ [b1]" using rev_exhaust by blast
  have "N * 2147483648 \<le> N * (uint x * 2 ^ s)" using c(2) N(2) by simp
  then have "N * 2147483648 \<le> v" using mult_nonneg_nonneg [OF lo(1), of "2 ^ s"] unfolding v by simp
  then have "LB ^ length t \<le> 2 * lval t" using lt N(1) by simp
  then have "js_bigint_sign t" using lval_sign [OF \<open>t \<noteq> []\<close>] by blast
  then have "LB \<le> 2 * uint b1" using bit31 [of b1] by (simp add: b)
  then show "\<exists>bl b1. t = bl @ [b1] \<and> LB \<le> 2 * uint b1" using b by blast
qed

lemma shifted_dividend:
  assumes "s < 32" "n \<le> length tab"
    and t: "t = (if s \<noteq> 0 then (case js_mp_shl (take n tab) s of (t, h) \<Rightarrow> if h \<noteq> 0 then t @ [h] else t) else take n tab)"
  shows "lval t = lval (take n tab) * 2 ^ s" "n \<le> length t" "length t \<le> Suc n"
proof -
  obtain r h where r: "js_mp_shl (take n tab) s = (r, h)" by fastforce
  have "lval r + LB ^ n * uint h = lval (take n tab) * 2 ^ s" "length r = n"
    using js_mp_shl_spec [OF r] assms(1,2) by simp_all
  then have "lval t = lval (take n tab) * 2 ^ s \<and> n \<le> length t \<and> length t \<le> Suc n"
    using assms(2) by (cases "s = 0") (auto simp: t r lval_append)
  then show "lval t = lval (take n tab) * 2 ^ s" "n \<le> length t" "length t \<le> Suc n" by blast+
qed

lemma signed_result:
  assumes "z = (if neg then fst (js_mp_neg (x @ [0])) else x @ [0])"
  shows "sval z = (if neg then - lval x else lval x)" "z \<noteq> []" "length z = Suc (length x)"
proof -
  have "sval (x @ [0]) = lval x" by (simp add: sval_snoc)
  moreover have "\<not> js_bigint_sign (x @ [0])" by simp
  ultimately show "sval z = (if neg then - lval x else lval x)" "z \<noteq> []" "length z = Suc (length x)"
    using neg_value [of "x @ [0]"] mp_neg_spec(1) [of "x @ [0]"] by (simp_all add: assms)
qed

lemma div_of_scaled:
  fixes x y q r p :: int
  assumes "x * p = q * (y * p) + r" "0 \<le> r" "r < y * p" "0 < p"
  shows "q = x div y" "r = (x mod y) * p"
proof -
  have "r = (x - q * y) * p" using assms(1) by (simp add: algebra_simps)
  then have "0 \<le> x - q * y" "x - q * y < y" using assms(2-4) by (simp_all add: zero_le_mult_iff)
  then have "x div y = q" "x mod y = x - q * y"
    using int_div_pos_eq [of x y q "x - q * y"] int_mod_pos_eq [of x y q "x - q * y"] by simp_all
  then show "q = x div y" "r = (x mod y) * p" using \<open>r = (x - q * y) * p\<close> by simp_all
qed

lemma shr_exact:
  assumes "lval r = v * 2 ^ s" "s < 32"
  shows "lval (if s \<noteq> 0 then fst (js_mp_shr r s 0) else r) = v" "length (if s \<noteq> 0 then fst (js_mp_shr r s 0) else r) = length r"
proof -
  obtain t l where t: "js_mp_shr r s 0 = (t, l)" by fastforce
  have e: "lval t * 2 ^ s + uint l = lval r" "uint l < 2 ^ s" "length t = length r" using js_mp_shr_spec [OF t] assms(2) by simp_all
  then have "(lval t - v) * 2 ^ s = - uint l" using assms(1) by (simp add: algebra_simps)
  then have "lval t = v" using mult_gap [of "lval t - v" "2 ^ s"] e(2) uint_limb(1) [of l] by (cases "lval t - v = 0") auto
  then show "lval (if s \<noteq> 0 then fst (js_mp_shr r s 0) else r) = v" "length (if s \<noteq> 0 then fst (js_mp_shr r s 0) else r) = length r"
    using assms(1) t e(3) by auto
qed

lemma normal_zero: "normal b \<Longrightarrow> length b = 1 \<and> b ! 0 = 0 \<longleftrightarrow> sval b = 0"
proof -
  assume b: "normal b"
  have "sval b = 0 \<Longrightarrow> b = [0]" using normal_unique [OF b, of "[0]"] by (simp add: normal_def)
  then show ?thesis by (cases b) auto
qed

lemma yields_case_new:
  assumes "\<exists>r. k () = Inr r \<and> yields alloc m v r" "n \<le> m"
  shows "\<exists>r. (case js_bigint_new alloc n of Inl e \<Rightarrow> Inr (Inl e) | Inr x \<Rightarrow> k x) = Inr r \<and> yields alloc m v r"
  using assms by (auto simp: js_bigint_new_def yields_def)

lemma sdiv_smod_signs:
  "x sdiv y = (if (x < 0) \<noteq> (y < 0) then - (\<bar>x\<bar> div \<bar>y\<bar>) else \<bar>x\<bar> div \<bar>y\<bar>)"
  "x smod y = (if x < 0 then - (\<bar>x\<bar> mod \<bar>y\<bar>) else \<bar>x\<bar> mod \<bar>y :: int\<bar>)"
  by (auto simp: signed_divide_int_def signed_modulo_int_def sgn_if)

text \<open>The long division after the trivial case, from the magnitudes and their stripped lengths.\<close>

lemma divrem_long:
  assumes ab: "a \<noteq> []" "b \<noteq> []" "sval b \<noteq> 0"
    and na: "na0 = strip_len (magnitude a) (length a)" and nb: "nb = strip_len (magnitude b) (length b)" "nb \<le> na0"
    and sh: "shift = js_limb_clz (magnitude b ! (nb - 1))"
    and tabb: "tabb = (if shift \<noteq> 0 then fst (js_mp_shl (take nb (magnitude b)) shift) else take nb (magnitude b))"
    and taba: "taba = (if shift \<noteq> 0
                 then (case js_mp_shl (take na0 (magnitude a)) shift of (t, h) \<Rightarrow> if h \<noteq> 0 then t @ [h] else t)
                 else take na0 (magnitude a))"
  shows "\<exists>q r. js_mp_divnorm taba tabb = Inr (q, r) \<and> lval q = \<bar>sval a\<bar> div \<bar>sval b\<bar> \<and>
    lval r = (\<bar>sval a\<bar> mod \<bar>sval b\<bar>) * 2 ^ shift \<and> length r = nb \<and> shift < 32 \<and>
    length taba - nb \<le> length a \<and> length q = Suc (length taba - nb)"
proof -
  have Bv: "lval (magnitude b) = \<bar>sval b\<bar>" "length (magnitude b) = length b" using magnitude_spec [OF ab(2)] by blast+
  have B: "magnitude b \<noteq> []" "lval (magnitude b) \<noteq> 0" using Bv ab(2,3) by (metis length_0_conv, simp)
  have nb1: "nb = strip_len (magnitude b) (length (magnitude b))" using nb(1) Bv(2) by simp
  note D = shifted_divisor [OF nb1 B sh tabb]
  obtain bl b1 where b1: "tabb = bl @ [b1]" "LB \<le> 2 * uint b1" using D(4) by blast
  have A: "length (magnitude a) = length a" "lval (magnitude a) = \<bar>sval a\<bar>" using magnitude_spec [OF ab(1)] by simp_all
  have sa: "0 < na0" "na0 \<le> length a" "lval (take na0 (magnitude a)) = \<bar>sval a\<bar>"
    using strip_len_spec [of "length a" "magnitude a"] ab(1) A by (simp_all add: na)
  have T: "lval taba = \<bar>sval a\<bar> * 2 ^ shift" "na0 \<le> length taba" "length taba \<le> Suc na0"
    using shifted_dividend [OF D(3) _ taba] sa A by simp_all
  have "length tabb \<le> length taba" using T D(2) nb(2) by simp
  then obtain q r where q: "js_mp_divnorm taba tabb = Inr (q, r)" "lval taba = lval q * lval tabb + lval r"
      "lval r < lval tabb" "length r = length tabb" "length q = Suc (length taba - length tabb)"
    using js_mp_divnorm_spec [OF b1] by blast
  have e: "\<bar>sval a\<bar> * 2 ^ shift = lval q * (\<bar>sval b\<bar> * 2 ^ shift) + lval r" using q(2) unfolding T(1) D(1) Bv(1) .
  have l: "lval r < \<bar>sval b\<bar> * 2 ^ shift" using q(3) unfolding D(1) Bv(1) .
  have "lval q = \<bar>sval a\<bar> div \<bar>sval b\<bar>" "lval r = (\<bar>sval a\<bar> mod \<bar>sval b\<bar>) * 2 ^ shift"
    by (rule div_of_scaled [OF e lval_bounds(1) l], simp)+
  moreover have "length taba - nb \<le> length a" using D(2) b1(1) T(3) sa(2) by simp
  ultimately show ?thesis using q(1,4,5) D(2,3) by (intro exI [of _ q] exI [of _ r]) simp
qed

lemma divrem_trivial:
  assumes "normal a" "normal b" and na: "na0 = strip_len (magnitude a) (length a)" and nb: "nb = strip_len (magnitude b) (length b)"
    and less: "na0 < nb"
  shows "sval a sdiv sval b = 0" "sval a smod sval b = sval a"
proof -
  have ab: "a \<noteq> []" "b \<noteq> []" using assms normal_nonempty by auto
  have sa: "0 < na0" "na0 \<le> length a" "lval (take na0 (magnitude a)) = \<bar>sval a\<bar>"
    using strip_len_spec [of "length a" "magnitude a"] ab(1) magnitude_spec [OF ab(1)] by (simp_all add: na)
  have sb: "nb \<le> length b" "lval (take nb (magnitude b)) = \<bar>sval b\<bar>" "nb \<noteq> 1 \<longrightarrow> magnitude b ! (nb - 1) \<noteq> 0"
    using strip_len_spec [of "length b" "magnitude b"] ab(2) magnitude_spec [OF ab(2)] by (simp_all add: nb)
  have "\<bar>sval a\<bar> < LB ^ na0" using lval_bounds(2) [of "take na0 (magnitude a)"] sa magnitude_spec [OF ab(1)] by simp
  also have "\<dots> \<le> LB ^ (nb - 1)" using less by (intro power_increasing) simp_all
  also have "\<dots> \<le> \<bar>sval b\<bar>"
  proof -
    have Bv: "lval (magnitude b) = \<bar>sval b\<bar>" "length (magnitude b) = length b" using magnitude_spec [OF ab(2)] by blast+
    have "lval (magnitude b) \<noteq> 0"
    proof
      assume z: "lval (magnitude b) = 0"
      then have "b = [0]" using normal_unique [OF assms(2), of "[0]"] Bv(1) by (simp add: normal_def)
      then show False using less sa(1) sb(1) by simp
    qed
    moreover have "nb = strip_len (magnitude b) (length (magnitude b))" using nb Bv(2) by simp
    moreover have "magnitude b \<noteq> []" using Bv(2) ab(2) by (metis length_0_conv)
    ultimately show ?thesis using strip_bound(1) [of nb "magnitude b"] sb(2) by simp
  qed
  finally show "sval a sdiv sval b = 0" "sval a smod sval b = sval a" unfolding sdiv_smod_signs by (simp_all add: div_pos_pos_trivial)
qed

lemma divrem_tail:
  assumes "a \<noteq> []" "b \<noteq> []" "sval b \<noteq> 0"
    and "na0 = strip_len (magnitude a) (length a)" and "nb = strip_len (magnitude b) (length b)" "nb \<le> na0"
    and sh: "shift = js_limb_clz (magnitude b ! (nb - 1))"
    and tabb: "tabb = (if shift \<noteq> 0 then fst (js_mp_shl (take nb (magnitude b)) shift) else take nb (magnitude b))"
    and taba: "taba = (if shift \<noteq> 0
                 then (case js_mp_shl (take na0 (magnitude a)) shift of (t, h) \<Rightarrow> if h \<noteq> 0 then t @ [h] else t)
                 else take na0 (magnitude a))"
  shows "\<exists>r. (case js_bigint_new alloc (length taba - nb + 2) of Inl e \<Rightarrow> Inr (Inl e) | Inr _ \<Rightarrow>
      res_bind (js_mp_divnorm taba tabb) (\<lambda>(q, r).
        if is_rem
        then Inr (Inr (js_bigint_normalize1
               (if neg_a then fst (js_mp_neg ((if shift \<noteq> 0 then fst (js_mp_shr r shift 0) else r) @ [0]))
                else (if shift \<noteq> 0 then fst (js_mp_shr r shift 0) else r) @ [0]) (nb + 1)))
        else Inr (Inr (js_bigint_normalize (if neg_q then fst (js_mp_neg (q @ [0])) else q @ [0]))))) = Inr r \<and>
    yields alloc (length a + 2)
      (if is_rem then (if neg_a then - (\<bar>sval a\<bar> mod \<bar>sval b\<bar>) else \<bar>sval a\<bar> mod \<bar>sval b\<bar>)
       else (if neg_q then - (\<bar>sval a\<bar> div \<bar>sval b\<bar>) else \<bar>sval a\<bar> div \<bar>sval b\<bar>)) r"
proof -
  obtain q r where q: "js_mp_divnorm taba tabb = Inr (q, r)" "lval q = \<bar>sval a\<bar> div \<bar>sval b\<bar>"
    "lval r = (\<bar>sval a\<bar> mod \<bar>sval b\<bar>) * 2 ^ shift" "length r = nb" "shift < 32" "length taba - nb \<le> length a"
    using divrem_long [OF assms] by blast
  define r1 where "r1 = (if shift \<noteq> 0 then fst (js_mp_shr r shift 0) else r)"
  have r1: "lval r1 = \<bar>sval a\<bar> mod \<bar>sval b\<bar>" "length r1 = nb" unfolding r1_def using shr_exact [OF q(3,5)] q(4) by simp_all
  define z where "z = (if neg_a then fst (js_mp_neg (r1 @ [0])) else r1 @ [0])"
  define y where "y = (if neg_q then fst (js_mp_neg (q @ [0])) else q @ [0])"
  note Z = signed_result [OF z_def, unfolded r1] and Y = signed_result [OF y_def, unfolded q(2)]
  have n: "normal (js_bigint_normalize1 z (nb + 1))" "sval (js_bigint_normalize1 z (nb + 1)) = sval z"
    using normalize1_spec [of "nb + 1" z] Z(3) by simp_all
  show ?thesis
    unfolding q(1) res_bind_simps prod.case r1_def [symmetric] z_def [symmetric] y_def [symmetric]
    by (rule yields_case_new) (use q(6) n Z(1) Y(1) normalize_spec [OF Y(2)] in \<open>simp_all add: yields_Inr\<close>)
qed

lemma js_bigint_divrem_spec:
  assumes "normal a" "normal b"
  shows "\<exists>r. js_bigint_divrem alloc a b is_rem = Inr r \<and>
    (if sval b = 0 then r = Inl DivisionByZero
     else yields alloc (length a + 2) (if is_rem then sval a smod sval b else sval a sdiv sval b) r)"
proof (cases "sval b = 0")
  case True
  then show ?thesis using normal_zero [OF assms(2)] by (simp add: js_bigint_divrem_def)
next
  case bz: False
  have ab: "a \<noteq> []" "b \<noteq> []" using assms normal_nonempty by auto
  define v where "v = (if is_rem then sval a smod sval b else sval a sdiv sval b)"
  define na0 where "na0 = strip_len (magnitude a) (length a)"
  define nb where "nb = strip_len (magnitude b) (length b)"
  have sgn: "sval a < 0 \<longleftrightarrow> js_bigint_sign a" "sval b < 0 \<longleftrightarrow> js_bigint_sign b" using sval_neg ab by simp_all
  have "\<exists>r. js_bigint_divrem alloc a b is_rem = Inr r \<and> yields alloc (length a + 2) v r"
  proof -
    define long where "long = (let shift = js_limb_clz (magnitude b ! (nb - 1));
                           tabb = (if shift \<noteq> 0 then fst (js_mp_shl (take nb (magnitude b)) shift) else take nb (magnitude b));
                           taba = (if shift \<noteq> 0
                                   then (case js_mp_shl (take na0 (magnitude a)) shift of (t, h) \<Rightarrow> if h \<noteq> 0 then t @ [h] else t)
                                   else take na0 (magnitude a));
                           na = length taba
                       in case js_bigint_new alloc (na - nb + 2) of Inl e \<Rightarrow> Inr (Inl e) | Inr _ \<Rightarrow>
                            res_bind (js_mp_divnorm taba tabb) (\<lambda>(q, r).
                              if is_rem
                              then
                                let r1 = (if shift \<noteq> 0 then fst (js_mp_shr r shift 0) else r) @ [0];
                                    r2 = (if js_bigint_sign a then fst (js_mp_neg r1) else r1)
                                in Inr (Inr (js_bigint_normalize1 r2 (nb + 1)))
                              else
                                let q1 = q @ [0];
                                    q2 = (if js_bigint_sign a \<noteq> js_bigint_sign b then fst (js_mp_neg q1) else q1)
                                in Inr (Inr (js_bigint_normalize q2))))"
    have L: "\<exists>r. long = Inr r \<and> yields alloc (length a + 2) v r" if "\<not> na0 < nb"
      unfolding long_def Let_def v_def sdiv_smod_signs sgn
      by (rule divrem_tail [OF ab bz na0_def nb_def _ refl refl refl]) (use that in simp)
    have T: "\<exists>r. Inr (if is_rem then big_bind (js_bigint_new alloc (length a)) (\<lambda>_. Inr a) else js_bigint_new_si alloc 0) = Inr r \<and>
        yields alloc (length a + 2) v r" if "na0 < nb"
      using divrem_trivial [OF assms na0_def nb_def that] yields_new [of alloc "length a" "length a + 2" "sval a" "\<lambda>_. Inr a"]
        new_si_spec [of "length a + 2" alloc 0] assms(1) by (auto simp: v_def yields_Inr)
    have "\<not> (length b = 1 \<and> b ! 0 = 0)" using bz normal_zero [OF assms(2)] by blast
    then have E: "js_bigint_divrem alloc a b is_rem =
        (case js_bigint_new alloc (length a + 2) of Inl e \<Rightarrow> Inr (Inl e) | Inr _ \<Rightarrow>
           if \<not> alloc (length b) then Inr (Inl NoMemory)
           else if na0 < nb
           then Inr (if is_rem then big_bind (js_bigint_new alloc (length a)) (\<lambda>_. Inr a) else js_bigint_new_si alloc 0)
           else long)"
      unfolding js_bigint_divrem_def long_def Let_def na0_def nb_def by (simp only: if_False)
    show ?thesis unfolding E
    proof (rule yields_case_new)
      show "\<exists>r. (if \<not> alloc (length b) then Inr (Inl NoMemory)
           else if na0 < nb
           then Inr (if is_rem then big_bind (js_bigint_new alloc (length a)) (\<lambda>_. Inr a) else js_bigint_new_si alloc 0)
           else long) = Inr r \<and> yields alloc (length a + 2) v r"
        using L T by (cases "alloc (length b)"; cases "na0 < nb") (auto simp: yields_def [of _ _ _ "Inl NoMemory"])
    qed simp
  qed
  then show ?thesis using bz by (simp add: v_def)
qed

section \<open>Division\<close>

text \<open>
  C15. Division and remainder of BigInts always return: the estimate of a quotient digit is corrected
  within the loop, no read is out of range, and the result is the exception for a zero divisor,
  quotient and remainder of the division that truncates towards zero, in canonical form, or one of
  two errors: out of memory, only if some allocation fails, and too large, only if the dividend has
  so many limbs that its copy with two limbs more passes the limit of 32768
  (\<open>JS_BIGINT_MAX_SIZE\<close>).
\<close>

theorem bigint_division_exact:
  assumes "normal a" "normal b"
  shows "\<exists>r. js_bigint_divrem alloc a b rem = Inr r \<and>
    (if sval b = 0 then r = Inl DivisionByZero
     else yields alloc (length a + 2) (if rem then sval a smod sval b else sval a sdiv sval b) r)"
  using js_bigint_divrem_spec [OF assms] .

theorem bigint_division_exact_witness:
  "\<exists>r. js_bigint_divrem (\<lambda>_. True) [0xFFFFFFF9] [2] True = Inr r
     \<and> yields (\<lambda>_. True) 3 (sval [0xFFFFFFF9] smod sval [2]) r
     \<and> r = Inr [0xFFFFFFFF]"
proof -
  have n: "normal [0xFFFFFFF9]" "normal [2]" "sval [2] \<noteq> 0" by (simp_all add: normal_def sval_single)
  have "js_bigint_divrem (\<lambda>_. True) [0xFFFFFFF9] [2] True = Inr (Inr [0xFFFFFFFF])" by code_simp
  then show ?thesis using bigint_division_exact [OF n(1,2), of "\<lambda>_. True" True] n(3) by (simp add: numeral_3_eq_3)
qed

end
