(* ===== verification/BigIntPow.thy ===== *)
theory BigIntPow
  imports BigIntDiv
begin

text \<open>
  Correctness of \<open>js_bigint_pow\<close> (\<open>src/quickjs.c\<close>): the special cases for small
  bases, the shift for powers of two and the square-and-multiply loop.
\<close>

text \<open>Every number of more than \<open>JS_BIGINT_MAX_SIZE\<close> limbs less one bit is at least this big.\<close>

definition bigint_limit :: int where
  "bigint_limit = 2 ^ 1048542"

definition pow_ok :: "limb_alloc \<Rightarrow> int \<Rightarrow> JSBigInt big \<Rightarrow> bool" where
  "pow_ok alloc v r =
     (case r of Inr y \<Rightarrow> normal y \<and> sval y = v
      | Inl e \<Rightarrow> (e = TooLargeToAllocate \<or> e = TooLarge) \<and> bigint_limit \<le> \<bar>v\<bar> \<or> e = NoMemory \<and> (\<exists>m. \<not> alloc m))"

lemma pow_ok_bind:
  assumes "pow_ok alloc u r" "\<And>y. normal y \<Longrightarrow> sval y = u \<Longrightarrow> pow_ok alloc v (k y)" "\<bar>u\<bar> \<le> \<bar>v\<bar>"
  shows "pow_ok alloc v (big_bind r k)"
  using assms by (cases r) (auto simp: pow_ok_def big_bind_def)

lemma normal_big: "normal x \<Longrightarrow> sval x \<noteq> 0 \<Longrightarrow> LB ^ (length x - 1) \<le> 2 * \<bar>sval x\<bar>"
proof -
  assume x: "normal x" "sval x \<noteq> 0"
  obtain xs t where xs: "x = xs @ [t]" using normal_nonempty [OF x(1)] rev_exhaust by blast
  show ?thesis
  proof (cases "xs = []")
    case False
    then show ?thesis using normal_wide [OF x(1) [unfolded xs] False] by (auto simp: xs)
  qed (use x(2) in \<open>simp add: xs\<close>)
qed

lemma limb_power_two: "LB ^ k = 2 ^ (32 * k)"
  by (simp add: power_mult)

lemma size_limit:
  assumes "JS_BIGINT_MAX_SIZE < i + j + 2" "LB ^ i \<le> 2 * \<bar>x\<bar>" "LB ^ j \<le> 2 * \<bar>y\<bar>"
  shows "bigint_limit \<le> \<bar>x * y\<bar>"
proof -
  have "LB ^ i * LB ^ j \<le> (2 * \<bar>x\<bar>) * (2 * \<bar>y\<bar>)" using assms(2,3) by (intro mult_mono) simp_all
  then have a: "2 ^ (32 * (i + j)) \<le> 4 * \<bar>x * y\<bar>"
    by (simp add: power_add [symmetric] limb_power_two abs_mult)
  define c :: nat where "c = 1048542"
  have "c + 2 \<le> 32 * (i + j)" using assms(1) by (simp add: c_def)
  then have "(2 :: int) ^ (c + 2) \<le> 2 ^ (32 * (i + j))" by (intro power_increasing) simp_all
  then have "2 ^ c \<le> \<bar>x * y\<bar>" using a by (simp add: power_add)
  then show ?thesis by (simp only: bigint_limit_def c_def)
qed

lemma mul_pow_ok:
  assumes "normal x" "normal y" "sval x \<noteq> 0" "sval y \<noteq> 0"
  shows "pow_ok alloc (sval x * sval y) (js_bigint_mul alloc x y)"
proof -
  have n: "x \<noteq> []" "y \<noteq> []" using assms normal_nonempty by auto
  have "JS_BIGINT_MAX_SIZE < length x + length y \<Longrightarrow> bigint_limit \<le> \<bar>sval x * sval y\<bar>"
    using size_limit [OF _ normal_big [OF assms(1,3)] normal_big [OF assms(2,4)]] n by (cases x; cases y) simp_all
  then show ?thesis using js_bigint_mul_spec [OF n, of alloc] by (auto simp: yields_def pow_ok_def split: sum.splits)
qed

lemma mod_two_Suc: "(x :: nat) mod 2 ^ Suc i = x mod 2 ^ i + 2 ^ i * (x div 2 ^ i mod 2)"
  using mod_mult2_eq [of x "2 ^ i" 2] by (simp add: mult.commute)

lemma pow_mono: "2 \<le> \<bar>x :: int\<bar> \<Longrightarrow> m \<le> n \<Longrightarrow> \<bar>x ^ m\<bar> \<le> \<bar>x ^ n\<bar>"
  by (simp add: power_abs power_increasing)

lemma le_scaled: "x \<le> x * 2 ^ i + (r :: nat)"
  by (rule trans_le_add1) simp

lemma pow_loop_spec:
  assumes a: "normal a" "2 \<le> \<bar>sval a\<bar>"
  shows "normal r \<Longrightarrow> sval r = sval a ^ m \<Longrightarrow> pow_ok alloc (sval a ^ (m * 2 ^ n + unat e mod 2 ^ n)) (pow_loop alloc a e n r)"
proof (induction n arbitrary: r m)
  case 0
  then show ?case by (simp add: pow_ok_def)
next
  case (Suc i)
  define E where "E = m * 2 ^ Suc i + unat e mod 2 ^ Suc i"
  have az: "sval a \<noteq> 0" using a(2) by auto
  have sq: "pow_ok alloc (sval a ^ (2 * m)) (js_bigint_mul alloc r r)"
    using mul_pow_ok [OF Suc.prems(1) Suc.prems(1)] Suc.prems(2) az by (simp add: power_add [symmetric] mult_2)
  have "pow_ok alloc (sval a ^ E) (pow_loop alloc a e (Suc i) r)"
    unfolding pow_loop.simps
  proof (rule pow_ok_bind [OF sq])
    show "\<bar>sval a ^ (2 * m)\<bar> \<le> \<bar>sval a ^ E\<bar>" using a(2) le_scaled [of "2 * m" i "unat e mod 2 ^ Suc i"] by (intro pow_mono) (simp_all add: E_def mult.assoc mult.left_commute)
  next
    fix y assume y: "normal y" "sval y = sval a ^ (2 * m)"
    show "pow_ok alloc (sval a ^ E)
        (if bit e i then big_bind (js_bigint_mul alloc y a) (pow_loop alloc a e i) else pow_loop alloc a e i y)"
    proof (cases "bit e i")
      case True
      then have E: "E = Suc (2 * m) * 2 ^ i + unat e mod 2 ^ i"
        using bit_word_nat [of e i] unfolding E_def mod_two_Suc by (simp add: odd_iff_mod_2_eq_one algebra_simps)
      have "pow_ok alloc (sval a ^ E) (big_bind (js_bigint_mul alloc y a) (pow_loop alloc a e i))"
      proof (rule pow_ok_bind)
        show "pow_ok alloc (sval a ^ Suc (2 * m)) (js_bigint_mul alloc y a)"
          using mul_pow_ok [OF y(1) a(1)] y(2) az by (simp add: mult.commute)
        show "\<bar>sval a ^ Suc (2 * m)\<bar> \<le> \<bar>sval a ^ E\<bar>" using a(2) unfolding E by (rule pow_mono) (rule le_scaled)
      qed (unfold E, rule Suc.IH)
      then show ?thesis using True by simp
    next
      case False
      then have "E = (2 * m) * 2 ^ i + unat e mod 2 ^ i"
        using bit_word_nat [of e i] unfolding E_def mod_two_Suc by (simp add: odd_iff_mod_2_eq_one algebra_simps)
      then show ?thesis using Suc.IH [OF y] False by simp
    qed
  qed
  then show ?case by (simp only: E_def)
qed

lemma clz_split:
  assumes "e \<noteq> 0"
  shows "2 ^ (31 - clz32 e) + unat e mod 2 ^ (31 - clz32 e) = unat e" "clz32 e < 32"
proof -
  define k where "k = clz32 e"
  have c: "k < 32" "2147483648 \<le> uint e * 2 ^ k" "uint e < 2 ^ (32 - k)" using clz32_spec [OF assms] by (simp_all add: k_def)
  then show "clz32 e < 32" by (simp add: k_def)
  have "(2 :: int) ^ (31 - k) * 2 ^ k \<le> uint e * 2 ^ k" using c(1,2) by (simp add: power_add [symmetric])
  then have lo: "2 ^ (31 - k) \<le> uint e" by simp
  have "2 ^ (31 - k) \<le> unat e"
  proof -
    have "int (2 ^ (31 - k)) \<le> int (unat e)" using lo by simp
    then show ?thesis by (simp only: of_nat_le_iff)
  qed
  moreover have "unat e < 2 * 2 ^ (31 - k)"
  proof -
    have "32 - k = Suc (31 - k)" using c(1) by simp
    then have "int (unat e) < int (2 * 2 ^ (31 - k))" using c(3) by simp
    then show ?thesis by (simp only: of_nat_less_iff)
  qed
  ultimately have "unat e mod 2 ^ (31 - k) = unat e - 2 ^ (31 - k)" by (simp add: le_mod_geq)
  then show "2 ^ (31 - clz32 e) + unat e mod 2 ^ (31 - clz32 e) = unat e" using \<open>2 ^ (31 - k) \<le> unat e\<close> by (simp add: k_def)
qed

lemma pow_new:
  assumes "pow_ok alloc v (k ())" "JS_BIGINT_MAX_SIZE < n \<Longrightarrow> bigint_limit \<le> \<bar>v\<bar>"
  shows "pow_ok alloc v (big_bind (js_bigint_new alloc n) k)"
  using assms by (auto simp: big_bind_def js_bigint_new_def pow_ok_def)

lemma sval_one: "length b = 1 \<Longrightarrow> \<not> js_bigint_sign b \<Longrightarrow> sval b = uint (b ! 0)"
  by (cases b) (auto simp: sval_def)

lemma exponent_large:
  assumes "normal b" "0 < sval b" "length b \<noteq> 1 \<or> b ! 0 > 0x7FFFFFFF"
  shows "2147483648 \<le> sval b"
proof -
  have n: "b \<noteq> []" using assms normal_nonempty by auto
  show ?thesis
  proof (cases "length b = 1")
    case True
    then obtain x where x: "b = [x]" by (cases b) auto
    have "\<not> bit x 31" using sval_neg [OF n] assms(2) by (simp add: x sign_last)
    then have "uint x < 2147483648" using bit31 [of x] by simp
    moreover have "uint x > 2147483647" using assms(3) x by (simp add: word_less_def)
    ultimately show ?thesis by linarith
  next
    case False
    then have "1 \<le> length b - 1" using n by (cases b) (auto simp: Suc_le_eq)
    then have "LB ^ 1 \<le> LB ^ (length b - 1)" by (intro power_increasing) simp_all
    then show ?thesis using normal_big [OF assms(1)] assms(2) by simp
  qed
qed

lemma huge_power:
  assumes "2 \<le> \<bar>x :: int\<bar>" "1048542 \<le> n"
  shows "bigint_limit \<le> \<bar>x ^ n\<bar>"
proof -
  define c :: nat where "c = 1048542"
  have "(2 :: int) ^ c \<le> \<bar>x\<bar> ^ c" using assms(1) by (rule power_mono) simp
  also have "\<dots> \<le> \<bar>x\<bar> ^ n" using assms by (intro power_increasing) (simp_all add: c_def)
  finally show ?thesis by (simp only: bigint_limit_def c_def power_abs)
qed

lemma pow_general_spec:
  assumes a: "normal a" "2 \<le> \<bar>sval a\<bar>" and b: "normal b" "0 < sval b"
  shows "pow_ok alloc (sval a ^ nat (sval b)) (pow_general alloc a b)"
proof (cases "length b \<noteq> 1 \<or> b ! 0 > 0x7FFFFFFF")
  case True
  have "bigint_limit \<le> \<bar>sval a ^ nat (sval b)\<bar>" using exponent_large [OF b True] a(2) by (intro huge_power) simp_all
  moreover have "pow_general alloc a b = Inl TooLarge"
    using True normal_nonempty [OF b(1)] by (cases b) (auto simp: pow_general_def)
  ultimately show ?thesis by (simp add: pow_ok_def)
next
  case False
  define e where "e = b ! 0"
  have l: "length b = 1" "\<not> e > 0x7FFFFFFF" using False by (auto simp: e_def)
  have s: "sval b = uint e" using sval_one [of b] sval_neg [OF normal_nonempty [OF b(1)]] l(1) b(2) by (simp add: e_def)
  then have e: "nat (sval b) = unat e" "e \<noteq> 0" using b(2) by auto
  have E: "1 * 2 ^ (32 - clz32 e - 1) + unat e mod 2 ^ (32 - clz32 e - 1) = unat e" using clz_split [OF e(2)] by simp
  have "pow_ok alloc (sval a ^ unat e) (pow_loop alloc a e (32 - clz32 e - 1) a)"
    using pow_loop_spec [OF a a(1), of 1 alloc "32 - clz32 e - 1" e] unfolding E by simp
  moreover have "bigint_limit \<le> \<bar>sval a ^ unat e\<bar>" if "JS_BIGINT_MAX_SIZE < length a"
  proof -
    have "bigint_limit \<le> \<bar>sval a * 1\<bar>"
      using size_limit [of "length a - 1" 0 "sval a" 1] normal_big [OF a(1)] a(2) that by simp
    also have "\<dots> \<le> \<bar>sval a ^ unat e\<bar>" using pow_mono [OF a(2), of 1 "unat e"] e(2) by (simp add: Suc_le_eq unat_gt_0)
    finally show ?thesis .
  qed
  ultimately have "pow_ok alloc (sval a ^ unat e) (big_bind (js_bigint_new alloc (length a)) (\<lambda>_. pow_loop alloc a e (32 - clz32 e - 1) a))"
    by (rule pow_new)
  moreover have "pow_general alloc a b = big_bind (js_bigint_new alloc (length a)) (\<lambda>_. pow_loop alloc a e (32 - clz32 e - 1) a)"
    using l by (simp add: pow_general_def Let_def e_def)
  ultimately show ?thesis by (simp only: e)
qed

lemma power_of_two_limb:
  assumes "v \<noteq> 0" "v AND (v - 1) = (0 :: u32)"
  shows "uint v = 2 ^ (31 - clz32 v)"
proof (rule ccontr)
  define k where "k = 31 - clz32 v"
  have c: "2 ^ k + unat v mod 2 ^ k = unat v" using clz_split(1) [OF assms(1)] by (simp add: k_def)
  assume "uint v \<noteq> 2 ^ (31 - clz32 v)"
  then have "int (unat v) \<noteq> int (2 ^ k)" by (simp add: k_def)
  then have "unat v \<noteq> 2 ^ k" by linarith
  then have m: "unat v mod 2 ^ k \<noteq> 0" using c by linarith
  have "unat (v - 1) = unat v - 1" using assms(1) by (simp add: unat_minus_one)
  then have "unat (v - 1) = 2 ^ k + (unat v mod 2 ^ k - 1)" using c m by linarith
  moreover have "unat v mod 2 ^ k - 1 < 2 ^ k" by (rule less_imp_diff_less) simp
  ultimately obtain u where "unat (v - 1) = 2 ^ k + u" "u < 2 ^ k" by blast
  then have "unat (v - 1) div 2 ^ k = 1" by (simp add: div_add_self1)
  moreover have "unat v div 2 ^ k = 1"
  proof -
    have "(2 ^ k + unat v mod 2 ^ k) div 2 ^ k = 1" by (subst div_add_self1) simp_all
    then show ?thesis unfolding c .
  qed
  ultimately have "bit v k" "bit (v - 1) k" unfolding bit_word_nat by simp_all
  then have "bit (v AND (v - 1)) k" by (simp add: bit_and_iff)
  then show False using assms(2) by simp
qed

lemma sval_pow_two:
  assumes "m < 32"
  shows "sval [push_bit m (- 1)] = - (2 ^ m)" "sval [push_bit m 1, 0] = 2 ^ m" "m \<noteq> 31 \<Longrightarrow> sval [push_bit m 1] = 2 ^ m"
    "push_bit m (1 :: u32) \<noteq> 0" "push_bit m (- 1 :: u32) \<noteq> 0" "m = 31 \<Longrightarrow> bit (push_bit m (1 :: u32)) 31"
proof -
  have u1: "uint (push_bit m (1 :: u32)) = 2 ^ m"
    using assms one_less_power [of "2 :: int" "32 - m"] by (subst uint_shift_left) simp_all
  have un: "uint (push_bit m (- 1 :: u32)) = LB - 2 ^ m"
    using assms mask_mod [of "32 - m"] limb_exp [of m] by (subst uint_shift_left) (simp_all add: uint_minus_1 left_diff_distrib)
  have "(2 :: int) ^ m \<le> 2 ^ 31" using assms by (intro power_increasing) simp_all
  then have p: "(2 :: int) ^ m \<le> 2147483648" by simp
  have bn: "bit (push_bit m (- 1 :: u32)) 31" unfolding bit31 un using p by simp
  show "sval [push_bit m (- 1)] = - (2 ^ m)" using bn un by (simp add: sval_def sign_last)
  show "sval [push_bit m 1, 0] = 2 ^ m" using u1 by (simp add: sval_def sign_last)
  show "sval [push_bit m 1] = 2 ^ m" if "m \<noteq> 31"
  proof -
    have "(2 :: int) ^ m \<le> 2 ^ 30" using assms that by (intro power_increasing) simp_all
    then have "\<not> bit (push_bit m (1 :: u32)) 31" unfolding bit31 u1 by simp
    then show ?thesis using u1 by (simp add: sval_def sign_last)
  qed
  show "push_bit m (1 :: u32) \<noteq> 0" using u1 by (metis uint_0_eq power_not_zero zero_neq_numeral)
  show "push_bit m (- 1 :: u32) \<noteq> 0" using bn by (metis bit_0_eq bot_apply bot_bool_def)
  show "m = 31 \<Longrightarrow> bit (push_bit m (1 :: u32)) 31" unfolding bit31 u1 by simp
qed

lemma one_limb_power:
  assumes "len = (e + 32 + 1 - (if neg then 1 else 0)) div 32"
    and r: "r = (replicate len 0)[e div 32 := push_bit (e mod 32) (if neg then - 1 else 1)]"
  shows "normal r" "sval r = (if neg then - (2 ^ e) else 2 ^ e)"
proof -
  define q where "q = e div 32"
  define m where "m = e mod 32"
  have e: "e = 32 * q + m" "m < 32" by (simp_all add: q_def m_def)
  have p: "2 ^ e = LB ^ q * (2 :: int) ^ m" unfolding q_def m_def by (rule two_power_limbs)
  note sp = sval_pow_two [OF e(2)]
  have z: "(replicate (Suc q) 0)[q := x] = replicate q 0 @ [x]" "(replicate (Suc (Suc q)) 0)[q := x] = replicate q 0 @ [x, 0]" for x :: u32
    by (induction q) simp_all
  consider "neg" | "\<not> neg" "m \<noteq> 31" | "\<not> neg" "m = 31" by blast
  then have "normal r \<and> sval r = (if neg then - (2 ^ e) else 2 ^ e)"
  proof cases
    case 1
    then have "len = Suc q" using assms(1) e by simp
    then have "r = replicate q 0 @ [push_bit m (- 1)]" using 1 r z(1) by (simp add: q_def m_def)
    then show ?thesis using 1 sp(1,5) normal_zeros [of "[push_bit m (- 1)]" q] sval_zeros [of "[push_bit m (- 1)]" q] p by (simp add: normal_def)
  next
    case 2
    then have "len = Suc q" using assms(1) e by simp
    then have "r = replicate q 0 @ [push_bit m 1]" using 2 r z(1) by (simp add: q_def m_def)
    then show ?thesis using 2 sp(3,4) normal_zeros [of "[push_bit m 1]" q] sval_zeros [of "[push_bit m 1]" q] p by (simp add: normal_def)
  next
    case 3
    then have "len = Suc (Suc q)" using assms(1) e by simp
    then have "r = replicate q 0 @ [push_bit m 1, 0]" using 3 r z(2) by (simp add: q_def m_def)
    moreover have "normal [push_bit m 1, 0]" using 3 sp(6) by (simp add: normal_def sign_limb_def sign_last)
    ultimately show ?thesis using 3 sp(2) normal_zeros [of "[push_bit m 1, 0]" q] sval_zeros [of "[push_bit m 1, 0]" q] p by simp
  qed
  then show "normal r" "sval r = (if neg then - (2 ^ e) else 2 ^ e)" by blast+
qed

lemma pow_of_two_spec:
  assumes v: "uint v = 2 ^ n" "n = 31 - clz32 v" "1 \<le> n" "v \<noteq> 0" and b: "normal b" "0 < sval b"
  shows "pow_ok alloc ((if neg then - (2 ^ n) else 2 ^ n) ^ nat (sval b)) (pow_of_two alloc v neg b)"
proof (cases "length b \<noteq> 1 \<or> b ! 0 > 0x7FFFFFFF")
  case True
  have "2 \<le> \<bar>(if neg then - (2 ^ n) else 2 ^ n) :: int\<bar>" using v(3) power_increasing [of 1 n "2 :: int"] by simp
  then have "bigint_limit \<le> \<bar>(if neg then - (2 ^ n) else 2 ^ n) ^ nat (sval b)\<bar>"
    using exponent_large [OF b True] by (intro huge_power) simp_all
  moreover have "pow_of_two alloc v neg b = Inl TooLarge"
    using True normal_nonempty [OF b(1)] by (cases b) (auto simp: pow_of_two_def)
  ultimately show ?thesis by (simp add: pow_ok_def)
next
  case False
  define x where "x = b ! 0"
  have l: "length b = 1" "\<not> x > 0x7FFFFFFF" using False by (auto simp: x_def)
  have s: "sval b = uint x" using sval_one [of b] sval_neg [OF normal_nonempty [OF b(1)]] l(1) b(2) by (simp add: x_def)
  then have k: "nat (sval b) = unat x" by simp
  define e where "e = unat x * n"
  define ng where "ng \<longleftrightarrow> neg \<and> x AND 1 \<noteq> 0"
  define len where "len = (e + 32 + 1 - (if ng then 1 else 0)) div 32"
  define r where "r = (replicate len 0)[e div 32 := push_bit (e mod 32) (if ng then - 1 else 1 :: u32)]"
  have "x AND 1 \<noteq> 0 \<longleftrightarrow> odd (unat x)"
    using unat_and_mask [of 1 1 x] by (simp add: word_unat_eq_iff odd_iff_mod_2_eq_one)
  then have val: "(if neg then - (2 ^ n) else 2 ^ n) ^ nat (sval b) = (if ng then - (2 ^ e) else 2 ^ e :: int)"
    unfolding k ng_def e_def by (auto simp: power_mult [symmetric] mult.commute)
  note R = one_limb_power [OF len_def r_def]
  have big: "bigint_limit \<le> \<bar>if ng then - (2 ^ e) else 2 ^ e\<bar>" if "1048542 \<le> e"
    using huge_power [of 2 e] that by simp
  have "pow_of_two alloc v neg b = (if e > JS_BIGINT_MAX_SIZE * 32 then Inl TooLarge else big_bind (js_bigint_new alloc len) (\<lambda>_. Inr r))"
    using l v(2,4) by (simp add: pow_of_two_def Let_def x_def e_def ng_def len_def r_def js_limb_clz_def)
  moreover have "pow_ok alloc (if ng then - (2 ^ e) else 2 ^ e) (big_bind (js_bigint_new alloc len) (\<lambda>_. Inr r))"
    by (rule pow_new) (use R big in \<open>auto simp: pow_ok_def len_def\<close>)
  ultimately show ?thesis unfolding val using big by (auto simp: pow_ok_def)
qed

lemma limb_abs:
  assumes "v1 = (if bit v 31 then - v else v)"
  shows "uint v1 = \<bar>sval [v]\<bar>" "sval [v] = (if bit v 31 then - uint v1 else uint v1)"
proof -
  have "uint v1 = (if bit v 31 then LB - uint v else uint v)"
  proof (cases "bit v 31")
    case True
    then have "v \<noteq> 0" by auto
    moreover have "uint v mod LB = uint v" using uint_limb [of v] by (intro mod_pos_pos_trivial) simp_all
    ultimately have "uint (- v) = LB - uint v" by (simp add: uint_word_ariths zmod_zminus1_eq_if uint_0_iff)
    then show ?thesis using True assms by simp
  qed (simp add: assms)
  then show "uint v1 = \<bar>sval [v]\<bar>" "sval [v] = (if bit v 31 then - uint v1 else uint v1)"
    using uint_limb(1) [of v] uint_limb(2) [of v] unfolding sval_single by auto
qed

lemma sval_parity: "b \<noteq> [] \<Longrightarrow> even (sval b) \<longleftrightarrow> b ! 0 AND 1 = 0"
  using bit_sval [of b 0] by (cases b) (auto simp: bit_0 and_one_eq even_iff_mod_2_eq_zero)

lemma minus_one_power:
  assumes "b \<noteq> []" "0 \<le> sval b"
  shows "sval [1 - 2 * (b ! 0 AND 1)] = (- 1) ^ nat (sval b)"
proof -
  have "even (nat (sval b)) \<longleftrightarrow> b ! 0 AND 1 = 0" using sval_parity [OF assms(1)] assms(2) by (simp add: even_nat_iff)
  moreover have "b ! 0 AND 1 = 0 \<or> b ! 0 AND 1 = 1" using parity_cases [of "b ! 0"] by (auto simp: and_one_eq)
  ultimately show ?thesis by (auto simp: sval_single uint_minus_1)
qed

lemma js_bigint_pow_spec:
  assumes "normal a" "normal b"
  shows "if sval b < 0 then js_bigint_pow alloc a b = Inl NegativeExponent
    else pow_ok alloc (sval a ^ nat (sval b)) (js_bigint_pow alloc a b)"
proof -
  have n: "a \<noteq> []" "b \<noteq> []" using assms normal_nonempty by auto
  have si: "pow_ok alloc (sval [t]) (js_bigint_new_si alloc t)" for t
    unfolding js_bigint_new_si_def by (rule pow_new) (simp_all add: pow_ok_def normal_def)
  have neg: "js_bigint_sign b \<longleftrightarrow> sval b < 0" using sval_neg [OF n(2)] by simp
  have one: "sval [1] = 1" by (simp add: sval_def sign_last)
  show ?thesis
  proof (cases "sval b \<le> 0")
    case True
    then show ?thesis using neg normal_zero [OF assms(2)] si [of 1] one by (auto simp: js_bigint_pow_def)
  next
    case pos: False
    then have b0: "\<not> js_bigint_sign b" "\<not> (length b = 1 \<and> b ! 0 = 0)" "0 < sval b" using neg normal_zero [OF assms(2)] by auto
    have "pow_ok alloc (sval a ^ nat (sval b)) (js_bigint_pow alloc a b)"
    proof (cases "length a = 1")
      case True
      then obtain v where a: "a = [v]" by (cases a) auto
      define v1 where "v1 = (if bit v 31 then - v else v)"
      note va = limb_abs [OF v1_def]
      consider "v \<le> 1" | "\<not> v \<le> 1" "v = - 1" | "\<not> v \<le> 1" "v \<noteq> - 1" by blast
      then show ?thesis
      proof cases
        case 1
        then have "v = 0 \<or> v = 1" by (auto simp: word_le_nat_alt word_unat_eq_iff)
        then have "sval a ^ nat (sval b) = sval [v]" using b0(3) one by (auto simp: a)
        then show ?thesis using 1 b0(1,2) si [of v] by (auto simp: js_bigint_pow_def a)
      next
        case 2
        have "sval a = - 1" using 2 by (simp add: a sval_single uint_minus_1)
        then show ?thesis using 2 b0 si [of "1 - 2 * (b ! 0 AND 1)"] minus_one_power [OF n(2)] by (auto simp: js_bigint_pow_def a)
      next
        case 3
        have "2 \<le> uint v1"
        proof (cases "bit v 31")
          case True
          have "uint v \<noteq> LB - 1" using 3(2) uint_minus_1 by (metis word_uint_eq_iff)
          then show ?thesis using True uint_limb(2) [of v] va unfolding sval_single by simp
        next
          case False
          have "1 < uint v" using 3(1) by (simp add: word_le_def)
          then show ?thesis using False by (simp add: v1_def)
        qed
        then have v2: "2 \<le> \<bar>sval a\<bar>" "v1 \<noteq> 0" using va(1) by (auto simp: a)
        have E: "js_bigint_pow alloc a b = (if v1 AND (v1 - 1) = 0 then pow_of_two alloc v1 (bit v 31) b else pow_general alloc a b)"
          using b0 3 by (auto simp: js_bigint_pow_def a v1_def Let_def)
        show ?thesis
        proof (cases "v1 AND (v1 - 1) = 0")
          case True
          note p = power_of_two_limb [OF v2(2) True]
          have "31 - clz32 v1 \<noteq> 0" using p \<open>2 \<le> uint v1\<close> by (intro notI) simp
          then have "pow_ok alloc ((if bit v 31 then - (2 ^ (31 - clz32 v1)) else 2 ^ (31 - clz32 v1)) ^ nat (sval b)) (pow_of_two alloc v1 (bit v 31) b)"
            by (intro pow_of_two_spec [OF p refl _ v2(2) assms(2) b0(3)]) simp
          then show ?thesis using E True va(2) by (cases "bit v 31") (simp_all add: a p)
        next
          case False
          then show ?thesis using E pow_general_spec [OF assms(1) v2(1) assms(2) b0(3)] by simp
        qed
      qed
    next
      case False
      have "1 \<le> length a - 1" using n(1) False by (cases a) (auto simp: Suc_le_eq)
      then have "LB ^ 1 \<le> LB ^ (length a - 1)" by (intro power_increasing) simp_all
      then have "2 \<le> \<bar>sval a\<bar>" using normal_big [OF assms(1)] normal_zero [OF assms(1)] False by auto
      then show ?thesis using pow_general_spec [OF assms(1) _ assms(2) b0(3)] False b0(1,2) unfolding js_bigint_pow_def by (simp only: if_False)
    qed
    then show ?thesis using pos by simp
  qed
qed

section \<open>Power\<close>

text \<open>
  C16. The power of two BigInts: a negative exponent is an error; otherwise the result is the exact
  power in canonical form, or the error for a result that is too large, raised only if the power has
  at least \<open>32 * 32767 - 2\<close> bits, or a refused allocation.
\<close>

theorem bigint_power_exact:
  assumes "normal a" "normal b"
  shows "if sval b < 0 then js_bigint_pow alloc a b = Inl NegativeExponent
    else pow_ok alloc (sval a ^ nat (sval b)) (js_bigint_pow alloc a b)"
  using js_bigint_pow_spec [OF assms] .

theorem bigint_power_exact_witness:
  "pow_ok (\<lambda>_. True) ((- 3) ^ 21) (js_bigint_pow (\<lambda>_. True) [0xFFFFFFFD] [21])
   \<and> js_bigint_pow (\<lambda>_. True) [0xFFFFFFFD] [21] = Inr [0x9083AD4D, 0xFFFFFFFD]"
proof -
  have v: "normal [0xFFFFFFFD]" "normal [21]" "sval [0xFFFFFFFD] = - 3" "sval [21] = 21"
    by (simp_all add: normal_def sval_single)
  have "js_bigint_pow (\<lambda>_. True) [0xFFFFFFFD] [21] = Inr [0x9083AD4D, 0xFFFFFFFD]" by code_simp
  then show ?thesis using bigint_power_exact [OF v(1,2), of "\<lambda>_. True"] v(3,4) by simp
qed

end
