(* ===== verification/IntText.thy ===== *)
theory IntText
  imports Limbs
begin

text \<open>
  The text of machine integers (\<open>src/dtoa.c\<close>, \<open>u32toa_len\<close> to \<open>i64toa_radix\<close>). Each function
  returns the characters it stores; a function that fills a local array from its end counts the
  free places of the array and faults when there is none left. All are compared with the one
  numeral of a number in a radix that has no leading zero, \<open>digits_of\<close>.
\<close>

section \<open>Fixed width\<close>

fun u32toa_len :: "u32 \<Rightarrow> nat \<Rightarrow> u8 list" where
  "u32toa_len n 0 = []"
| "u32toa_len n (Suc i) = u32toa_len (n div 10) i @ [ucast (n mod 10) + 48]"

definition digit_char :: "nat \<Rightarrow> u8" where
  "digit_char digit = (if digit < 10 then of_nat (digit + 48) else of_nat (digit + (97 - 10)))"

fun u64toa_bin_len :: "u64 \<Rightarrow> nat \<Rightarrow> nat \<Rightarrow> u8 list" where
  "u64toa_bin_len n radix_bits 0 = []"
| "u64toa_bin_len n radix_bits (Suc i) =
     (let mask = push_bit radix_bits 1 - 1 :: u32; digit = unat (n AND ucast mask)
      in u64toa_bin_len (drop_bit radix_bits n) radix_bits i @ [digit_char digit])"

section \<open>Variable width\<close>

text \<open>The loop stores backwards into an array of ten characters.\<close>

fun u32toa_loop :: "nat \<Rightarrow> u32 \<Rightarrow> u8 list \<Rightarrow> u8 list res" where
  "u32toa_loop 0 n q = Inl BadPointer"
| "u32toa_loop (Suc k) n q =
     (let q1 = (ucast (n mod 10) + 48) # q; n1 = n div 10
      in if n1 \<noteq> 0 then u32toa_loop k n1 q1 else Inr q1)"

definition u32toa :: "u32 \<Rightarrow> u8 list res" where
  "u32toa n = u32toa_loop 10 n []"

definition i32toa :: "u32 \<Rightarrow> u8 list res" where
  "i32toa n = (if sint n \<ge> 0 then u32toa n else res_bind (u32toa (- n)) (\<lambda>q. Inr (45 # q)))"

definition u64toa :: "u64 \<Rightarrow> u8 list res" where
  "u64toa n =
     (if n < 0x100000000 then u32toa (ucast n)
      else
        let n1 = n div 1000000000; n0 = n mod 1000000000
        in res_bind
             (if n1 \<ge> 0x100000000
              then
                let n2 = ucast (n1 div 1000000000) :: u32; n3 = n1 mod 1000000000
                in Inr ((if n2 \<ge> 10 then [ucast (n2 div 10) + 48, ucast (n2 mod 10) + 48] else [ucast n2 + 48])
                        @ u32toa_len (ucast n3) 9)
              else u32toa (ucast n1))
             (\<lambda>q. Inr (q @ u32toa_len (ucast n0) 9)))"

definition i64toa :: "u64 \<Rightarrow> u8 list res" where
  "i64toa n = (if sint n \<ge> 0 then u64toa n else res_bind (u64toa (- n)) (\<lambda>q. Inr (45 # q)))"

definition clz64 :: "u64 \<Rightarrow> nat" where
  "clz64 a = length (takeWhile (\<lambda>i. \<not> bit a i) (rev [0..<64]))"

fun radix_loop :: "nat \<Rightarrow> u64 \<Rightarrow> u64 \<Rightarrow> u8 list \<Rightarrow> u8 list res" where
  "radix_loop 0 radix n q = Inl BadPointer"
| "radix_loop (Suc k) radix n q =
     (let q1 = digit_char (unat (n mod radix)) # q; n1 = n div radix
      in if n1 \<noteq> 0 then radix_loop k radix n1 q1 else Inr q1)"

definition u64toa_radix :: "u64 \<Rightarrow> u32 \<Rightarrow> u8 list res" where
  "u64toa_radix n radix =
     (if radix = 10 then u64toa n
      else if radix AND (radix - 1) = 0
      then
        let radix_bits = 31 - clz32 radix;
            l = (if n = 0 then 1 else (64 - clz64 n + radix_bits - 1) div radix_bits)
        in Inr (u64toa_bin_len n radix_bits l)
      else radix_loop 41 (ucast radix) n [])"

definition i64toa_radix :: "u64 \<Rightarrow> u32 \<Rightarrow> u8 list res" where
  "i64toa_radix n radix =
     (if sint n \<ge> 0 then u64toa_radix n radix else res_bind (u64toa_radix (- n) radix) (\<lambda>q. Inr (45 # q)))"

section \<open>Numerals\<close>

function digits_of :: "nat \<Rightarrow> nat \<Rightarrow> nat list" where
  "digits_of b n = (if n < b \<or> b < 2 then [n] else digits_of b (n div b) @ [n mod b])"
  by auto
termination by (relation "measure snd") auto

declare digits_of.simps [simp del]

fun fixed_digits :: "nat \<Rightarrow> nat \<Rightarrow> nat \<Rightarrow> nat list" where
  "fixed_digits b n 0 = []"
| "fixed_digits b n (Suc i) = fixed_digits b (n div b) i @ [n mod b]"

definition digits_value :: "nat \<Rightarrow> nat list \<Rightarrow> nat" where
  "digits_value b ds = foldl (\<lambda>v d. v * b + d) 0 ds"

lemma digits_small: "n < b \<Longrightarrow> digits_of b n = [n]"
  by (simp add: digits_of.simps)

lemma digits_step: "2 \<le> b \<Longrightarrow> b \<le> n \<Longrightarrow> digits_of b n = digits_of b (n div b) @ [n mod b]"
  by (simp add: digits_of.simps [of b n])

lemma digits_ne [simp]: "digits_of b n \<noteq> []"
  by (simp add: digits_of.simps [of b n])

lemma digits_value_snoc [simp]: "digits_value b (ds @ [d]) = digits_value b ds * b + d"
  by (simp add: digits_value_def)

lemma digits_value_nil [simp]: "digits_value b [] = 0"
  by (simp add: digits_value_def)

lemma digits_value_of: "2 \<le> b \<Longrightarrow> digits_value b (digits_of b n) = n"
proof (induction b n rule: digits_of.induct)
  case (1 b n)
  show ?case
  proof (cases "n < b")
    case True
    then show ?thesis using digits_value_snoc [of b "[]" n] by (simp add: digits_small)
  next
    case False
    then show ?thesis using 1 by (simp add: digits_step)
  qed
qed

lemma digits_bound: "2 \<le> b \<Longrightarrow> d \<in> set (digits_of b n) \<Longrightarrow> d < b"
proof (induction b n rule: digits_of.induct)
  case (1 b n)
  then show ?case by (cases "n < b") (auto simp: digits_small digits_step)
qed

lemma digits_head: "2 \<le> b \<Longrightarrow> n \<noteq> 0 \<Longrightarrow> hd (digits_of b n) \<noteq> 0"
proof (induction b n rule: digits_of.induct)
  case (1 b n)
  then show ?case by (cases "n < b") (auto simp: digits_small digits_step div_eq_0_iff)
qed

lemma digits_append:
  assumes "2 \<le> b" "x \<noteq> 0" "y < b ^ k"
  shows "digits_of b (x * b ^ k + y) = digits_of b x @ fixed_digits b y k"
  using assms(3)
proof (induction k arbitrary: y)
  case (Suc k)
  have "y div b < b ^ k" using Suc.prems assms(1) by (simp add: less_mult_imp_div_less mult.commute)
  moreover have e: "x * b ^ Suc k + y = y + (x * b ^ k) * b" by simp
  have "(x * b ^ Suc k + y) div b = x * b ^ k + y div b" "(x * b ^ Suc k + y) mod b = y mod b"
    unfolding e using assms(1) by (simp_all only: div_mult_self1 mod_mult_self1)
  moreover have "b \<le> x * b ^ Suc k + y" using assms(1,2) by (simp add: trans_le_add1)
  ultimately show ?case using Suc.IH [of "y div b"] assms(1) by (simp add: digits_step)
qed simp

lemma fixed_full:
  assumes "2 \<le> b" "n < b ^ k" "b ^ (k - 1) \<le> n" "0 < k"
  shows "fixed_digits b n k = digits_of b n"
  using assms
proof (induction k arbitrary: n)
  case (Suc k)
  show ?case
  proof (cases k)
    case 0
    then show ?thesis using Suc.prems by (simp add: digits_small)
  next
    case (Suc j)
    have n: "b * b ^ j \<le> n" "n < b * b ^ k" using Suc Suc.prems by simp_all
    have "b ^ (k - 1) \<le> n div b" using n(1) Suc assms(1) by (simp add: less_eq_div_iff_mult_less_eq mult.commute)
    moreover have "n div b < b ^ k" using n(2) by (simp add: less_mult_imp_div_less mult.commute)
    moreover have "b * 1 \<le> b * b ^ j" using assms(1) by (intro mult_le_mono2) simp
    then have "b \<le> n" using n(1) by linarith
    ultimately show ?thesis using Suc.IH [of "n div b"] Suc assms(1) by (simp add: digits_step)
  qed
qed simp

lemma digits_length: "2 \<le> b \<Longrightarrow> n < b ^ k \<Longrightarrow> 0 < k \<Longrightarrow> length (digits_of b n) \<le> k"
proof (induction k arbitrary: n)
  case (Suc k)
  show ?case
  proof (cases "n < b")
    case False
    then have "n div b < b ^ k" "0 < k" using Suc.prems by (auto simp: less_mult_imp_div_less mult.commute intro: gr0I)
    then show ?thesis using Suc.IH [of "n div b"] Suc.prems False by (simp add: digits_step)
  qed (simp add: digits_small)
qed simp

lemma digit_ten: "n < 10 \<Longrightarrow> digit_char n = of_nat n + 48"
  by (simp add: digit_char_def)

lemma ucast_digit: "unat (d :: u32) < 10 \<Longrightarrow> ucast d + 48 = digit_char (unat d)"
  by (simp add: digit_ten)

lemma u32toa_len_spec: "u32toa_len n k = map digit_char (fixed_digits 10 (unat n) k)"
proof (induction k arbitrary: n)
  case (Suc k)
  have "unat (n mod 10) = unat n mod 10" "unat (n div 10) = unat n div 10" by (simp_all add: unat_mod unat_div)
  then show ?case using Suc [of "n div 10"] ucast_digit [of "n mod 10"] by simp
qed simp

lemma u32toa_loop_spec:
  "unat n < 10 ^ k \<Longrightarrow> 0 < k \<Longrightarrow> u32toa_loop k n q = Inr (map digit_char (digits_of 10 (unat n)) @ q)"
proof (induction k arbitrary: n q)
  case (Suc k)
  have u: "unat (n mod 10) = unat n mod 10" "unat (n div 10) = unat n div 10" by (simp_all add: unat_mod unat_div)
  have d: "ucast (n mod 10) + 48 = digit_char (unat n mod 10)" using ucast_digit [of "n mod 10"] u(1) by simp
  have z: "n div 10 = 0 \<longleftrightarrow> unat n < 10" using u(2) by (simp add: unat_eq_zero [symmetric] div_eq_0_iff del: unat_eq_zero)
  show ?case
  proof (cases "unat n < 10")
    case True
    then show ?thesis using z d by (simp add: digits_small)
  next
    case False
    have "unat (n div 10) < 10 ^ k" unfolding u(2) using Suc.prems(1) by (simp add: less_mult_imp_div_less mult.commute)
    moreover have "0 < k" using False Suc.prems(1) by (cases k) simp_all
    ultimately show ?thesis using Suc.IH [of "n div 10"] z d u(2) False by (simp add: Let_def digits_step)
  qed
qed simp

lemma u32toa_spec: "u32toa n = Inr (map digit_char (digits_of 10 (unat n)))"
  using u32toa_loop_spec [of n 10 "[]"] unat_u32_less [of n] by (simp add: u32toa_def)

lemma fixed_length [simp]: "length (fixed_digits b n k) = k"
  by (induction k arbitrary: n) simp_all

lemma clz64_spec:
  assumes "x \<noteq> 0"
  shows "clz64 x < 64" "2 ^ (63 - clz64 x) \<le> unat x" "unat x < 2 ^ (64 - clz64 x)"
  using leading_zeros_nat [OF assms _ clz64_def] by simp_all

lemma u64toa_bin_len_spec:
  assumes "0 < b" "b < 32"
  shows "u64toa_bin_len n b k = map digit_char (fixed_digits (2 ^ b) (unat n) k)"
proof (induction k arbitrary: n)
  case (Suc k)
  have "ucast (push_bit b 1 - 1 :: u32) = (mask b :: u64)"
    by (rule bit_word_eqI) (use assms in \<open>auto simp: mask_eq_exp_minus_1 [symmetric] bit_simps\<close>)
  then have "unat (n AND ucast (push_bit b 1 - 1 :: u32)) = unat n mod 2 ^ b"
    by (simp add: take_bit_eq_mask [symmetric] unat_take_bit)
  moreover have "unat (drop_bit b n) = unat n div 2 ^ b" by (rule unat_shift_right)
  ultimately show ?case using Suc [of "drop_bit b n"] by (simp add: Let_def)
qed simp

lemma radix_loop_spec:
  assumes "2 \<le> unat radix"
  shows "unat n < unat radix ^ k \<Longrightarrow> 0 < k \<Longrightarrow>
    radix_loop k radix n q = Inr (map digit_char (digits_of (unat radix) (unat n)) @ q)"
proof (induction k arbitrary: n q)
  case (Suc k)
  have u: "unat (n mod radix) = unat n mod unat radix" "unat (n div radix) = unat n div unat radix"
    by (simp_all add: unat_mod unat_div)
  have z: "n div radix = 0 \<longleftrightarrow> unat n < unat radix"
    using u(2) assms by (simp add: unat_eq_zero [symmetric] div_eq_0_iff del: unat_eq_zero)
  show ?case
  proof (cases "unat n < unat radix")
    case True
    then show ?thesis using z u by (simp add: digits_small)
  next
    case False
    have "unat (n div radix) < unat radix ^ k" unfolding u(2) using Suc.prems(1) by (simp add: less_mult_imp_div_less mult.commute)
    moreover have "0 < k" using False Suc.prems(1) by (cases k) simp_all
    ultimately show ?thesis using Suc.IH [of "n div radix"] z u False assms by (simp add: Let_def digits_step)
  qed
qed simp

lemma two_digit_chars:
  assumes "unat (n2 :: u32) < 100"
  shows "(if n2 \<ge> 10 then [ucast (n2 div 10) + 48, ucast (n2 mod 10) + 48] else [ucast n2 + 48])
    = map digit_char (digits_of 10 (unat n2))"
proof (cases "n2 \<ge> 10")
  case True
  then have "10 \<le> unat n2" by (simp add: word_le_nat_alt)
  moreover have u: "unat (n2 div 10) = unat n2 div 10" "unat (n2 mod 10) = unat n2 mod 10" by (simp_all add: unat_div unat_mod)
  moreover have "unat n2 div 10 < 10" using assms by simp
  ultimately show ?thesis using True ucast_digit [of "n2 div 10"] ucast_digit [of "n2 mod 10"]
    by (simp add: digits_step digits_small)
next
  case False
  then have "unat n2 < 10" by (simp add: word_le_nat_alt)
  then show ?thesis using False ucast_digit [of n2] by (simp add: digits_small)
qed

lemma u64toa_spec: "u64toa n = Inr (map digit_char (digits_of 10 (unat n)))"
proof (cases "n < 0x100000000")
  case True
  then have "unat (ucast n :: u32) = unat n" by (intro unat_ucast_fit) (simp add: word_less_nat_alt)
  then show ?thesis using True by (simp add: u64toa_def u32toa_spec)
next
  case False
  define G :: nat where "G = 10 ^ 9"
  define n1 n0 n2 n3 where "n1 = n div 1000000000" "n0 = n mod 1000000000" "n2 = n1 div 1000000000" "n3 = n1 mod 1000000000"
  have u: "unat n1 = unat n div G" "unat n0 = unat n mod G" "unat n2 = unat n1 div G" "unat n3 = unat n1 mod G"
    by (simp_all add: n1_n0_n2_n3_def unat_div unat_mod G_def)
  have l: "unat n0 < G" "unat n3 < G" unfolding u by (simp_all add: G_def)
  have e: "unat n = unat n1 * G + unat n0" "unat n1 = unat n2 * G + unat n3" by (simp_all add: u)
  have f: "unat (ucast n0 :: u32) = unat n0" "unat (ucast n3 :: u32) = unat n3"
    by (rule unat_ucast_fit; use l in \<open>simp add: G_def\<close>)+
  have big: "4294967296 \<le> unat n" using False by (simp add: word_less_nat_alt)
  then have n1: "unat n1 \<noteq> 0" using e(1) l(1) by (intro notI) (simp add: G_def)
  note low = digits_append [of 10 "unat n1" "unat n0" 9, folded G_def, folded e, OF _ n1 l(1)]
  show ?thesis
  proof (cases "n1 \<ge> 0x100000000")
    case True
    then have "4294967296 \<le> unat n1" by (simp add: word_le_nat_alt)
    then have n2: "unat n2 \<noteq> 0" using e(2) l(2) by (intro notI) (simp add: G_def)
    have "unat n div (G * G) < 100" by (rule less_mult_imp_div_less, rule less_trans [OF unat_u64_less], simp add: G_def)
    then have "unat n2 < 100" unfolding u by (simp add: div_mult2_eq)
    moreover then have "unat (ucast n2 :: u32) = unat n2" by (intro unat_ucast_fit) simp
    ultimately have "u64toa n = Inr (map digit_char (digits_of 10 (unat n2)) @ u32toa_len (ucast n3) 9 @ u32toa_len (ucast n0) 9)"
      using two_digit_chars [of "ucast n2"] True False
      unfolding u64toa_def Let_def n1_n0_n2_n3_def [symmetric] by simp
    moreover note digits_append [of 10 "unat n2" "unat n3" 9, folded G_def, folded e, OF _ n2 l(2)]
    ultimately show ?thesis using low by (simp add: u32toa_len_spec f)
  next
    case False
    then have "unat (ucast n1 :: u32) = unat n1" by (intro unat_ucast_fit) (simp add: word_le_nat_alt)
    moreover have "u64toa n = res_bind (u32toa (ucast n1)) (\<lambda>q. Inr (q @ u32toa_len (ucast n0) 9))"
      using False \<open>\<not> n < 0x100000000\<close> unfolding u64toa_def Let_def n1_n0_n2_n3_def [symmetric] by simp
    ultimately show ?thesis using low by (simp add: u32toa_spec u32toa_len_spec f)
  qed
qed

lemma power_of_two_radix:
  assumes "radix AND (radix - 1) = 0" "2 \<le> unat (radix :: u32)"
  shows "unat radix = 2 ^ (31 - clz32 radix)" "0 < 31 - clz32 radix" "31 - clz32 radix < 32"
proof -
  define k where "k = 31 - clz32 radix"
  have nz: "radix \<noteq> 0" using assms(2) by auto
  note z = leading_zeros_nat [OF nz _ clz32_def, simplified]
  have "Suc k = 32 - clz32 radix" using z(1) by (simp add: k_def)
  then have lo: "2 ^ k \<le> unat radix" and hi: "unat radix < 2 * 2 ^ k" using z(2,3) by (simp_all add: k_def flip: power_Suc)
  have "unat radix = 2 ^ k"
  proof (rule ccontr)
    assume "unat radix \<noteq> 2 ^ k"
    then have "2 ^ k \<le> unat (radix - 1)" "unat (radix - 1) < 2 * 2 ^ k"
      using lo hi nz by (auto simp: unat_minus_one)
    moreover have "bit y k" if "2 ^ k \<le> unat y" "unat y < 2 * 2 ^ k" for y :: u32
    proof -
      have "unat y div 2 ^ k = 1" using that by (intro div_nat_eqI) simp_all
      then show ?thesis by (simp add: bit_word_nat)
    qed
    ultimately have "bit (radix AND (radix - 1)) k" using lo hi by (simp add: bit_and_iff)
    then show False using assms(1) by simp
  qed
  then show "unat radix = 2 ^ (31 - clz32 radix)" by (simp add: k_def)
  then show "0 < 31 - clz32 radix" using assms(2) by (intro gr0I) simp
qed simp

lemma ceiling_digits:
  fixes m b :: nat
  assumes "0 < b" "0 < m" "l = (m + b - 1) div b"
  shows "m \<le> b * l" "b * (l - 1) \<le> m - 1" "0 < l"
proof -
  have "b * l \<le> m + b - 1" "m + b - 1 < b * l + b"
    unfolding assms(3) using dividend_less_div_times [OF assms(1), of "m + b - 1"]
    by (simp_all add: mult.commute [of b] add.commute [of b])
  then show "m \<le> b * l" "b * (l - 1) \<le> m - 1" "0 < l"
    using assms(1,2) by (auto simp: diff_mult_distrib2 intro: gr0I)
qed

lemma digits_of_bits:
  assumes "0 < b" "0 < m" "2 ^ (m - 1) \<le> n" "n < 2 ^ m" "l = (m + b - 1) div b"
  shows "fixed_digits (2 ^ b) n l = digits_of (2 ^ b) n"
proof -
  note c = ceiling_digits [OF assms(1,2,5)]
  have "(2 :: nat) ^ m \<le> (2 ^ b) ^ l" unfolding power_mult [symmetric] using c(1) by (intro power_increasing) simp_all
  moreover have "(2 ^ b) ^ (l - 1) \<le> (2 :: nat) ^ (m - 1)" unfolding power_mult [symmetric] using c(2) by (intro power_increasing) simp_all
  moreover have "2 ^ 1 \<le> (2 :: nat) ^ b" using assms(1) by (intro power_increasing) simp_all
  ultimately show ?thesis using assms(3,4) c(3) by (intro fixed_full) simp_all
qed

lemma digits_of_word_bits:
  assumes "0 < b" "n \<noteq> 0"
  shows "fixed_digits (2 ^ b) (unat n) ((64 - clz64 n + b - 1) div b) = digits_of (2 ^ b) (unat n)"
  by (rule digits_of_bits [OF assms(1) _ _ _ refl]) (use clz64_spec [OF assms(2)] in simp_all)

lemma u64toa_radix_spec:
  assumes "2 \<le> unat radix" "unat radix \<le> 36"
  shows "u64toa_radix n radix = Inr (map digit_char (digits_of (unat radix) (unat n)))"
proof -
  consider "radix = 10" | "radix \<noteq> 10" "radix AND (radix - 1) = 0" | "radix \<noteq> 10" "radix AND (radix - 1) \<noteq> 0" by blast
  then show ?thesis
  proof cases
    case 1
    then show ?thesis by (simp add: u64toa_radix_def u64toa_spec)
  next
    case 2
    note p = power_of_two_radix [OF 2(2) assms(1)]
    have "fixed_digits (unat radix) 0 1 = digits_of (unat radix) 0" using assms(1) by (simp add: digits_small)
    then show ?thesis using 2 p(2,3) digits_of_word_bits [OF p(2), of n]
      by (simp add: u64toa_radix_def Let_def u64toa_bin_len_spec p(1) [symmetric])
  next
    case 3
    have r: "unat (ucast radix :: u64) = unat radix" by (intro unat_ucast_fit) (use assms in simp)
    have "unat radix \<noteq> 2" using 3(2) word_unat_eq_iff [of radix 2] by auto
    then have "3 ^ 41 \<le> unat radix ^ 41" using assms(1) by (intro power_mono) simp_all
    then have "unat n < unat (ucast radix :: u64) ^ 41" unfolding r by (intro less_le_trans [OF less_trans [OF unat_u64_less]]) simp_all
    then show ?thesis using 3 radix_loop_spec [of "ucast radix" n 41 "[]"] assms(1) by (simp add: u64toa_radix_def r)
  qed
qed

section \<open>Signed integers\<close>

definition int_text :: "nat \<Rightarrow> int \<Rightarrow> u8 list" where
  "int_text b v = (if v < 0 then [45] else []) @ map digit_char (digits_of b (nat \<bar>v\<bar>))"

lemma unat_sint:
  fixes n :: "'a :: len word"
  shows "sint n \<ge> 0 \<Longrightarrow> unat n = nat \<bar>sint n\<bar>" and "sint n < 0 \<Longrightarrow> unat (- n) = nat \<bar>sint n\<bar>"
proof -
  have r: "- (2 ^ (LENGTH('a) - 1)) \<le> sint n" "sint n < 2 ^ (LENGTH('a) - 1)"
    using sint_greater_eq [of n] sint_less [of n] by simp_all
  have p: "(2 :: int) ^ (LENGTH('a) - 1) * 2 = 2 ^ LENGTH('a)"
    by (metis One_nat_def Suc_pred len_gt_0 power_Suc2)
  show "sint n \<ge> 0 \<Longrightarrow> unat n = nat \<bar>sint n\<bar>"
    using r p by (simp add: unat_eq_nat_uint uint_sint take_bit_int_eq_self)
  assume neg: "sint n < 0"
  have "uint (- n) = (- sint n) mod 2 ^ LENGTH('a)"
    unfolding uint_word_ariths uint_sint [of n] take_bit_eq_mod by (rule mod_minus_eq)
  also have "\<dots> = - sint n" using neg r p by (intro mod_pos_pos_trivial) linarith+
  finally show "unat (- n) = nat \<bar>sint n\<bar>" using neg by (simp add: unat_eq_nat_uint)
qed

lemma signed_text:
  assumes "\<And>n. f n = Inr (map digit_char (digits_of b (unat n)))"
  shows "(if sint n \<ge> 0 then f n else res_bind (f (- n)) (\<lambda>q. Inr (45 # q))) = Inr (int_text b (sint (n :: 'a :: len word)))"
  using assms unat_sint [of n] by (simp add: int_text_def)

lemma int_text_length: "2 \<le> b \<Longrightarrow> nat \<bar>v\<bar> < b ^ k \<Longrightarrow> 0 < k \<Longrightarrow> length (int_text b v) \<le> Suc k"
  using digits_length [of b "nat \<bar>v\<bar>" k] by (auto simp: int_text_def)



end
