(* ===== verification/BigIntRead.thy ===== *)
theory BigIntRead
  imports BigIntPow IntText
begin

text \<open>
  BigInts from text (\<open>src/quickjs.c\<close>, \<open>js_to_digit\<close>, \<open>js_bigint_from_string\<close>). A text is the list of
  its characters without the terminating zero. A store outside the limb array is the fault
  \<open>BadPointer\<close>; the theorems show that the number of limbs reserved from the number of digits
  excludes it.
\<close>

section \<open>Reading\<close>

definition js_to_digit :: "u8 \<Rightarrow> nat" where
  "js_to_digit c =
     (if 48 \<le> c \<and> c \<le> 57 then unat (c - 48)
      else if 65 \<le> c \<and> c \<le> 90 then unat (c - 65 + 10)
      else if 97 \<le> c \<and> c \<le> 122 then unat (c - 97 + 10)
      else 36)"

definition js_pow_dec :: "u32 list" where
  "js_pow_dec = [1, 10, 100, 1000, 10000, 100000, 1000000, 10000000, 100000000, 1000000000]"

text \<open>The digits of one limb: at most as many as the first argument says.\<close>

fun limb_digits :: "nat \<Rightarrow> u8 list \<Rightarrow> u32 \<Rightarrow> nat \<Rightarrow> u32 \<times> nat \<times> u8 list" where
  "limb_digits (Suc k) (c # p) v i =
     (if js_to_digit c \<ge> 10 then (v, i, c # p) else limb_digits k p (v * 10 + of_nat (js_to_digit c)) (Suc i))"
| "limb_digits k p v i = (v, i, p)"

lemma limb_digits_length: "limb_digits k p v i = (v1, i1, p1) \<Longrightarrow> i1 + length p1 = i + length p \<and> i \<le> i1"
  by (induction k p v i rule: limb_digits.induct) (fastforce split: if_splits)+

definition put_limb :: "nat \<Rightarrow> u32 list \<Rightarrow> u32 \<Rightarrow> u32 list res" where
  "put_limb n_limbs tab v = (if length tab < n_limbs then Inr (tab @ [v]) else Inl BadPointer)"

definition add_digits :: "nat \<Rightarrow> u32 list \<Rightarrow> u32 \<Rightarrow> nat \<Rightarrow> u32 list res" where
  "add_digits n_limbs tab v i =
     (if length tab = 1 \<and> tab ! 0 = 0 then Inr [v]
      else case js_mp_mul1 tab (js_pow_dec ! i) v of (r, h) \<Rightarrow> if h \<noteq> 0 then put_limb n_limbs r h else Inr r)"

function decimal_loop :: "nat \<Rightarrow> u8 list \<Rightarrow> u32 list \<Rightarrow> u32 list res" where
  "decimal_loop n_limbs p tab =
     (case limb_digits 9 p 0 0 of (v, i, p1) \<Rightarrow>
        if i = 0 then Inr tab
        else case add_digits n_limbs tab v i of Inl e \<Rightarrow> Inl e | Inr tab1 \<Rightarrow> decimal_loop n_limbs p1 tab1)"
  by pat_completeness auto
termination
  by (relation "measure (\<lambda>(n, p, t). length p)") (auto dest!: limb_digits_length [OF sym])

declare decimal_loop.simps [simp del]

text \<open>Radix a power of two: the characters come last first, with their number so far.\<close>

definition or_limb :: "u32 list \<Rightarrow> nat \<Rightarrow> u32 \<Rightarrow> u32 list res" where
  "or_limb tab pos v = (if pos < length tab then Inr (tab[pos := tab ! pos OR v]) else Inl BadPointer)"

definition or_digit :: "nat \<Rightarrow> nat \<Rightarrow> u32 \<Rightarrow> u32 list \<Rightarrow> u32 list res" where
  "or_digit log2_radix i c tab =
     (let bit_pos = i * log2_radix; shift = bit_pos mod 32; pos = bit_pos div 32
      in res_bind (or_limb tab pos (push_bit shift c)) (\<lambda>tab1.
           if shift + log2_radix > 32 then or_limb tab1 (pos + 1) (drop_bit (32 - shift) c) else Inr tab1))"

fun binary_loop :: "u32 \<Rightarrow> nat \<Rightarrow> u8 list \<Rightarrow> nat \<Rightarrow> u32 list \<Rightarrow> u32 list res" where
  "binary_loop radix log2_radix [] i tab = Inr tab"
| "binary_loop radix log2_radix (ch # p) i tab =
     (if js_to_digit ch < unat radix
      then res_bind (or_digit log2_radix i (of_nat (js_to_digit ch)) tab) (binary_loop radix log2_radix p (Suc i))
      else Inl AssertFailed)"

definition limbs_of_text :: "nat \<Rightarrow> u32 \<Rightarrow> nat \<Rightarrow> u8 list \<Rightarrow> u32 list res" where
  "limbs_of_text n_limbs radix log2_radix p =
     (if radix = 10
      then res_bind (decimal_loop n_limbs p [0]) (\<lambda>tab.
             if drop_bit 31 (tab ! (length tab - 1)) \<noteq> 0 then put_limb n_limbs tab 0 else Inr tab)
      else binary_loop radix log2_radix (rev p) 0 (replicate n_limbs 0))"

definition js_bigint_from_string :: "limb_alloc \<Rightarrow> u8 list \<Rightarrow> u32 \<Rightarrow> JSBigInt big res" where
  "js_bigint_from_string alloc str radix =
     (let is_neg = (str \<noteq> [] \<and> hd str = 45);
          p = dropWhile (\<lambda>c. c = 48) (if is_neg then tl str else str);
          n_digits = length p
      in if n_digits > JS_BIGINT_MAX_SIZE * 32 then Inr (Inl TooLargeToAllocate)
         else
           let log2_radix = 32 - clz32 (radix - 1);
               n_bits = (if radix = 10 then (n_digits * 27 + 7) div 8 else n_digits * log2_radix);
               n_limbs = max 1 (n_bits div 32 + 1)
           in case js_bigint_new alloc n_limbs of Inl e \<Rightarrow> Inr (Inl e) | Inr _ \<Rightarrow>
                res_bind (limbs_of_text n_limbs radix log2_radix p) (\<lambda>tab.
                  let r = js_bigint_normalize tab
                  in Inr (if is_neg then js_bigint_neg alloc r else Inr r)))"

section \<open>Values of digit strings\<close>

lemma digits_value_append: "digits_value b (xs @ ys) = digits_value b xs * b ^ length ys + digits_value b ys"
proof (induction ys rule: rev_induct)
  case (snoc y ys)
  then show ?case by (simp add: algebra_simps flip: append_assoc)
qed simp

lemma digits_value_bound: "0 < b \<Longrightarrow> (\<forall>d \<in> set ds. d < b) \<Longrightarrow> digits_value b ds < b ^ length ds"
proof (induction ds rule: rev_induct)
  case (snoc d ds)
  then have "digits_value b ds + 1 \<le> b ^ length ds" by simp
  then have "(digits_value b ds + 1) * b \<le> b ^ length ds * b" by (rule mult_le_mono1)
  then show ?case using snoc.prems by (simp add: algebra_simps)
qed simp

definition text_value :: "nat \<Rightarrow> u8 list \<Rightarrow> nat" where
  "text_value b p = digits_value b (map js_to_digit p)"

definition digits_in :: "nat \<Rightarrow> u8 list \<Rightarrow> bool" where
  "digits_in b p \<longleftrightarrow> (\<forall>c \<in> set p. js_to_digit c < b)"

lemma text_value_append: "text_value b (p @ q) = text_value b p * b ^ length q + text_value b q"
  by (simp add: text_value_def digits_value_append)

lemma text_value_nil [simp]: "text_value b [] = 0"
  by (simp add: text_value_def)

lemma text_value_Cons: "text_value b (c # p) = js_to_digit c * b ^ length p + text_value b p"
  using text_value_append [of b "[c]" p] digits_value_snoc [of b "[]" "js_to_digit c"] by (simp add: text_value_def)

lemma text_value_bound: "0 < b \<Longrightarrow> digits_in b p \<Longrightarrow> text_value b p < b ^ length p"
  unfolding text_value_def digits_in_def using digits_value_bound [of b "map js_to_digit p"] by simp

lemma digits_in_simps [simp]: "digits_in b []" "digits_in b (c # p) \<longleftrightarrow> js_to_digit c < b \<and> digits_in b p"
  "digits_in b (p @ q) \<longleftrightarrow> digits_in b p \<and> digits_in b q" "digits_in b (rev p) \<longleftrightarrow> digits_in b p"
  by (auto simp: digits_in_def)

lemma limb_digits_spec:
  assumes "digits_in 10 p" "(unat v + 1) * 10 ^ k \<le> 10 ^ 9" "limb_digits k p v i = (v1, i1, p1)"
  shows "i1 = i + min k (length p) \<and> p1 = drop k p \<and> unat v1 = unat v * 10 ^ (i1 - i) + text_value 10 (take k p)"
  using assms
proof (induction k p v i rule: limb_digits.induct)
  case (1 k c p v i)
  have d: "js_to_digit c < 10" using 1 by simp
  define w where "w = v * 10 + of_nat (js_to_digit c)"
  have s: "(unat v + 1) * 10 * 10 ^ k \<le> 10 ^ 9" using "1.prems"(2) by (simp add: algebra_simps)
  then have "(unat v + 1) * 10 * 1 \<le> 10 ^ 9" by (meson le_trans mult_le_mono2 one_le_numeral one_le_power)
  then have w: "unat w = unat v * 10 + js_to_digit c"
    using d by (simp add: w_def unat_word_ariths unat_of_nat)
  have "unat w + 1 \<le> (unat v + 1) * 10" using w d by simp
  then have "(unat w + 1) * 10 ^ k \<le> 10 ^ 9" using s by (meson le_trans mult_le_mono1)
  moreover have "limb_digits k p w (Suc i) = (v1, i1, p1)" using "1.prems"(3) d by (simp add: w_def)
  ultimately have "i1 = Suc i + min k (length p) \<and> p1 = drop k p \<and> unat v1 = unat w * 10 ^ (i1 - Suc i) + text_value 10 (take k p)"
    using 1 d by (simp add: w_def)
  then show ?case using w by (simp add: text_value_Cons algebra_simps min_def)
qed (auto simp: min_def)

lemma pow_dec: "i \<le> 9 \<Longrightarrow> uint (js_pow_dec ! i) = 10 ^ i"
proof -
  have "\<forall>i \<in> set [0..<10]. uint (js_pow_dec ! i) = 10 ^ i" by (simp add: js_pow_dec_def upt_rec)
  then show "i \<le> 9 \<Longrightarrow> ?thesis" by simp
qed

lemma limb_count: "lval r + LB ^ length r * uint (h :: u32) < LB ^ n \<Longrightarrow> h \<noteq> 0 \<Longrightarrow> length r < n"
proof -
  assume v: "lval r + LB ^ length r * uint (h :: u32) < LB ^ n" and "h \<noteq> 0"
  then have "uint h \<noteq> 0" by (simp add: uint_0_iff)
  then have "LB ^ length r * 1 \<le> LB ^ length r * uint h" using uint_pos [of h] by (intro mult_left_mono) simp_all
  then have "LB ^ length r < LB ^ n" using v lval_bounds(1) [of r] by linarith
  then show ?thesis by (rule power_less_imp_less_exp [rotated]) simp
qed

lemma add_digits_spec:
  assumes "tab \<noteq> []" "i \<le> 9" "lval tab * 10 ^ i + uint v < LB ^ n"
  shows "\<exists>r. add_digits n tab v i = Inr r \<and> r \<noteq> [] \<and> lval r = lval tab * 10 ^ i + uint v"
proof (cases "length tab = 1 \<and> tab ! 0 = 0")
  case True
  then have "tab = [0]" by (cases tab) auto
  then show ?thesis by (simp add: add_digits_def)
next
  case False
  obtain r h where r: "js_mp_mul1 tab (js_pow_dec ! i) v = (r, h)" by fastforce
  have e: "lval r + LB ^ length r * uint h = lval tab * 10 ^ i + uint v" "length r = length tab"
    using js_mp_mul1_spec [OF r] pow_dec [OF assms(2)] by simp_all
  show ?thesis
  proof (cases "h = 0")
    case True
    then show ?thesis using False r e assms(1) by (auto simp: add_digits_def)
  next
    case h: False
    then have "length r < n" using limb_count [of r h n] e assms(3) by simp
    then show ?thesis using False r e h by (auto simp: add_digits_def put_limb_def lval_append)
  qed
qed

lemma decimal_loop_spec:
  assumes "tab \<noteq> []" "digits_in 10 p" "lval tab * 10 ^ length p + int (text_value 10 p) < LB ^ n"
  shows "\<exists>r. decimal_loop n p tab = Inr r \<and> r \<noteq> [] \<and> lval r = lval tab * 10 ^ length p + int (text_value 10 p)"
  using assms
proof (induction n p tab rule: decimal_loop.induct)
  case (1 n p tab)
  obtain v i p1 where l: "limb_digits 9 p 0 0 = (v, i, p1)" by (metis prod_cases3)
  define q where "q = take 9 p"
  have d: "i = length q" "p1 = drop 9 p" "unat v = text_value 10 q"
    using limb_digits_spec [OF "1.prems"(2) _ l] by (simp_all add: q_def min_def)
  have p: "p = q @ p1" by (simp add: q_def d(2))
  have V: "lval tab * 10 ^ length p + int (text_value 10 p) = (lval tab * 10 ^ i + uint v) * 10 ^ length p1 + int (text_value 10 p1)"
    unfolding p text_value_append using d(1,3) by (simp add: algebra_simps power_add flip: d(3))
  show ?case
  proof (cases "i = 0")
    case True
    then have "p = []" using d(1) by (cases p) (simp_all add: q_def)
    then show ?thesis using "1.prems"(1) by (simp add: decimal_loop.simps [of n "[]" tab])
  next
    case False
    define w where "w = lval tab * 10 ^ i + uint v"
    have "w * 1 \<le> w * 10 ^ length p1"
      unfolding w_def using lval_bounds(1) [of tab] uint_limb(1) [of v] by (intro mult_left_mono) simp_all
    then have "w < LB ^ n" using "1.prems"(3) V [folded w_def] of_nat_0_le_iff [of "text_value 10 p1"] by simp
    then have "lval tab * 10 ^ i + uint v < LB ^ n" by (simp only: w_def)
    then obtain r where r: "add_digits n tab v i = Inr r" "r \<noteq> []" "lval r = lval tab * 10 ^ i + uint v"
      using add_digits_spec [OF "1.prems"(1), of i v n] d(1) by (auto simp: q_def)
    then show ?thesis using "1.IH" [OF l [symmetric] refl False r(1) r(2)] "1.prems"(2,3) V l False
      by (simp add: decimal_loop.simps [of n p tab] r(3)) (simp add: p)
  qed
qed

text \<open>The estimate of the number of bits of a decimal number of \<open>n\<close> digits.\<close>

lemma decimal_bits: "10 ^ n \<le> (2 :: nat) ^ ((n * 27 + 7) div 8)"
proof -
  define q r where "q = n div 8" and "r = n mod 8"
  have n: "n = 8 * q + r" "r < 8" by (simp_all add: q_def r_def)
  have b: "(n * 27 + 7) div 8 = 27 * q + (r * 27 + 7) div 8" unfolding n(1) by (simp add: algebra_simps)
  have "10 ^ r \<le> (2 :: nat) ^ ((r * 27 + 7) div 8)"
  proof -
    have "\<forall>r \<in> set [0..<8]. 10 ^ r \<le> (2 :: nat) ^ ((r * 27 + 7) div 8)" by (simp add: upt_rec)
    then show ?thesis using n(2) by simp
  qed
  moreover have "(10 ^ 8) ^ q \<le> ((2 :: nat) ^ 27) ^ q" by (rule power_mono) simp_all
  ultimately have "(10 ^ 8) ^ q * 10 ^ r \<le> (2 ^ 27) ^ q * (2 :: nat) ^ ((r * 27 + 7) div 8)" by (intro mult_le_mono)
  then show ?thesis unfolding b by (simp only: n(1) power_add power_mult)
qed

lemma bits_limbs: "(2 :: int) ^ b * 2 \<le> LB ^ (b div 32 + 1)"
proof -
  have "b + 1 \<le> 32 * (b div 32 + 1)" by simp
  then have "(2 :: int) ^ (b + 1) \<le> 2 ^ (32 * (b div 32 + 1))" by (intro power_increasing) simp_all
  then show ?thesis unfolding power_mult by simp
qed

lemma sign_small: "tab \<noteq> [] \<Longrightarrow> 2 * lval tab < LB ^ length tab \<Longrightarrow> sval tab = lval tab"
  using lval_sign [of tab] by (simp add: sval_def)

lemma decimal_limbs:
  assumes "digits_in 10 p" "n = (length p * 27 + 7) div 8 div 32 + 1"
  shows "\<exists>r. limbs_of_text n 10 l p = Inr r \<and> r \<noteq> [] \<and> sval r = int (text_value 10 p)
    \<and> 2 * int (text_value 10 p) < LB ^ n"
proof -
  define b where "b = (length p * 27 + 7) div 8"
  have "text_value 10 p < 2 ^ b"
    unfolding b_def using text_value_bound [OF _ assms(1)] decimal_bits [of "length p"] by (meson less_le_trans zero_less_numeral)
  then have "int (text_value 10 p) < 2 ^ b" by (metis of_nat_less_iff of_nat_numeral of_nat_power)
  moreover have "(2 :: int) ^ b * 2 \<le> LB ^ n" unfolding assms(2) b_def by (rule bits_limbs)
  ultimately have V: "2 * int (text_value 10 p) < LB ^ n" by linarith
  obtain tab where t: "decimal_loop n p [0] = Inr tab" "tab \<noteq> []" "lval tab = int (text_value 10 p)"
  proof -
    have z: "lval [0] * 10 ^ length p + int (text_value 10 p) = int (text_value 10 p)" by simp
    have "int (text_value 10 p) < LB ^ n" using V by linarith
    then show ?thesis using decimal_loop_spec [of "[0]" p n, unfolded z] assms(1) that by blast
  qed
  show ?thesis
  proof (cases "js_bigint_sign tab")
    case True
    then have "LB ^ length tab < LB ^ n" using lval_sign [OF t(2)] V t(3) by linarith
    then have "length tab < n" by (rule power_less_imp_less_exp [rotated]) simp
    moreover have "sval (tab @ [0]) = lval tab" by (simp add: sval_snoc)
    ultimately show ?thesis using t True V by (auto simp: limbs_of_text_def put_limb_def js_bigint_sign_def)
  next
    case False
    then show ?thesis using t V by (auto simp: limbs_of_text_def js_bigint_sign_def sval_def)
  qed
qed

section \<open>Digits as bits\<close>

lemma bit_lval: "bit (lval xs) j \<longleftrightarrow> j div 32 < length xs \<and> bit (xs ! (j div 32)) (j mod 32)"
proof (induction xs arbitrary: j)
  case (Cons x xs)
  show ?case
  proof (cases "j < 32")
    case False
    then have "j div 32 = Suc ((j - 32) div 32)" "(j - 32) mod 32 = j mod 32" using le_div_geq [of 32 j] le_mod_geq [of 32 j] by simp_all
    then show ?thesis using Cons [of "j - 32"] False by (simp add: bit_cons)
  qed (simp add: bit_cons)
qed simp

lemma bit_or_limb:
  assumes "or_limb tab pos v = Inr tab1"
  shows "bit (lval tab1) j \<longleftrightarrow> bit (lval tab) j \<or> j div 32 = pos \<and> bit v (j mod 32)" "length tab1 = length tab" "pos < length tab"
  using assms by (auto simp: or_limb_def bit_lval bit_or_iff nth_list_update split: if_splits)

lemma or_disjoint: "(\<And>j. \<not> (bit a j \<and> bit b j)) \<Longrightarrow> (a :: int) OR b = a + b"
  by (rule disjunctive_add [symmetric]) blast

lemma or_digit_spec:
  assumes "uint c < 2 ^ b" "b < 32" "lval tab < 2 ^ (i * b)" "Suc i * b \<le> 32 * length tab" "0 < b"
  shows "\<exists>tab1. or_digit b i c tab = Inr tab1 \<and> length tab1 = length tab \<and> lval tab1 = lval tab + uint c * 2 ^ (i * b)"
proof -
  define P where "P = i * b"
  define s pos where "s = P mod 32" and "pos = P div 32"
  have P: "P = 32 * pos + s" "s < 32" by (simp_all add: s_def pos_def)
  have len: "P + b \<le> 32 * length tab" using assms(4) by (simp add: P_def algebra_simps)
  have cb: "k < b" if "bit c k" for k
  proof (rule ccontr)
    assume "\<not> k < b"
    moreover have "take_bit b (uint c) = uint c" using assms(1) by (simp add: take_bit_int_eq_self)
    ultimately show False using that by (metis bit_take_bit_iff bit_uint_iff bit_imp_le_length)
  qed
  define t1 where "t1 = tab[pos := tab ! pos OR push_bit s c]"
  have "pos < length tab" using P(1) len assms(5) by linarith
  then have o1: "or_limb tab pos (push_bit s c) = Inr t1" by (simp add: or_limb_def t1_def)
  obtain t2 where t2: "or_digit b i c tab = Inr t2" "length t2 = length tab"
      "\<And>j. bit (lval t2) j \<longleftrightarrow> bit (lval t1) j \<or> 32 < s + b \<and> j div 32 = pos + 1 \<and> bit (drop_bit (32 - s) c) (j mod 32)"
  proof (cases "32 < s + b")
    case True
    then have "pos + 1 < length tab" using P(1) len by linarith
    then have "or_limb t1 (pos + 1) (drop_bit (32 - s) c) = Inr (t1[pos + 1 := t1 ! (pos + 1) OR drop_bit (32 - s) c])"
      by (simp add: or_limb_def t1_def)
    note o2 = this bit_or_limb [OF this]
    then show ?thesis using that o1 True unfolding or_digit_def Let_def P_def [symmetric] s_def [symmetric] pos_def [symmetric]
      by (simp add: t1_def)
  next
    case False
    then show ?thesis using that o1 bit_or_limb(2) [OF o1] unfolding or_digit_def Let_def P_def [symmetric] s_def [symmetric] pos_def [symmetric]
      by simp
  qed
  have "bit (lval t2) j \<longleftrightarrow> bit (lval tab OR uint c * 2 ^ P) j" for j
  proof -
    have "bit (uint c * 2 ^ P) j \<longleftrightarrow> P \<le> j \<and> bit c (j - P)"
      by (auto simp: push_bit_eq_mult [symmetric] bit_push_bit_iff bit_uint_iff dest: bit_imp_le_length)
    moreover have "P \<le> j \<and> bit c (j - P) \<longleftrightarrow>
        j div 32 = pos \<and> bit (push_bit s c) (j mod 32) \<or> 32 < s + b \<and> j div 32 = pos + 1 \<and> bit (drop_bit (32 - s) c) (j mod 32)"
      (is "?l \<longleftrightarrow> ?r")
    proof -
      define u w where "u = j div 32" and "w = j mod 32"
      have j: "j = 32 * u + w" "w < 32" by (simp_all add: u_def w_def)
      have "u = pos \<and> s \<le> w \<or> u = pos + 1 \<and> 32 < s + b" if ?l
      proof -
        have q: "32 * pos + s \<le> 32 * u + w" "32 * u + w < 32 * pos + s + b" using that cb [of "j - P"] j(1) P(1) by auto
        have "pos < u + 1" "u < pos + 2" using q j(2) P(2) assms(2) by linarith+
        then consider "u = pos" | "u = pos + 1" by linarith
        then show ?thesis using q j(2) by cases simp_all
      qed
      moreover have "u = pos \<Longrightarrow> s \<le> w \<Longrightarrow> P \<le> j \<and> j - P = w - s" using j P by simp
      moreover have "u = pos + 1 \<Longrightarrow> P \<le> j \<and> j - P = 32 - s + w" using j P by simp
      ultimately show ?thesis using j(2) P(2) unfolding u_def [symmetric] w_def [symmetric]
        by (auto simp: bit_push_bit_iff bit_drop_bit_eq)
    qed
    ultimately show ?thesis using t2(3) [of j] bit_or_limb(1) [OF o1, of j] by (auto simp: bit_or_iff)
  qed
  then have "lval t2 = lval tab OR uint c * 2 ^ P" by (rule bit_eqI)
  also have "\<dots> = lval tab + uint c * 2 ^ P"
  proof (rule or_disjoint)
    fix j
    have "take_bit P (lval tab) = lval tab" using assms(3) lval_bounds(1) [of tab] by (simp add: P_def take_bit_int_eq_self)
    then have "bit (lval tab) j \<Longrightarrow> j < P" by (metis bit_take_bit_iff)
    then show "\<not> (bit (lval tab) j \<and> bit (uint c * 2 ^ P) j)" by (auto simp: push_bit_eq_mult [symmetric] bit_push_bit_iff)
  qed
  finally show ?thesis using t2 by (auto simp: P_def)
qed

lemma text_value_rev_Cons: "text_value r (rev (c # q)) = text_value r (rev q) * r + js_to_digit c"
  by (simp add: text_value_def)

lemma binary_loop_spec:
  assumes "unat radix = 2 ^ b" "0 < b" "b < 32"
    "digits_in (2 ^ b) q" "lval tab < 2 ^ (i * b)" "(i + length q) * b \<le> 32 * length tab"
  shows "\<exists>r. binary_loop radix b q i tab = Inr r \<and> length r = length tab
    \<and> lval r = lval tab + 2 ^ (i * b) * int (text_value (2 ^ b) (rev q))"
  using assms(4-6)
proof (induction q arbitrary: i tab)
  case (Cons ch q)
  define c :: u32 where "c = of_nat (js_to_digit ch)"
  have d: "js_to_digit ch < 2 ^ b" using Cons.prems(1) by simp
  have "(2 :: nat) ^ b < 2 ^ 32" using assms(3) by (intro power_strict_increasing) simp_all
  then have "unat c = js_to_digit ch" using d by (simp add: c_def unat_of_nat)
  then have c: "uint c = int (js_to_digit ch)" by (simp add: uint_nat)
  then have c2: "uint c < 2 ^ b" using d by (metis of_nat_less_iff of_nat_numeral of_nat_power)
  have "Suc i * b \<le> (i + length (ch # q)) * b" by (intro mult_le_mono1) simp
  then have "Suc i * b \<le> 32 * length tab" using Cons.prems(3) by linarith
  then obtain t where t: "or_digit b i c tab = Inr t" "length t = length tab" "lval t = lval tab + uint c * 2 ^ (i * b)"
    using or_digit_spec [OF c2 assms(3) Cons.prems(2) _ assms(2)] by blast
  have "(uint c + 1) * 2 ^ (i * b) \<le> 2 ^ b * 2 ^ (i * b)" using c2 by (intro mult_right_mono) simp_all
  then have "lval t < 2 ^ (Suc i * b)" using t(3) Cons.prems(2) by (simp add: power_add algebra_simps)
  then obtain r where "binary_loop radix b q (Suc i) t = Inr r" "length r = length tab"
      "lval r = lval t + 2 ^ (Suc i * b) * int (text_value (2 ^ b) (rev q))"
    using Cons.IH [of t "Suc i"] Cons.prems(1,3) t(2) by auto
  then show ?case using t(1,3) d assms(1) c
    by (simp add: c_def text_value_rev_Cons power_add algebra_simps del: rev.simps)
qed simp

definition from_radix :: "u32 \<Rightarrow> bool" where
  "from_radix radix \<longleftrightarrow> radix = 2 \<or> radix = 8 \<or> radix = 10 \<or> radix = 16"

text \<open>The number of limbs the reader reserves for a text of \<open>k\<close> digits.\<close>

definition text_limbs :: "u32 \<Rightarrow> nat \<Rightarrow> nat" where
  "text_limbs radix k = (if radix = 10 then (k * 27 + 7) div 8 else k * (32 - clz32 (radix - 1))) div 32 + 1"

lemma radix_bits:
  assumes "from_radix radix" "radix \<noteq> 10"
  shows "unat radix = 2 ^ (32 - clz32 (radix - 1))" "0 < 32 - clz32 (radix - 1)" "32 - clz32 (radix - 1) < 32"
proof -
  have c: "clz32 1 = 31" "clz32 7 = 29" "clz32 15 = 28" by code_simp+
  show "unat radix = 2 ^ (32 - clz32 (radix - 1))" "0 < 32 - clz32 (radix - 1)" "32 - clz32 (radix - 1) < 32"
    using assms c by (auto simp: from_radix_def)
qed

lemma limbs_of_text_spec:
  assumes "from_radix radix" "digits_in (unat radix) p" "n = text_limbs radix (length p)"
  shows "\<exists>r. limbs_of_text n radix (32 - clz32 (radix - 1)) p = Inr r \<and> r \<noteq> [] \<and> sval r = int (text_value (unat radix) p)
    \<and> 2 * int (text_value (unat radix) p) < LB ^ n"
proof (cases "radix = 10")
  case True
  then show ?thesis using decimal_limbs [of p n] assms(2,3) by (simp add: text_limbs_def)
next
  case False
  define b where "b = 32 - clz32 (radix - 1)"
  note r = radix_bits [OF assms(1) False, folded b_def]
  have n: "n = length p * b div 32 + 1" using assms(3) False by (simp add: text_limbs_def b_def)
  then have "length p * b \<le> 32 * n" by simp
  moreover have z: "lval (replicate n 0) = 0" by (rule lval_zeros)
  ultimately obtain t where t: "binary_loop radix b (rev p) 0 (replicate n 0) = Inr t" "length t = n"
      "lval t = int (text_value (2 ^ b) p)"
    using binary_loop_spec [OF r, of "rev p" "replicate n 0" 0] assms(2) r(1) by auto
  have "text_value (2 ^ b) p < (2 ^ b) ^ length p" using text_value_bound [of "2 ^ b" p] assms(2) r(1) by simp
  then have "int (text_value (2 ^ b) p) < 2 ^ (length p * b)"
    by (metis of_nat_less_iff of_nat_numeral of_nat_power power_mult mult.commute)
  moreover have "(2 :: int) ^ (length p * b) * 2 \<le> LB ^ n" unfolding n by (rule bits_limbs)
  ultimately have V: "2 * lval t < LB ^ n" using t(3) by linarith
  moreover have "t \<noteq> []" using t(2) n by auto
  ultimately show ?thesis using t sign_small [of t] False r(1) by (simp add: limbs_of_text_def b_def)
qed

section \<open>The reader\<close>

lemma yields_mono: "yields alloc m v r \<Longrightarrow> m \<le> n \<Longrightarrow> yields alloc n v r"
  by (cases r) (auto simp: yields_def)

lemma normal_length:
  assumes "normal x" "2 * \<bar>sval x\<bar> < LB ^ n" "0 < n"
  shows "length x \<le> n"
proof (cases "sval x = 0")
  case True
  then show ?thesis using normal_zero [OF assms(1)] assms(3) by simp
next
  case False
  then have "LB ^ (length x - 1) < LB ^ n" using normal_big [OF assms(1)] assms(2) by linarith
  then have "length x - 1 < n" by (rule power_less_imp_less_exp [rotated]) simp
  then show ?thesis by simp
qed

lemma minus_no_digit [simp]: "js_to_digit 45 = 36" and zero_digit [simp]: "js_to_digit 48 = 0"
  by (simp_all add: js_to_digit_def)

lemma text_value_zeros: "text_value b (dropWhile (\<lambda>c. c = 48) p) = text_value b p"
  by (induction p) (simp_all add: text_value_Cons)

lemma digits_in_drop: "digits_in b p \<Longrightarrow> digits_in b (dropWhile P p)"
  by (auto simp: digits_in_def dest: set_dropWhileD)

definition significant :: "u8 list \<Rightarrow> nat" where
  "significant p = length (dropWhile (\<lambda>c. c = 48) p)"

definition signed_text_of :: "bool \<Rightarrow> u8 list \<Rightarrow> u8 list" where
  "signed_text_of neg p = (if neg then [45] else []) @ p"

lemma text_limbs_many: "from_radix radix \<Longrightarrow> k > JS_BIGINT_MAX_SIZE * 32 \<Longrightarrow> text_limbs radix k > JS_BIGINT_MAX_SIZE"
proof -
  assume r: "from_radix radix" and k: "k > JS_BIGINT_MAX_SIZE * 32"
  have "k \<le> (if radix = 10 then (k * 27 + 7) div 8 else k * (32 - clz32 (radix - 1)))"
    using radix_bits(2) [OF r] by (cases "radix = 10") (simp_all add: mult_le_mono2 [of 1, simplified])
  then have "k div 32 \<le> (if radix = 10 then (k * 27 + 7) div 8 else k * (32 - clz32 (radix - 1))) div 32" by (rule div_le_mono)
  moreover have "JS_BIGINT_MAX_SIZE \<le> k div 32" using k by simp
  ultimately show ?thesis unfolding text_limbs_def by linarith
qed

lemma from_string_spec:
  assumes "from_radix radix" "digits_in (unat radix) p"
  shows "\<exists>r. js_bigint_from_string alloc (signed_text_of neg p) radix = Inr r \<and>
    yields alloc (text_limbs radix (significant p))
      (if neg then - int (text_value (unat radix) p) else int (text_value (unat radix) p)) r"
proof -
  define q where "q = dropWhile (\<lambda>c. c = 48) p"
  define n where "n = text_limbs radix (length q)"
  define V where "V = int (text_value (unat radix) p)"
  have q: "digits_in (unat radix) q" "text_value (unat radix) q = text_value (unat radix) p"
    using digits_in_drop [OF assms(2)] by (simp_all add: q_def text_value_zeros)
  have "\<not> (p \<noteq> [] \<and> hd p = 45)"
  proof
    assume "p \<noteq> [] \<and> hd p = 45"
    then have "js_to_digit 45 < unat radix" using assms(2) by (cases p) simp_all
    then show False using assms(1) by (auto simp: from_radix_def)
  qed
  then have s: "(signed_text_of neg p \<noteq> [] \<and> hd (signed_text_of neg p) = 45) \<longleftrightarrow> neg"
      "(if neg then tl (signed_text_of neg p) else signed_text_of neg p) = p"
    by (auto simp: signed_text_of_def)
  have n0: "n = max 1 ((if radix = 10 then (length q * 27 + 7) div 8 else length q * (32 - clz32 (radix - 1))) div 32 + 1)"
    by (simp add: n_def text_limbs_def)
  have E: "js_bigint_from_string alloc (signed_text_of neg p) radix =
    (if length q > JS_BIGINT_MAX_SIZE * 32 then Inr (Inl TooLargeToAllocate)
     else case js_bigint_new alloc n of Inl e \<Rightarrow> Inr (Inl e) | Inr _ \<Rightarrow>
       res_bind (limbs_of_text n radix (32 - clz32 (radix - 1)) q) (\<lambda>tab.
         Inr (if neg then js_bigint_neg alloc (js_bigint_normalize tab) else Inr (js_bigint_normalize tab))))"
    unfolding js_bigint_from_string_def Let_def s q_def [symmetric] n0 [symmetric] by (rule refl)
  show ?thesis
  proof (cases "length q > JS_BIGINT_MAX_SIZE * 32")
    case True
    then show ?thesis using E text_limbs_many [OF assms(1) True] by (simp add: yields_def significant_def q_def)
  next
    case False
    obtain t where t: "limbs_of_text n radix (32 - clz32 (radix - 1)) q = Inr t" "t \<noteq> []" "sval t = V" "2 * V < LB ^ n"
      using limbs_of_text_spec [OF assms(1) q(1) n_def] q(2) by (auto simp: V_def)
    define x where "x = js_bigint_normalize t"
    have x: "normal x" "sval x = V" using normalize_spec [OF t(2)] t(3) by (simp_all add: x_def)
    have "length x \<le> n" using normal_length [OF x(1), of n] x(2) t(4) by (simp add: n0 V_def)
    then have "yields alloc n (- V) (js_bigint_neg alloc x)"
      using js_bigint_neg_spec [OF normal_nonempty [OF x(1)], of alloc] x(2) yields_mono by simp
    then have y: "yields alloc n (if neg then - V else V) (if neg then js_bigint_neg alloc x else Inr x)"
      using x by (simp add: yields_Inr)
    have "yields alloc n (if neg then - V else V) (big_bind (js_bigint_new alloc n) (\<lambda>_. if neg then js_bigint_neg alloc x else Inr x))"
      by (rule yields_new) (use y in simp_all)
    moreover have "js_bigint_from_string alloc (signed_text_of neg p) radix =
        Inr (big_bind (js_bigint_new alloc n) (\<lambda>_. if neg then js_bigint_neg alloc x else Inr x))"
      unfolding E using False t(1) by (cases "js_bigint_new alloc n") (simp_all add: big_bind_def x_def)
    ultimately show ?thesis unfolding significant_def q_def [symmetric] n_def [symmetric] V_def [symmetric] by blast
  qed
qed



text \<open>
  The limbs reserved for decimal digits are an over-estimate, and it is the estimate that is compared
  with the limit: a text of 312000 digits is refused although its value fits into 32500 limbs.
\<close>

lemma decimal_estimate_rejects:
  assumes "digits_in 10 p" "length p = k" "k = 312000" "hd p \<noteq> 48" "m = 32500"
  shows "js_bigint_from_string alloc p 10 = Inr (Inl TooLargeToAllocate)" "text_value 10 p < 2 ^ (32 * m)"
proof -
  have p: "p \<noteq> []" using assms(2,3) by auto
  then have "js_to_digit (hd p) < 10" using assms(1) by (cases p) simp_all
  then have h: "hd p \<noteq> 45" by auto
  have d: "dropWhile (\<lambda>c. c = 48) p = p" using assms(4) p by (cases p) simp_all
  have n: "(k * 27 + 7) div 8 = 1053000" "\<not> JS_BIGINT_MAX_SIZE * 32 < k" using assms(3) by simp_all
  have "js_bigint_new alloc (max 1 (1053000 div 32 + 1)) = Inl TooLargeToAllocate" by (simp add: js_bigint_new_def)
  then show "js_bigint_from_string alloc p 10 = Inr (Inl TooLargeToAllocate)"
    using h d n by (simp add: js_bigint_from_string_def Let_def assms(2))
  obtain j where j: "j = (104000 :: nat)" by blast
  have l: "length p = 3 * j" using assms(2,3) j by simp
  have "text_value 10 p < 10 ^ length p" by (rule text_value_bound) (use assms(1) in simp_all)
  then have "text_value 10 p < 10 ^ (3 * j)" unfolding l .
  also have "\<dots> \<le> (2 ^ 10) ^ j" unfolding power_mult by (rule power_mono) simp_all
  also have "\<dots> \<le> 2 ^ (32 * m)" unfolding power_mult [symmetric] by (rule power_increasing) (simp_all add: j assms(5))
  finally show "text_value 10 p < 2 ^ (32 * m)" .
qed

end
