(* ===== verification/BigIntPrint.thy ===== *)
theory BigIntPrint
  imports BigIntRead
begin

text \<open>
  BigInts to text (\<open>src/quickjs.c\<close>, \<open>js_u64toa\<close>, \<open>js_limb_to_a\<close>, \<open>js_bigint_to_string1\<close>), and the round
  trip with the reader. The text is stored from the end of a buffer whose size is computed from the
  bits of the number; a store before its start is the fault \<open>BadPointer\<close>.
\<close>

section \<open>Writing\<close>

definition digits :: "u8 list" where
  "digits = [48, 49, 50, 51, 52, 53, 54, 55, 56, 57,
     97, 98, 99, 100, 101, 102, 103, 104, 105, 106, 107, 108, 109, 110, 111, 112, 113, 114, 115, 116, 117,
     118, 119, 120, 121, 122]"

text \<open>A buffer filled from its end: the number of free places in front and the text behind.\<close>

type_synonym back_buf = "nat \<times> u8 list"

fun put_back :: "u8 \<Rightarrow> back_buf \<Rightarrow> back_buf res" where
  "put_back c (Suc k, t) = Inr (k, c # t)"
| "put_back c (0, t) = Inl BadPointer"

definition radix_char :: "u64 \<Rightarrow> u64 \<Rightarrow> u8" where
  "radix_char base digit = (if base = 10 then 48 + ucast digit else digits ! unat digit)"

fun js_u64toa :: "u64 \<Rightarrow> u64 \<Rightarrow> nat \<Rightarrow> u8 list \<Rightarrow> back_buf res" where
  "js_u64toa base n 0 t = Inl BadPointer"
| "js_u64toa base n (Suc k) t =
     (let t1 = radix_char base (n mod base) # t; n1 = n div base
      in if n1 \<noteq> 0 then js_u64toa base n1 k t1 else Inr (k, t1))"

fun js_limb_to_a :: "u32 \<Rightarrow> u32 \<Rightarrow> nat \<Rightarrow> back_buf \<Rightarrow> back_buf res" where
  "js_limb_to_a radix n 0 q = Inr q"
| "js_limb_to_a radix n (Suc i) q =
     res_bind (put_back (radix_char (ucast radix) (ucast (n mod radix))) q) (js_limb_to_a radix (n div radix) i)"

definition js_digits_per_limb_table :: "nat list" where
  "js_digits_per_limb_table =
     [32, 20, 16, 13, 12, 11, 10, 10, 9, 9, 8, 8, 8, 8, 8, 7, 7, 7, 7, 7, 7, 7, 6, 6, 6, 6, 6, 6, 6, 6, 6, 6, 6, 6, 6]"

definition js_radix_base_table :: "u32 list" where
  "js_radix_base_table =
     [0x00000000, 0xcfd41b91, 0x00000000, 0x48c27395,
      0x81bf1000, 0x75db9c97, 0x40000000, 0xcfd41b91,
      0x3b9aca00, 0x8c8b6d2b, 0x19a10000, 0x309f1021,
      0x57f6c100, 0x98c29b81, 0x00000000, 0x18754571,
      0x247dbc80, 0x3547667b, 0x4c4b4000, 0x6b5a6e1d,
      0x94ace180, 0xcaf18367, 0x0b640000, 0x0e8d4a51,
      0x1269ae40, 0x17179149, 0x1cb91000, 0x23744899,
      0x2b73a840, 0x34e63b41, 0x40000000, 0x4cfa3cc1,
      0x5c13d840, 0x6d91b519, 0x81bf1000]"

text \<open>
  The loop for a radix that is no power of two. It has no bound in the code; every round but the
  last writes some digits, so the size of the buffer is fuel enough.
\<close>

fun divide_loop :: "nat \<Rightarrow> u32 \<Rightarrow> u32 list \<Rightarrow> back_buf \<Rightarrow> back_buf res" where
  "divide_loop 0 radix tab q = Inl LoopsForever"
| "divide_loop (Suc fuel) radix tab q =
     (let radix_base = js_radix_base_table ! (unat radix - 2);
          len = strip_len tab (length tab)
      in if len = 1 \<and> tab ! 0 < radix_base
         then
           let v = tab ! 0
           in if v \<noteq> 0 then js_u64toa (ucast radix) (ucast v) (fst q) (snd q) else Inr q
         else
           case js_mp_div1 (take len tab) radix_base 0 of (tab1, v) \<Rightarrow>
             res_bind (js_limb_to_a radix v (js_digits_per_limb_table ! (unat radix - 2)) q) (divide_loop fuel radix tab1))"

definition bit_digit :: "u32 \<Rightarrow> nat \<Rightarrow> u32 list \<Rightarrow> nat \<Rightarrow> u32 res" where
  "bit_digit radix log2_radix tab i =
     (let bit_pos = i * log2_radix; pos = bit_pos div 32; shift = bit_pos mod 32
      in if pos < length tab
         then
           let c = drop_bit shift (tab ! pos);
               c1 = (if shift + log2_radix > 32 \<and> pos + 1 < length tab then c OR push_bit (32 - shift) (tab ! (pos + 1)) else c)
           in Inr (c1 AND (radix - 1))
         else Inl BadPointer)"

fun bits_loop :: "u32 \<Rightarrow> nat \<Rightarrow> u32 list \<Rightarrow> nat \<Rightarrow> nat \<Rightarrow> back_buf \<Rightarrow> back_buf res" where
  "bits_loop radix log2_radix tab 0 i q = Inr q"
| "bits_loop radix log2_radix tab (Suc n) i q =
     res_bind (bit_digit radix log2_radix tab i) (\<lambda>c.
       res_bind (put_back (digits ! unat c) q) (bits_loop radix log2_radix tab n (Suc i)))"

datatype bigint_value = ShortBig u32 | HeapBig JSBigInt

text \<open>
  The magnitude to print: a negative number is negated, a positive one copied if the digits are
  taken from it by division. The predicate \<open>room\<close> tells whether the allocator grants that many bytes,
  and \<open>new_string\<close> whether a string of that many characters can be created.
\<close>

definition print_limbs :: "limb_alloc \<Rightarrow> JSBigInt \<Rightarrow> bool \<Rightarrow> JSBigInt big" where
  "print_limbs alloc r is_binary_radix =
     (if js_bigint_sign r then js_bigint_neg alloc r
      else if \<not> is_binary_radix then big_bind (js_bigint_new alloc (length r)) (\<lambda>_. Inr r)
      else Inr r)"

definition js_bigint_to_string1 ::
    "limb_alloc \<Rightarrow> (nat \<Rightarrow> bool) \<Rightarrow> (nat \<Rightarrow> bool) \<Rightarrow> bigint_value \<Rightarrow> u32 \<Rightarrow> u8 list big res" where
  "js_bigint_to_string1 alloc room new_string val radix =
     (let js_new_string8_len = (\<lambda>t. if new_string (length t) then Inr t else Inl NoMemory)
      in case val of
           ShortBig v \<Rightarrow> res_bind (i64toa_radix (scast v) radix) (\<lambda>t. Inr (js_new_string8_len t))
         | HeapBig r0 \<Rightarrow>
             if length r0 = 1 \<and> r0 ! 0 = 0 then Inr (js_new_string8_len [48])
             else
               let is_binary_radix = (radix AND (radix - 1) = 0); is_neg = js_bigint_sign r0
               in case print_limbs alloc r0 is_binary_radix of Inl e \<Rightarrow> Inr (Inl e) | Inr r \<Rightarrow>
                    let log2_radix = 31 - clz32 radix;
                        n_bits = length r * 32 - js_limb_clz (r ! (length r - 1));
                        n_digits = (n_bits + log2_radix - 1) div log2_radix;
                        size = n_digits + (if is_neg then 1 else 0)
                    in if \<not> room (size + 1) then Inr (Inl NoMemory)
                       else
                         res_bind (if \<not> is_binary_radix then divide_loop (size + 1) radix r (size, [])
                                   else bits_loop radix log2_radix r n_digits 0 (size, [])) (\<lambda>q.
                           res_bind (if is_neg then put_back 45 q else Inr q) (\<lambda>q1.
                             Inr (js_new_string8_len (snd q1)))))"

section \<open>Digits by division\<close>

lemma digits_table: "d < 36 \<Longrightarrow> digits ! d = digit_char d"
proof -
  have "\<forall>d \<in> set [0..<36]. digits ! d = digit_char d" by (simp add: digits_def digit_char_def upt_rec)
  then show "d < 36 \<Longrightarrow> ?thesis" by simp
qed

lemma radix_char_digit:
  assumes "unat d < unat base" "unat base \<le> 36"
  shows "radix_char base d = digit_char (unat d)"
proof (cases "base = 10")
  case True
  then have "unat d < 10" using assms(1) by simp
  then show ?thesis using True by (simp add: radix_char_def digit_ten add.commute)
next
  case False
  then show ?thesis using assms digits_table [of "unat d"] by (simp add: radix_char_def)
qed

lemma unat_widen: "unat (ucast (x :: u32) :: u64) = unat x"
  by (rule unat_ucast_fit) (use unat_u32_less [of x] in simp)

lemma js_u64toa_spec:
  assumes "2 \<le> unat base" "unat base \<le> 36"
  shows "length (digits_of (unat base) (unat n)) \<le> k \<Longrightarrow>
    js_u64toa base n k t = Inr (k - length (digits_of (unat base) (unat n)), map digit_char (digits_of (unat base) (unat n)) @ t)"
proof (induction k arbitrary: n t)
  case (Suc k)
  have u: "unat (n mod base) = unat n mod unat base" "unat (n div base) = unat n div unat base"
    by (simp_all add: unat_mod unat_div)
  have c: "radix_char base (n mod base) = digit_char (unat n mod unat base)"
    using radix_char_digit [of "n mod base" base] assms u(1) by simp
  have z: "n div base = 0 \<longleftrightarrow> unat n < unat base"
    using u(2) assms by (simp add: unat_eq_zero [symmetric] div_eq_0_iff del: unat_eq_zero)
  show ?case
  proof (cases "unat n < unat base")
    case True
    then show ?thesis using z c by (simp add: digits_small)
  next
    case False
    then show ?thesis using Suc.IH [of "n div base"] Suc.prems z c u(2) assms(1) by (simp add: Let_def digits_step)
  qed
qed simp

lemma js_limb_to_a_spec:
  assumes "2 \<le> unat radix" "unat radix \<le> 36"
  shows "len \<le> k \<Longrightarrow> js_limb_to_a radix n len (k, t) = Inr (k - len, map digit_char (fixed_digits (unat radix) (unat n) len) @ t)"
proof (induction len arbitrary: n k t)
  case (Suc len)
  have u: "unat (n mod radix) = unat n mod unat radix" "unat (n div radix) = unat n div unat radix"
    by (simp_all add: unat_mod unat_div)
  have c: "radix_char (ucast radix) (ucast (n mod radix)) = digit_char (unat n mod unat radix)"
    using radix_char_digit [of "ucast (n mod radix)" "ucast radix"] assms u(1) by (simp add: unat_widen)
  obtain k1 where "k = Suc k1" using Suc.prems by (cases k) auto
  then show ?case using Suc c u(2) by simp
qed simp

lemma radix_tables:
  assumes "radix AND (radix - 1) \<noteq> 0" "unat radix \<le> 36"
  shows "unat (js_radix_base_table ! (unat radix - 2)) = unat radix ^ (js_digits_per_limb_table ! (unat radix - 2))"
    "0 < js_digits_per_limb_table ! (unat radix - 2)" "3 \<le> unat radix"
proof -
  have all: "\<forall>r \<in> set [3..<37]. r \<in> {4, 8, 16, 32} \<or>
      unat (js_radix_base_table ! (r - 2)) = r ^ (js_digits_per_limb_table ! (r - 2)) \<and> 0 < js_digits_per_limb_table ! (r - 2)"
    by (simp add: js_radix_base_table_def js_digits_per_limb_table_def upt_rec)
  have "unat radix \<notin> {0, 1, 2, 4, 8, 16, 32}"
  proof
    have e: "unat radix = k \<Longrightarrow> radix = word_of_nat k" for k by (metis of_nat_unat ucast_id)
    assume "unat radix \<in> {0, 1, 2, 4, 8, 16, 32}"
    then have "radix = 0 \<or> radix = 1 \<or> radix = 2 \<or> radix = 4 \<or> radix = 8 \<or> radix = 16 \<or> radix = 32"
      using e [of 0] e [of 1] e [of 2] e [of 4] e [of 8] e [of 16] e [of 32] by auto
    then show False using assms(1) by auto
  qed
  then have r: "unat radix \<notin> {4, 8, 16, 32}" "unat radix \<noteq> 0" "unat radix \<noteq> 1" "unat radix \<noteq> 2" by simp_all
  show three: "3 \<le> unat radix" using r(2-) by linarith
  then have "unat radix \<in> set [3..<37]" unfolding set_upt atLeastLessThan_iff using assms(2) by linarith
  then show "unat (js_radix_base_table ! (unat radix - 2)) = unat radix ^ (js_digits_per_limb_table ! (unat radix - 2))"
    "0 < js_digits_per_limb_table ! (unat radix - 2)" using all r(1) by blast+
qed

lemma nat_lval_div:
  assumes "js_mp_div1 xs b 0 = (q, v)" "b \<noteq> 0"
  shows "nat (lval xs) = nat (lval q) * unat b + unat v" "unat v < unat b" "length q = length xs"
proof -
  have b: "uint (0 :: u32) < uint b" using assms(2) uint_pos [of b] by (simp add: uint_0_iff)
  note d = js_mp_div1_spec [OF assms(1) b]
  have "lval xs = lval q * uint b + uint v" using d by simp
  then have "int (nat (lval xs)) = int (nat (lval q) * unat b + unat v)" using lval_bounds(1) [of xs] lval_bounds(1) [of q] by simp
  then show "nat (lval xs) = nat (lval q) * unat b + unat v" by (simp only: of_nat_eq_iff)
  show "unat v < unat b" using d by (simp add: word_less_nat_alt [symmetric] word_less_def)
  show "length q = length xs" using d by simp
qed

lemma strip_big:
  assumes "tab \<noteq> []" "len = strip_len tab (length tab)" "len \<noteq> 1"
  shows "LB \<le> lval tab"
proof -
  note s = strip_len_spec [of "length tab" tab, folded assms(2)]
  have l: "0 < len" "len \<le> length tab" "lval (take len tab) = lval tab" "tab ! (len - 1) \<noteq> 0" using s assms(1,3) by auto
  then obtain m where m: "len = Suc (Suc m)" using assms(3) by (cases len; cases "len - 1") auto
  have "take len tab = take (Suc m) tab @ [tab ! Suc m]" using l(2) m by (simp add: take_Suc_conv_app_nth)
  define N p where "N = LB ^ Suc m" and "p = N * uint (tab ! Suc m)"
  have "lval tab = lval (take (Suc m) tab) + p"
    using l(2,3) m \<open>take len tab = _\<close> by (simp add: lval_append N_def p_def)
  moreover have "N * 1 \<le> p" unfolding p_def N_def
    using l(4) m uint_pos [of "tab ! Suc m"] by (intro mult_left_mono) (simp_all add: uint_0_iff)
  moreover have "LB ^ 1 \<le> N" unfolding N_def by (intro power_increasing) simp_all
  ultimately show ?thesis using lval_bounds(1) [of "take (Suc m) tab"] by simp
qed

lemma divide_loop_spec:
  assumes "radix AND (radix - 1) \<noteq> 0" "unat radix \<le> 36"
  defines "r \<equiv> unat radix" and "B \<equiv> unat (js_radix_base_table ! (unat radix - 2))"
  shows "tab \<noteq> [] \<Longrightarrow> lval tab \<noteq> 0 \<Longrightarrow> nat (lval tab) < B ^ fuel \<Longrightarrow> length (digits_of r (nat (lval tab))) \<le> k \<Longrightarrow>
    divide_loop fuel radix tab (k, t) =
      Inr (k - length (digits_of r (nat (lval tab))), map digit_char (digits_of r (nat (lval tab))) @ t)"
proof (induction fuel arbitrary: tab k t)
  case 0
  then show ?case using lval_bounds(1) [of tab] by simp
next
  case (Suc fuel)
  note T = radix_tables [OF assms(1,2), folded r_def B_def]
  define rb where "rb = js_radix_base_table ! (unat radix - 2)"
  define dp where "dp = js_digits_per_limb_table ! (unat radix - 2)"
  define len where "len = strip_len tab (length tab)"
  have s: "0 < len" "len \<le> length tab" "lval (take len tab) = lval tab"
    using strip_len_spec [of "length tab" tab, folded len_def] Suc.prems(1) by auto
  have r36: "2 \<le> r" "r \<le> 36" using T(3) assms(2) by (simp_all add: r_def)
  show ?case
  proof (cases "len = 1 \<and> tab ! 0 < rb")
    case True
    then have "lval tab = uint (tab ! 0)" using s(2,3) by (cases tab) (simp_all add: take_Suc_conv_app_nth)
    moreover have "unat (ucast (tab ! 0) :: u64) = unat (tab ! 0)" "unat (ucast radix :: u64) = r"
      by (simp_all add: unat_widen r_def)
    ultimately show ?thesis using True js_u64toa_spec [of "ucast radix" "ucast (tab ! 0)" k t] r36 Suc.prems(2,4)
      by (auto simp: Let_def len_def rb_def)
  next
    case False
    obtain q v where q: "js_mp_div1 (take len tab) rb 0 = (q, v)" by fastforce
    have "B \<noteq> 0" using T(1) r36 by simp
    then have "rb \<noteq> 0" by (auto simp: B_def rb_def)
    note d = nat_lval_div [OF q this, folded B_def rb_def] 
    have "B \<le> nat (lval tab)"
    proof (cases "len = 1")
      case True
      then have "lval tab = uint (tab ! 0)" using s(2,3) by (cases tab) (simp_all add: take_Suc_conv_app_nth)
      then show ?thesis using False True by (simp add: B_def rb_def word_less_nat_alt)
    next
      case False
      then have "LB \<le> lval tab" using strip_big [OF Suc.prems(1) len_def] by simp
      then show ?thesis using unat_u32_less [of rb] by (simp add: B_def rb_def)
    qed
    then have q0: "nat (lval q) \<noteq> 0" using d(1,2) s(3) by (intro notI) (simp add: B_def rb_def)
    have e: "nat (lval tab) = nat (lval q) * r ^ dp + unat v" "unat v < r ^ dp"
      using d(1,2) s(3) T(1) by (simp_all add: dp_def B_def rb_def r_def)
    have D: "digits_of r (nat (lval tab)) = digits_of r (nat (lval q)) @ fixed_digits r (unat v) dp"
      unfolding e(1) by (rule digits_append [OF r36(1) q0 e(2)])
    have "B = r ^ dp" using T(1) by (simp add: dp_def r_def)
    then have "nat (lval q) * B \<le> nat (lval tab)" using e(1) by simp
    then have "nat (lval q) * B < B ^ fuel * B" using Suc.prems(3) by (metis le_less_trans power_Suc2)
    then have "nat (lval q) < B ^ fuel" by simp
    moreover have "q \<noteq> []" "lval q \<noteq> 0" using q0 d(3) s(1,2) by auto
    moreover have "js_limb_to_a radix v dp (k, t) = Inr (k - dp, map digit_char (fixed_digits r (unat v) dp) @ t)"
      unfolding r_def by (rule js_limb_to_a_spec) (use r36 Suc.prems(4) D in \<open>simp_all add: r_def\<close>)
    moreover have "divide_loop (Suc fuel) radix tab (k, t) = res_bind (js_limb_to_a radix v dp (k, t)) (divide_loop fuel radix q)"
      unfolding divide_loop.simps Let_def len_def [symmetric] rb_def [symmetric] dp_def [symmetric] using False q by auto
    ultimately show ?thesis using D Suc.IH [of q "k - dp"] Suc.prems(4) by (simp add: add.commute [of dp])
  qed
qed

section \<open>Digits as bits of the limbs\<close>

lemma limb_index: "x < 32 \<Longrightarrow> (32 * a + x) div 32 = a" "x < 32 \<Longrightarrow> (32 * a + x) mod 32 = (x :: nat)"
  by simp_all

lemma bit_digit_spec:
  assumes "unat radix = 2 ^ b" "0 < b" "b < 32" "i * b < 32 * length tab"
  shows "\<exists>c. bit_digit radix b tab i = Inr c \<and> unat c = nat (lval tab) div (2 ^ b) ^ i mod 2 ^ b"
proof -
  define P where "P = i * b"
  define s pos where "s = P mod 32" and "pos = P div 32"
  have P: "P = 32 * pos + s" "s < 32" by (simp_all add: s_def pos_def)
  have pos: "pos < length tab" using assms(4) P by (simp add: P_def)
  define c0 where "c0 = drop_bit s (tab ! pos)"
  define c1 where "c1 = (if s + b > 32 \<and> pos + 1 < length tab then c0 OR push_bit (32 - s) (tab ! (pos + 1)) else c0)"
  have m: "radix - 1 = mask b"
  proof -
    have "radix = 2 ^ b" by (metis assms(1) of_nat_unat ucast_id of_nat_numeral of_nat_power)
    then show ?thesis by (simp add: mask_eq_exp_minus_1)
  qed
  have "bit (uint (c1 AND (radix - 1))) k \<longleftrightarrow> bit (take_bit b (drop_bit P (lval tab))) k" for k
  proof (cases "k < b")
    case True
    define u w where "u = (P + k) div 32" and "w = (P + k) mod 32"
    have uw: "P + k = 32 * u + w" "w < 32" by (simp_all add: u_def w_def)
    have "bit c1 k \<longleftrightarrow> u < length tab \<and> bit (tab ! u) w"
    proof (cases "s + k < 32")
      case True
      have e: "P + k = 32 * pos + (s + k)" using P(1) by simp
      have "u = pos" "w = s + k" unfolding u_def w_def e by (rule limb_index [OF True])+
      moreover have "\<not> bit (push_bit (32 - s) (tab ! (pos + 1))) k" using True by (auto simp: bit_push_bit_iff)
      ultimately show ?thesis using pos by (simp add: c1_def c0_def bit_or_iff bit_drop_bit_eq)
    next
      case False
      have e: "P + k = 32 * (pos + 1) + (s + k - 32)" "s + k - 32 < 32" using P False \<open>k < b\<close> assms(3) by auto
      have "u = pos + 1" "w = s + k - 32" unfolding u_def w_def e(1) by (rule limb_index [OF e(2)])+
      moreover have "\<not> bit c0 k" using False by (simp add: c0_def bit_drop_bit_eq) (use bit_imp_le_length in fastforce)
      moreover have "s + b > 32" "32 - s \<le> k" "k - (32 - s) = s + k - 32" using False \<open>k < b\<close> P(2) by linarith+
      ultimately show ?thesis using assms(3) \<open>k < b\<close> by (auto simp: c1_def bit_or_iff bit_push_bit_iff)
    qed
    then show ?thesis using True assms(3)
      by (simp add: bit_uint_iff m bit_and_iff bit_mask_iff bit_take_bit_iff bit_drop_bit_eq bit_lval u_def w_def)
  next
    case False
    then show ?thesis by (simp add: bit_uint_iff m bit_and_iff bit_mask_iff bit_take_bit_iff)
  qed
  then have "uint (c1 AND (radix - 1)) = take_bit b (drop_bit P (lval tab))" by (rule bit_eqI)
  then have "unat (c1 AND (radix - 1)) = nat (lval tab div 2 ^ P mod 2 ^ b)"
    by (simp add: unat_eq_nat_uint take_bit_eq_mod drop_bit_eq_div)
  also have "\<dots> = nat (lval tab) div (2 ^ b) ^ i mod 2 ^ b"
    using lval_bounds(1) [of tab] by (simp add: nat_mod_distrib nat_div_distrib P_def power_mult [symmetric] mult.commute nat_power_eq pos_imp_zdiv_nonneg_iff)
  finally show ?thesis using pos
    unfolding bit_digit_def Let_def P_def [symmetric] s_def [symmetric] pos_def [symmetric] c0_def [symmetric] c1_def [symmetric] by simp
qed

lemma bits_loop_spec:
  assumes "unat radix = 2 ^ b" "0 < b" "b < 6"
  shows "n \<le> k \<Longrightarrow> n = 0 \<or> (i + n - 1) * b < 32 * length tab \<Longrightarrow> bits_loop radix b tab n i (k, t) =
    Inr (k - n, map digit_char (fixed_digits (2 ^ b) (nat (lval tab) div (2 ^ b) ^ i) n) @ t)"
proof (induction n arbitrary: i k t)
  case (Suc n)
  have "i * b \<le> (i + Suc n - 1) * b" by (intro mult_le_mono1) simp
  then have "i * b < 32 * length tab" using Suc.prems(2) by linarith
  then obtain c where c: "bit_digit radix b tab i = Inr c" "unat c = nat (lval tab) div (2 ^ b) ^ i mod 2 ^ b"
    using bit_digit_spec [OF assms(1,2), of i tab] assms(3) by auto
  have "unat c < 2 ^ b" unfolding c(2) by simp
  moreover have "(2 :: nat) ^ b \<le> 2 ^ 5" using assms(3) by (intro power_increasing) simp_all
  ultimately have d: "digits ! unat c = digit_char (unat c)" by (intro digits_table) simp
  obtain k1 where "k = Suc k1" using Suc.prems(1) by (cases k) auto
  moreover have "nat (lval tab) div (2 ^ b) ^ Suc i = nat (lval tab) div (2 ^ b) ^ i div 2 ^ b" by (simp add: div_mult2_eq mult.commute [of "2 ^ b"])
  ultimately show ?case using Suc.IH [of k1 "Suc i"] Suc.prems c d by (simp del: power_Suc)
qed simp

text \<open>The number of bits of a positive canonical number, from the leading zeros of its top limb.\<close>

lemma bit_count:
  assumes "normal x" "\<not> js_bigint_sign x" "sval x \<noteq> 0" "m = length x * 32 - js_limb_clz (x ! (length x - 1))"
  shows "0 < m" "2 ^ (m - 1) \<le> nat (sval x)" "nat (sval x) < 2 ^ m" "m \<le> 32 * length x"
proof -
  obtain xs t where x: "x = xs @ [t]" using normal_nonempty [OF assms(1)] rev_exhaust by blast
  have l: "sval x = lval xs + LB ^ length xs * uint t" using assms(2) by (simp add: sval_def x lval_append)
  have goal: "0 < m \<and> 2 ^ (m - 1) \<le> sval x \<and> sval x < 2 ^ m"
  proof (cases "t = 0")
    case True
    then have xs: "xs \<noteq> []" using assms(3) l by auto
    then have s: "js_bigint_sign xs" using assms(1) True by (auto simp: x normal_snoc sign_limb_def split: if_splits)
    have m: "m = 32 * length xs" using assms(4) True by (simp add: x js_limb_clz_def)
    have L: "LB ^ length xs = 2 ^ m" unfolding m power_mult by simp
    have m0: "0 < m" using xs m by simp
    then have "(2 :: int) ^ m = 2 * 2 ^ (m - 1)" by (cases m) simp_all
    then show ?thesis using lval_sign [OF xs] s l True m0 lval_bounds(2) [of xs] L by simp
  next
    case False
    note z = leading_zeros [OF False _ clz32_def, simplified]
    define k where "k = 32 - clz32 t"
    have k: "0 < k" "2 ^ (k - 1) \<le> uint t" "uint t < 2 ^ k" using z by (simp_all add: k_def)
    have m: "m = 32 * length xs + k" using assms(4) False z(1) by (simp add: x js_limb_clz_def k_def)
    define p where "p = LB ^ length xs * uint t"
    have "LB ^ length xs * 2 ^ (k - 1) \<le> p" using k(2) by (simp add: p_def)
    moreover have "LB ^ length xs * (uint t + 1) \<le> LB ^ length xs * 2 ^ k" using k(3) by simp
    then have "p + LB ^ length xs \<le> LB ^ length xs * 2 ^ k" by (simp only: p_def distrib_left mult_1_right)
    moreover have "2 ^ (m - 1) = LB ^ length xs * 2 ^ (k - 1)" "2 ^ m = LB ^ length xs * 2 ^ k"
      using k(1) unfolding m by (simp_all add: power_add power_mult [symmetric] power_mult flip: add_diff_assoc)
    ultimately show ?thesis using l [folded p_def] lval_bounds [of xs] k(1) m by linarith
  qed
  have nn: "0 \<le> sval x" using sval_neg [OF normal_nonempty [OF assms(1)]] assms(2) by simp
  show "0 < m" using goal by simp
  show "2 ^ (m - 1) \<le> nat (sval x)" using goal nn by (simp add: le_nat_iff)
  show "nat (sval x) < 2 ^ m" using goal nn by (simp add: nat_less_iff)
  show "m \<le> 32 * length x" unfolding assms(4) by simp
qed

section \<open>The printer\<close>

fun bigint_of :: "bigint_value \<Rightarrow> int" where
  "bigint_of (ShortBig v) = sint v"
| "bigint_of (HeapBig r) = sval r"

fun bigint_ok :: "bigint_value \<Rightarrow> bool" where
  "bigint_ok (ShortBig v) = True"
| "bigint_ok (HeapBig r) = normal r"

fun bigint_size :: "bigint_value \<Rightarrow> nat" where
  "bigint_size (ShortBig v) = 1"
| "bigint_size (HeapBig r) = length r"

lemma print_limbs_spec:
  assumes "normal r"
  shows "yields alloc (length r) \<bar>sval r\<bar> (print_limbs alloc r bin)"
proof -
  have "yields alloc (length r) (sval r) (big_bind (js_bigint_new alloc (length r)) (\<lambda>_. Inr r))"
    by (rule yields_new) (use assms in \<open>simp_all add: yields_Inr\<close>)
  then show ?thesis using assms js_bigint_neg_spec [OF normal_nonempty [OF assms], of alloc] sval_neg [OF normal_nonempty [OF assms]]
    by (auto simp: print_limbs_def yields_Inr)
qed

lemma power_radix:
  assumes "2 \<le> unat radix" "unat radix \<le> 36"
  shows "2 ^ (31 - clz32 radix) \<le> unat radix" "0 < 31 - clz32 radix" "31 - clz32 radix < 6"
proof -
  have nz: "radix \<noteq> 0" using assms(1) by auto
  note z = leading_zeros_nat [OF nz _ clz32_def, simplified]
  show p: "2 ^ (31 - clz32 radix) \<le> unat radix" using z(2) .
  have "(2 :: nat) ^ 1 < 2 ^ (32 - clz32 radix)" using z(3) assms(1) by simp
  then have "1 < 32 - clz32 radix" by (rule power_less_imp_less_exp [rotated]) simp
  then show "0 < 31 - clz32 radix" by simp
  have "(2 :: nat) ^ (31 - clz32 radix) < 2 ^ 6" using p assms(2) by simp
  then show "31 - clz32 radix < 6" by (rule power_less_imp_less_exp [rotated]) simp
qed

lemma print_digits:
  assumes "normal x" "0 < sval x" "2 \<le> unat radix" "unat radix \<le> 36"
    and b: "b = 31 - clz32 radix" and m: "m = length x * 32 - js_limb_clz (x ! (length x - 1))"
    and l: "l = (m + b - 1) div b"
  defines "ds \<equiv> digits_of (unat radix) (nat (sval x))"
  shows "length ds \<le> l"
    "(if radix AND (radix - 1) \<noteq> 0 then divide_loop (l + j + 1) radix x (l + j, []) else bits_loop radix b x l 0 (l + j, []))
      = Inr (l + j - length ds, map digit_char ds)"
proof -
  have s: "\<not> js_bigint_sign x" "x \<noteq> []" "sval x \<noteq> 0"
    using sval_neg [OF normal_nonempty [OF assms(1)]] assms(2) normal_nonempty [OF assms(1)] by simp_all
  have L: "lval x = sval x" using s(1) by (simp add: sval_def)
  note bc = bit_count [OF assms(1) s(1,3) m]
  note pr = power_radix [OF assms(3,4), folded b]
  note c = ceiling_digits [OF pr(2) bc(1) l]
  have "nat (sval x) < (2 ^ b) ^ l" using power_increasing [OF c(1), of "2 :: nat"] by (intro less_le_trans [OF bc(3)]) (simp add: power_mult)
  then have lt: "nat (sval x) < unat radix ^ l" using power_mono [OF pr(1), of l] by (meson less_le_trans zero_le)
  show len: "length ds \<le> l" unfolding ds_def by (rule digits_length [OF assms(3) lt c(3)])
  show "(if radix AND (radix - 1) \<noteq> 0 then divide_loop (l + j + 1) radix x (l + j, []) else bits_loop radix b x l 0 (l + j, []))
      = Inr (l + j - length ds, map digit_char ds)"
  proof (cases "radix AND (radix - 1) = 0")
    case True
    note p = power_of_two_radix [OF True assms(3), folded b]
    have "(l - 1) * b < 32 * length x" using c(2) bc(1,4) by (simp add: mult.commute)
    moreover have f: "fixed_digits (2 ^ b) (nat (sval x)) l = ds" unfolding ds_def p(1) by (rule digits_of_bits [OF p(2) bc(1-3) l])
    moreover have "length ds = l" by (simp flip: f)
    ultimately show ?thesis using bits_loop_spec [OF p(1,2) pr(3), of l "l + j" 0 x "[]"] True by (simp add: L)
  next
    case False
    define B where "B = unat (js_radix_base_table ! (unat radix - 2))"
    note T = radix_tables [OF False assms(4), folded B_def]
    have "unat radix ^ 1 \<le> B" unfolding T(1) using T(2,3) by (intro power_increasing) simp_all
    then have B: "unat radix \<le> B" by simp
    have "unat radix ^ l \<le> B ^ l" using B by (rule power_mono) simp
    moreover have "B ^ l \<le> B ^ (l + j + 1)" using B assms(3) by (intro power_increasing) simp_all
    ultimately have "nat (lval x) < B ^ (l + j + 1)" using lt by (simp only: L)
    then show ?thesis using divide_loop_spec [OF False assms(4), of x "l + j + 1" "l + j" "[]", folded B_def] False s(2,3) len
      by (simp add: L ds_def del: power_Suc)
  qed
qed

lemma to_string_heap:
  assumes "normal r" "2 \<le> unat radix" "unat radix \<le> 36"
  shows "\<exists>res. js_bigint_to_string1 alloc room new_string (HeapBig r) radix = Inr res \<and>
    (case res of Inr t \<Rightarrow> t = int_text (unat radix) (sval r)
     | Inl e \<Rightarrow> e = NoMemory \<and> ((\<exists>m. \<not> alloc m) \<or> (\<exists>m. \<not> room m) \<or> (\<exists>m. \<not> new_string m))
         \<or> e = TooLargeToAllocate \<and> length r > JS_BIGINT_MAX_SIZE)"
proof (cases "length r = 1 \<and> r ! 0 = 0")
  case True
  then have "sval r = 0" using normal_zero [OF assms(1)] by simp
  moreover have "int_text (unat radix) 0 = [48]" using assms(2) by (simp add: int_text_def digits_small digit_char_def)
  ultimately show ?thesis using True by (auto simp: js_bigint_to_string1_def Let_def)
next
  case False
  then have nz: "sval r \<noteq> 0" using normal_zero [OF assms(1)] by blast
  have y: "yields alloc (length r) \<bar>sval r\<bar> (print_limbs alloc r (radix AND (radix - 1) = 0))"
    by (rule print_limbs_spec [OF assms(1)])
  show ?thesis
  proof (cases "print_limbs alloc r (radix AND (radix - 1) = 0)")
    case (Inl e)
    then show ?thesis using False y by (auto simp: js_bigint_to_string1_def Let_def yields_def)
  next
    case (Inr x)
    have x: "normal x" "sval x = \<bar>sval r\<bar>" using y Inr by (simp_all add: yields_Inr)
    define b where "b = 31 - clz32 radix"
    define m where "m = length x * 32 - js_limb_clz (x ! (length x - 1))"
    define l where "l = (m + b - 1) div b"
    define j :: nat where "j = (if js_bigint_sign r then 1 else 0)"
    define ds where "ds = digits_of (unat radix) (nat (sval x))"
    have pos: "0 < sval x" using x(2) nz by simp
    note d = print_digits(1) [OF x(1) pos assms(2,3) b_def m_def l_def, folded ds_def]
      print_digits(2) [OF x(1) pos assms(2,3) b_def m_def l_def, of j, folded ds_def]
    have sg: "js_bigint_sign r \<longleftrightarrow> sval r < 0" using sval_neg [OF normal_nonempty [OF assms(1)]] by (rule sym)
    have put: "(if js_bigint_sign r then put_back 45 (l + j - length ds, map digit_char ds) else Inr (l + j - length ds, map digit_char ds))
        = Inr (l - length ds, int_text (unat radix) (sval r))"
      using d(1) sg x(2) by (auto simp: j_def int_text_def ds_def Suc_diff_le)
    have "js_bigint_to_string1 alloc room new_string (HeapBig r) radix =
      (if \<not> room (l + j + 1) then Inr (Inl NoMemory)
       else Inr (if new_string (length (int_text (unat radix) (sval r))) then Inr (int_text (unat radix) (sval r)) else Inl NoMemory))"
      unfolding js_bigint_to_string1_def Let_def bigint_value.case if_not_P [OF False] Inr sum.case
        b_def [symmetric] m_def [symmetric] l_def [symmetric] j_def [symmetric] d(2) res_bind_simps put snd_conv by (rule refl)
    then show ?thesis by auto
  qed
qed

lemma digits_lower: "2 \<le> b \<Longrightarrow> n \<noteq> 0 \<Longrightarrow> b ^ (length (digits_of b n) - 1) \<le> n"
proof (induction b n rule: digits_of.induct)
  case (1 b n)
  show ?case
  proof (cases "n < b")
    case True
    then show ?thesis using 1 by (simp add: digits_small)
  next
    case False
    define k where "k = length (digits_of b (n div b)) - 1"
    have "length (digits_of b (n div b)) = Suc k" by (simp add: k_def Suc_diff_1)
    moreover have "b ^ k \<le> n div b" unfolding k_def using 1 False by (simp add: div_eq_0_iff)
    then have "b ^ k * b \<le> n div b * b" by (rule mult_le_mono1)
    then have "b ^ k * b \<le> n" by (meson div_times_less_eq_dividend le_trans)
    ultimately show ?thesis using 1 False by (simp add: digits_step mult.commute)
  qed
qed

lemma to_digit_char: "d < 36 \<Longrightarrow> js_to_digit (digit_char d) = d"
proof -
  have "\<forall>d \<in> set [0..<36]. js_to_digit (digit_char d) = d" by (simp add: js_to_digit_def digit_char_def upt_rec)
  then show "d < 36 \<Longrightarrow> ?thesis" by simp
qed

lemma digit_text:
  assumes "2 \<le> b" "b \<le> 36"
  shows "digits_in b (map digit_char (digits_of b n))" "text_value b (map digit_char (digits_of b n)) = n"
proof -
  have "map (js_to_digit \<circ> digit_char) (digits_of b n) = map (\<lambda>d. d) (digits_of b n)"
    by (rule map_cong [OF refl]) (use digits_bound [OF assms(1)] assms(2) to_digit_char in \<open>fastforce\<close>)
  then show "text_value b (map digit_char (digits_of b n)) = n" using digits_value_of [OF assms(1), of n] by (simp add: text_value_def)
  show "digits_in b (map digit_char (digits_of b n))"
    unfolding digits_in_def using digits_bound [OF assms(1)] assms(2) to_digit_char by fastforce
qed

lemma value_bound: "bigint_ok val \<Longrightarrow> nat \<bar>bigint_of val\<bar> < 2 ^ (32 * bigint_size val)"
proof (cases val)
  case (ShortBig v)
  have "nat \<bar>sint v\<bar> < 2 ^ 32" using sint_greater_eq [of v] sint_less [of v] by simp
  then show ?thesis by (simp add: ShortBig)
next
  case (HeapBig r)
  assume "bigint_ok val"
  then have r: "r \<noteq> []" using HeapBig normal_nonempty by simp
  have "0 < LB ^ length r" by simp
  then have "\<bar>sval r\<bar> < LB ^ length r" using sval_range [OF r] by linarith
  then have "\<bar>sval r\<bar> < 2 ^ (32 * length r)" unfolding power_mult by simp
  then show ?thesis using HeapBig by (simp add: nat_less_iff)
qed

lemma decimal_digits: "n < 2 ^ (32 * k) \<Longrightarrow> n \<noteq> 0 \<Longrightarrow> (length (digits_of 10 n) - 1) div 10 * 33 < 32 * k"
proof -
  assume n: "n < 2 ^ (32 * k)" "n \<noteq> 0"
  define m where "m = length (digits_of 10 n) - 1"
  have "(2 ^ 33) ^ (m div 10) \<le> (10 ^ 10 :: nat) ^ (m div 10)" by (rule power_mono) simp_all
  also have "\<dots> \<le> 10 ^ m" unfolding power_mult [symmetric] by (intro power_increasing) simp_all
  also have "\<dots> \<le> n" unfolding m_def by (rule digits_lower) (use n in simp_all)
  finally have "(2 :: nat) ^ (33 * (m div 10)) < 2 ^ (32 * k)" unfolding power_mult [symmetric] using n(1) by (rule le_less_trans)
  then have "33 * (m div 10) < 32 * k" by (rule power_less_imp_less_exp [rotated]) simp
  then show ?thesis by (simp add: m_def mult.commute)
qed

lemma text_limbs_bound:
  assumes "from_radix radix" "n < 2 ^ (32 * k)" "0 < k" "k \<le> 32000" "d \<le> length (digits_of (unat radix) n)"
  shows "text_limbs radix d \<le> JS_BIGINT_MAX_SIZE"
proof (cases "n = 0")
  case True
  have "length (digits_of (unat radix) n) = 1" using True assms(1) by (auto simp: from_radix_def digits_small)
  then have "d = 0 \<or> d = 1" using assms(5) by auto
  moreover have "32 - clz32 (radix - 1) \<le> 32" by simp
  ultimately show ?thesis by (auto simp: text_limbs_def)
next
  case n0: False
  define m where "m = length (digits_of (unat radix) n) - 1"
  have dm: "d \<le> m + 1" using assms(5) by (simp add: m_def)
  show ?thesis
  proof (cases "radix = 10")
    case True
    have "m div 10 * 33 < 32 * k" using decimal_digits [OF assms(2) n0] True by (simp add: m_def)
    moreover have "m < 10 * (m div 10) + 10" by simp
    ultimately have "33 * m < 320 * k + 330" by linarith
    then have "33 * d \<le> 320 * k + 363" using dm by linarith
    then have "d \<le> 310314" using assms(4) by linarith
    then have "(d * 27 + 7) div 8 div 32 \<le> 32728" by simp
    then show ?thesis using True by (simp add: text_limbs_def)
  next
    case False
    define b where "b = 32 - clz32 (radix - 1)"
    note r = radix_bits [OF assms(1) False, folded b_def]
    have "(2 :: nat) ^ (b * m) \<le> n" unfolding power_mult r(1) [symmetric] m_def
      by (rule digits_lower [OF _ n0]) (use assms(1) in \<open>auto simp: from_radix_def\<close>)
    then have "(2 :: nat) ^ (b * m) < 2 ^ (32 * k)" using assms(2) by (rule le_less_trans)
    then have "b * m < 32 * k" by (rule power_less_imp_less_exp [rotated]) simp
    moreover have "d * b \<le> (m + 1) * b" using dm by (rule mult_le_mono1)
    ultimately have "d * b < 32 * k + 32" using r(3) by (simp add: algebra_simps)
    then have "d * b div 32 < k + 1" by (simp add: div_less_iff_less_mult algebra_simps)
    then show ?thesis using False assms(4) by (simp add: text_limbs_def b_def)
  qed
qed

lemma to_string_any:
  assumes "bigint_ok val" "2 \<le> unat radix" "unat radix \<le> 36"
  shows "\<exists>res. js_bigint_to_string1 alloc room new_string val radix = Inr res \<and>
    (case res of Inr t \<Rightarrow> t = int_text (unat radix) (bigint_of val)
     | Inl e \<Rightarrow> e = NoMemory \<and> ((\<exists>m. \<not> alloc m) \<or> (\<exists>m. \<not> room m) \<or> (\<exists>m. \<not> new_string m))
         \<or> e = TooLargeToAllocate \<and> bigint_size val > JS_BIGINT_MAX_SIZE)"
proof (cases val)
  case (ShortBig v)
  have "sint (scast v :: u64) = sint v"
    by (subst signed_scast_eq) (use sint_greater_eq [of v] sint_less [of v] in \<open>simp add: signed_take_bit_int_eq_self\<close>)
  then show ?thesis using ShortBig signed_text [of "\<lambda>n. u64toa_radix n radix", OF u64toa_radix_spec [OF assms(2,3)], of "scast v"]
    by (auto simp: js_bigint_to_string1_def i64toa_radix_def Let_def)
next
  case (HeapBig r)
  have "normal r" using assms(1) HeapBig by simp
  then show ?thesis unfolding HeapBig bigint_of.simps bigint_size.simps by (rule to_string_heap [OF _ assms(2,3)])
qed

lemma result_value:
  assumes "\<exists>res. X = Inr res \<and> (case res of Inr t \<Rightarrow> t = v | Inl e \<Rightarrow> P e)" "\<And>e. \<not> P e"
  shows "X = Inr (Inr v)"
proof -
  obtain res where r: "X = Inr res" "case res of Inr t \<Rightarrow> t = v | Inl e \<Rightarrow> P e" using assms(1) by blast
  then show ?thesis using assms(2) by (cases res) simp_all
qed

section \<open>Text of a BigInt\<close>

text \<open>
  C19. Printing a BigInt, short or on the heap, in any radix from 2 to 36 always returns: the loop
  ends, no character is stored before the start of the buffer and no limb is read outside the array.
  The text is the numeral of the value without leading zeros, unless an allocation is refused.
\<close>

theorem bigint_to_string_exact:
  assumes "bigint_ok val" "2 \<le> unat radix" "unat radix \<le> 36"
  shows "\<exists>res. js_bigint_to_string1 alloc room new_string val radix = Inr res \<and>
    (case res of Inr t \<Rightarrow> t = int_text (unat radix) (bigint_of val)
     | Inl e \<Rightarrow> e = NoMemory \<and> ((\<exists>m. \<not> alloc m) \<or> (\<exists>m. \<not> room m) \<or> (\<exists>m. \<not> new_string m))
         \<or> e = TooLargeToAllocate \<and> bigint_size val > JS_BIGINT_MAX_SIZE)"
  using to_string_any [OF assms] .

theorem bigint_to_string_exact_witness:
  "js_bigint_to_string1 (\<lambda>_. True) (\<lambda>_. True) (\<lambda>_. True) (HeapBig [0, 0xFFFFFFFF]) 10
     = Inr (Inr [45, 52, 50, 57, 52, 57, 54, 55, 50, 57, 54])"
proof -
  have n: "normal [0, 0xFFFFFFFF]" "sval [0, 0xFFFFFFFF] = - 4294967296" by code_simp+
  have t: "int_text 10 (- 4294967296) = [45, 52, 50, 57, 52, 57, 54, 55, 50, 57, 54]"
    by (simp add: int_text_def digits_of.simps digit_char_def)
  then show ?thesis
    using result_value [OF bigint_to_string_exact [of "HeapBig [0, 0xFFFFFFFF]" 10 "\<lambda>_. True" "\<lambda>_. True" "\<lambda>_. True"]] n by simp
qed

text \<open>
  C18. Round trip: a BigInt of at most 32000 limbs (of the 32768 a BigInt may have) that has been
  printed in radix 2, 8, 10 or 16 is read back from its text with the same value and in canonical
  form, or reading fails because an allocation fails. The bound on the limbs is needed: the reader
  estimates the limbs of a decimal text from above and refuses some texts of larger numbers.
\<close>

theorem bigint_text_round_trip:
  assumes "bigint_ok val" "bigint_size val \<le> 32000" "from_radix radix"
    "js_bigint_to_string1 alloc room new_string val radix = Inr (Inr t)"
  shows "\<exists>r. js_bigint_from_string alloc1 t radix = Inr r \<and>
    (case r of Inr x \<Rightarrow> normal x \<and> sval x = bigint_of val | Inl e \<Rightarrow> e = NoMemory \<and> (\<exists>m. \<not> alloc1 m))"
proof -
  define n where "n = nat \<bar>bigint_of val\<bar>"
  define p where "p = map digit_char (digits_of (unat radix) n)"
  define neg where "neg \<longleftrightarrow> bigint_of val < 0"
  have rad: "2 \<le> unat radix" "unat radix \<le> 36" using assms(3) by (auto simp: from_radix_def)
  have t: "t = signed_text_of neg p"
    using to_string_any [OF assms(1) rad, of alloc room new_string] assms(4)
    by (auto simp: int_text_def signed_text_of_def neg_def p_def n_def)
  note d = digit_text [OF rad, of n, folded p_def]
  have "significant p \<le> length (digits_of (unat radix) n)"
    unfolding significant_def using length_dropWhile_le [of _ p] by (simp add: p_def)
  moreover have "0 < bigint_size val" using assms(1) normal_nonempty by (cases val) auto
  ultimately have l: "text_limbs radix (significant p) \<le> JS_BIGINT_MAX_SIZE"
    using text_limbs_bound [OF assms(3) value_bound [OF assms(1)] _ assms(2)] by (simp add: n_def)
  have v: "(if neg then - int (text_value (unat radix) p) else int (text_value (unat radix) p)) = bigint_of val"
    unfolding d(2) by (simp add: n_def neg_def)
  show ?thesis using from_string_spec [OF assms(3) d(1), of alloc1 neg] l unfolding t v
    by (fastforce simp: yields_def split: sum.splits)
qed

theorem bigint_text_round_trip_witness:
  "\<exists>r. js_bigint_from_string (\<lambda>_. True) [45, 52, 50] 10 = Inr r \<and> (case r of Inr x \<Rightarrow> normal x \<and> sval x = - 42 | Inl e \<Rightarrow> False)"
proof -
  have "js_bigint_to_string1 (\<lambda>_. True) (\<lambda>_. True) (\<lambda>_. True) (ShortBig (- 42)) 10 = Inr (Inr [45, 52, 50])" by code_simp
  then show ?thesis
    using bigint_text_round_trip [of "ShortBig (- 42)" 10 "\<lambda>_. True" "\<lambda>_. True" "\<lambda>_. True" "[45, 52, 50]" "\<lambda>_. True"]
    by (simp add: from_radix_def cong: sum.case_cong)
qed

end
