(* ===== verification/Spec2Isabelle.thy ===== *)
theory Spec2Isabelle
  imports ChunkSet BumpArena Thermometer ArenaRealloc Utf8Strings DynBuf BigIntPrint
begin

text \<open>
  Verification development for \<open>arenajs\<close>: a QuickJS engine whose heap is split into a base region,
  filled once and then frozen, and one memory region per request, thrown away when the request ends.

  \<^bold>\<open>The program and its parts.\<close> \<open>src/qjs-arena.c\<close> and \<open>src/qjs-arena.h\<close> hold the memory system. A
  \<^emph>\<open>dual arena\<close> (\<open>JSDualArena\<close>) owns a \<^emph>\<open>base arena\<close> (\<open>JSArena\<close>, a bump allocator over one mapping)
  and any number of \<^emph>\<open>request arenas\<close> (\<open>JSRequestArena\<close>), whose memory comes in extents from a chunk
  provider and is handed out by a bump allocator or by a dlmalloc mspace. A global \<^emph>\<open>chunk set\<close>, a hash
  table, says which request arena owns a 4 KiB chunk. The five \<open>JSMallocFunctions\<close> hooks of the dual
  arena serve the engine. The \<^emph>\<open>write thermometer\<close> and the \<^emph>\<open>tripwire\<close> protect the pages of the base and
  count or stop the stores to it. \<open>src/quickjs.c\<close> is the engine; of it the development treats the
  BigInt arithmetic and the conversions between strings and UTF-8, with the helpers they call in
  \<open>src/cutils.h\<close> and \<open>src/dtoa.c\<close>.

  \<^bold>\<open>Conventions.\<close> Machine integers are words of their width, so that wrap-around is the code's. Memory
  is a function from 64-bit addresses to bytes where the code keeps headers in it, and a list where
  the code works on one array. Code that can fault returns a \<open>res\<close>: \<open>AssertFailed\<close>, \<open>Aborted\<close>,
  \<open>LoopsForever\<close> and \<open>BadPointer\<close> are the ways of not returning; a theorem that a call returns shows
  that none of them happens. Errors the code reports are ordinary values.

  \<^bold>\<open>Shared theories.\<close>

  \<^item> \<open>Prelude\<close>: words, byte memory, results with faults, regions of addresses. \<open>Bits\<close>: masks and shifts
    as arithmetic. \<open>Layout\<close>: which blocks of the address space the base arenas, caches and requests own.
  \<^item> \<open>Probing\<close>: linear-probing tables as a locale, with look-up, insertion and backward-shift deletion.

  \<^bold>\<open>The memory system.\<close>

  \<^item> \<open>ChunkTable\<close>, \<open>ChunkSet\<close>: \<open>js_arena_chunk_hash\<close>, \<open>js_arena_register_request\<close>,
    \<open>js_arena_unregister_request_range\<close>, \<open>js_arena_unregister_request\<close>, \<open>js_arena_ptr_request_owner\<close>.
    The table refines a map from chunks to owners under any sequence of calls; registration returns
    always and fails only on a failed allocation. The doubling of \<open>need\<close> is computed on natural
    numbers: the ranges the callers register are far below \<open>2 ^ 63\<close> chunks.
  \<^item> \<open>BumpArena\<close>: \<open>arena_alloc\<close>, \<open>arena_realloc\<close> and the header accessors, on memory. The headers stay a
    list of disjoint, aligned blocks; reallocation keeps the contents. Sizes are below \<open>2 ^ 63\<close>:
    \<open>arena_alloc_wraps\<close> shows what the code does near \<open>SIZE_MAX\<close>.
  \<^item> \<open>Thermometer\<close>: the page-fault handlers \<open>therm_sigsegv\<close> and \<open>hard_sigsegv\<close> and their chaining, the
    tables of watched and hardened ranges, the dirty bitmap and the baselines
    (\<open>js_arena_thermometer_*\<close>, \<open>js_dual_arena_harden\<close>, \<open>js_dual_arena_unharden\<close>). A store is retried
    while handlers lift the protection; two rounds are enough for a watched page. The chain of
    handlers has fuel 8; there are two handlers of the package and one of the host, so a longer chain
    is a cycle. The thermometer is exact, a hardened base is never written.
  \<^item> \<open>ArenaState\<close>, \<open>RequestArena\<close>, \<open>DualArena\<close>: the state of the dual arena and of all request arenas as
    the record \<open>world\<close>; page mapping, extent acquisition and release with the extent cache, the bump
    allocator over the extent list, the MORECORE call-back, creation, selection, freeze, mode switch,
    reset and release of request arenas, the record of the last failed allocation, all queries, and
    the malloc hooks \<open>jda_malloc\<close>, \<open>jda_calloc\<close>, \<open>jda_free\<close>, \<open>jda_realloc\<close> and
    \<open>jda_malloc_usable_size\<close>. The page mapper, \<open>malloc\<close>, the host's chunk providers and the mspace
    functions are fields of the record \<open>env\<close>.
  \<^item> \<open>ArenaHeap\<close>, \<open>ArenaAcquire\<close>: all extents of all request arenas are disjoint from each other, from
    the base and from the extents in the cache, and the chunk set says exactly who owns them
    (\<open>heap_inv\<close>); acquisition and release keep it.
  \<^item> \<open>BumpRequest\<close>, \<open>MspaceRequest\<close>: the request bump allocator keeps its list of blocks and reallocates
    correctly; an mspace obeying the contract \<open>mspace_ok\<close> (\<open>dlmalloc\<close> is a parameter) works inside
    the memory the arena gives it.
  \<^item> \<open>ArenaWorld\<close>, \<open>ArenaAlloc\<close>, \<open>ArenaMalloc\<close>: the invariant of the whole memory system (\<open>world_inv\<close>) and
    that allocation through \<open>jda_malloc\<close> and \<open>jda_calloc\<close> keeps it, returns, and gives memory that is
    owned by the selected arena and overlaps nothing live.

  \<^bold>\<open>Text.\<close>

  \<^item> \<open>Utf8\<close>: surrogate arithmetic, \<open>utf8_encode\<close>, \<open>utf8_decode\<close>, \<open>utf8_decode_len\<close>, \<open>utf8_scan\<close> and the
    four buffer conversions. Where \<open>utf8_encode_buf16\<close> moves its source pointer back before it counts
    the rest, the model counts from the place the pointer is moved to.
  \<^item> \<open>Utf8Strings\<close>: \<open>JS_NewStringLen\<close> and \<open>JS_ToCStringLen2\<close>, against the arithmetic of the Unicode
    encoding forms (\<open>utf8_bytes\<close>, \<open>utf16_units\<close>, \<open>first_char\<close>); round trip; truncation.
  \<^item> \<open>DynBuf\<close>: the growable buffer; the reallocation function and the output of \<open>vsnprintf\<close> are parameters.
  \<^item> \<open>IntText\<close>: integer to text in every radix (\<open>src/dtoa.c\<close>).

  \<^bold>\<open>BigInt.\<close>

  \<^item> \<open>Limbs\<close>: the \<open>js_mp_*\<close> routines on arrays of 32-bit limbs, with long division.
  \<^item> \<open>BigInt\<close>, \<open>BigIntArith\<close>, \<open>BigIntDiv\<close>, \<open>BigIntPow\<close>: the values in two's complement, normalisation,
    and the operations; each gives the canonical representation of the exact result, or out of memory
    if an allocation fails, or too large for the stated reason (\<open>yields\<close>).
  \<^item> \<open>BigIntRead\<close>, \<open>BigIntPrint\<close>: reading and printing, exact and inverse to each other. The loops recurse
    on the remaining text or limbs; none needs fuel.
  \<^item> The allocator of limbs is a predicate on sizes (\<open>limb_alloc\<close>): within one call, two requests of
    the same size have the same outcome. Reference counts are not modelled, hence neither is the
    assertion of \<open>js_bigint_normalize1\<close> that the number is not shared: the model's numbers are values.

  \<^bold>\<open>Not modelled.\<close> The parser, compiler, interpreter, object model, garbage collector and library of the
  engine; BigInt conversions to and from \<open>double\<close>; \<open>js_dtoa\<close> and \<open>js_atod\<close>; regular expressions; Unicode
  tables; the reactor, replay and trace layers; the operating-system library, command-line tools,
  tests and generated sources. \<open>src/dlmalloc.c\<close> is a vendored allocator: its contract is a hypothesis.
\<close>

end
